(* ===== verification/Prelude.thy ===== *)
theory Prelude
  imports Main "HOL-Library.Word" "HOL-Library.AList"
begin

text \<open>
  Shared vocabulary of the development: the Python values the scripts compute with (bytes,
  dictionaries in insertion order, exceptions as results), the numeric and textual
  conversions of the language that the sources use (\<^verbatim>\<open>int()\<close>, \<^verbatim>\<open>"%d"\<close>,
  \<^verbatim>\<open>bytes.hex\<close>, \<^verbatim>\<open>bytes.fromhex\<close>, \<^verbatim>\<open>struct.unpack\<close>), and
  the generic lemmas on lists, words and dictionaries that the component theories use.
\<close>

unbundle bit_operations_syntax

section \<open>Types\<close>

type_synonym byte = "8 word"

type_synonym bytes = "byte list"

type_synonym ('k, 'v) dict = "('k \<times> 'v) list"

text \<open>
  The exceptions the modelled code can end with. \<open>SysExit\<close> is \<^verbatim>\<open>sys.exit\<close>
  with its message.
\<close>

datatype py_error =
    IndexError
  | KeyError
  | ValueError
  | ZeroDivisionError
  | StructError
  | TypeError
  | SysExit string

type_synonym 'a result = "py_error + 'a"

section \<open>Definitions\<close>

subsection \<open>Exceptions\<close>

definition bindE :: "'a result \<Rightarrow> ('a \<Rightarrow> 'b result) \<Rightarrow> 'b result" where
  "bindE m f = (case m of Inl e \<Rightarrow> Inl e | Inr x \<Rightarrow> f x)"

definition mapE :: "('a \<Rightarrow> 'b) \<Rightarrow> 'a result \<Rightarrow> 'b result" where
  "mapE f m = (case m of Inl e \<Rightarrow> Inl e | Inr x \<Rightarrow> Inr (f x))"

text \<open>Run a list of fallible computations in order, stop at the first exception.\<close>

fun sequenceE :: "'a result list \<Rightarrow> 'a list result" where
  "sequenceE [] = Inr []"
| "sequenceE (m # ms) = bindE m (\<lambda>x. mapE (\<lambda>xs. x # xs) (sequenceE ms))"

text \<open>A loop whose body may raise.\<close>

fun foldE :: "('s \<Rightarrow> 'a \<Rightarrow> 's result) \<Rightarrow> 's \<Rightarrow> 'a list \<Rightarrow> 's result" where
  "foldE f s [] = Inr s"
| "foldE f s (x # xs) = bindE (f s x) (\<lambda>s'. foldE f s' xs)"

text \<open>\<^verbatim>\<open>buf[i]\<close> for a non-negative index.\<close>

definition byte_at :: "bytes \<Rightarrow> nat \<Rightarrow> nat result" where
  "byte_at buf i = (if i < length buf then Inr (unat (buf ! i)) else Inl IndexError)"

text \<open>\<^verbatim>\<open>buf[i:j]\<close> for non-negative bounds: clipped to the buffer, never an error.\<close>

definition py_slice :: "'a list \<Rightarrow> nat \<Rightarrow> nat \<Rightarrow> 'a list" where
  "py_slice buf i j = take (j - i) (drop i buf)"

subsection \<open>Integers in bytes\<close>

text \<open>Big-endian composition, \<^verbatim>\<open>(buf[i] << 8) | buf[i + 1]\<close> and wider.\<close>

definition be16 :: "nat \<Rightarrow> nat \<Rightarrow> nat" where
  "be16 a b = push_bit 8 a OR b"

fun le_nat :: "bytes \<Rightarrow> nat" where
  "le_nat [] = 0"
| "le_nat (b # bs) = unat b + 256 * le_nat bs"

definition be_nat :: "bytes \<Rightarrow> nat" where
  "be_nat bs = le_nat (rev bs)"

text \<open>
  A big-endian byte string as a word of any width, and the \<open>n\<close> low bytes of a word in
  big-endian order.
\<close>

definition be_word :: "bytes \<Rightarrow> 'a::len word" where
  "be_word bs = foldl (\<lambda>acc b. push_bit 8 acc OR ucast b) 0 bs"

definition be_bytes :: "nat \<Rightarrow> 'a::len word \<Rightarrow> bytes" where
  "be_bytes n w = map (\<lambda>i. ucast (drop_bit (8 * (n - 1 - i)) w)) [0..<n]"

subsection \<open>Dictionaries in insertion order\<close>

text \<open>
  A Python dictionary is an association list in insertion order: \<^const>\<open>AList.update\<close>
  overwrites in place and appends a new key at the end, as \<^verbatim>\<open>d[k] = v\<close> does.
\<close>

definition dget :: "('k, 'v) dict \<Rightarrow> 'k \<Rightarrow> 'v \<Rightarrow> 'v" where
  "dget d k x = (case map_of d k of None \<Rightarrow> x | Some v \<Rightarrow> v)"

definition dlookup :: "('k, 'v) dict \<Rightarrow> 'k \<Rightarrow> 'v result" where
  "dlookup d k = (case map_of d k of None \<Rightarrow> Inl KeyError | Some v \<Rightarrow> Inr v)"

definition dkeys :: "('k, 'v) dict \<Rightarrow> 'k list" where
  "dkeys d = map fst d"

definition dvalues :: "('k, 'v) dict \<Rightarrow> 'v list" where
  "dvalues d = map snd d"

definition dict_ok :: "('k, 'v) dict \<Rightarrow> bool" where
  "dict_ok d \<longleftrightarrow> distinct (map fst d)"

text \<open>\<^verbatim>\<open>d.update(e)\<close>: the items of \<open>e\<close> in order.\<close>

definition dupdate :: "('k, 'v) dict \<Rightarrow> ('k, 'v) dict \<Rightarrow> ('k, 'v) dict" where
  "dupdate d e = foldl (\<lambda>acc (k, v). AList.update k v acc) d e"

text \<open>\<^verbatim>\<open>d[k] += n\<close> on a \<^verbatim>\<open>defaultdict(int)\<close>.\<close>

definition dadd :: "'k \<Rightarrow> 'n::comm_monoid_add \<Rightarrow> ('k, 'n) dict \<Rightarrow> ('k, 'n) dict" where
  "dadd k n d = AList.update k (dget d k 0 + n) d"

text \<open>\<^verbatim>\<open>d[k] |= s\<close> on a \<^verbatim>\<open>defaultdict(set)\<close>; \<^verbatim>\<open>add\<close> is the singleton case.\<close>

definition dunion :: "'k \<Rightarrow> 'v set \<Rightarrow> ('k, 'v set) dict \<Rightarrow> ('k, 'v set) dict" where
  "dunion k s d = AList.update k (dget d k {} \<union> s) d"

subsection \<open>Text\<close>

text \<open>\<^verbatim>\<open>"%d" % n\<close>.\<close>

definition digit_char :: "nat \<Rightarrow> char" where
  "digit_char d = char_of (48 + d)"

fun dec_nat :: "nat \<Rightarrow> string" where
  "dec_nat n = (if n < 10 then [digit_char n] else dec_nat (n div 10) @ [digit_char (n mod 10)])"

declare dec_nat.simps [simp del]

definition dec_int :: "int \<Rightarrow> string" where
  "dec_int i = (if i < 0 then CHR ''-'' # dec_nat (nat (- i)) else dec_nat (nat i))"

definition is_digit :: "char \<Rightarrow> bool" where
  "is_digit c \<longleftrightarrow> (let n = of_char c :: nat in 48 \<le> n \<and> n \<le> 57)"

definition digit_val :: "char \<Rightarrow> nat" where
  "digit_val c = of_char c - 48"

definition is_space :: "char \<Rightarrow> bool" where
  "is_space c \<longleftrightarrow> (let n = of_char c :: nat in n = 32 \<or> (9 \<le> n \<and> n \<le> 13) \<or> (28 \<le> n \<and> n \<le> 31))"

text \<open>The ASCII white space that \<^verbatim>\<open>bytes.fromhex\<close> skips.\<close>

definition is_ascii_space :: "char \<Rightarrow> bool" where
  "is_ascii_space c \<longleftrightarrow> (let n = of_char c :: nat in n = 32 \<or> (9 \<le> n \<and> n \<le> 13))"

text \<open>\<^verbatim>\<open>s.strip()\<close>.\<close>

definition strip :: "string \<Rightarrow> string" where
  "strip s = rev (dropWhile is_space (rev (dropWhile is_space s)))"

text \<open>\<^verbatim>\<open>s.isdigit()\<close> on ASCII text.\<close>

definition isdigit :: "string \<Rightarrow> bool" where
  "isdigit s \<longleftrightarrow> s \<noteq> [] \<and> (\<forall>c \<in> set s. is_digit c)"

definition nat_of_digits :: "string \<Rightarrow> nat" where
  "nat_of_digits s = foldl (\<lambda>acc c. 10 * acc + digit_val c) 0 s"

text \<open>\<^verbatim>\<open>s.split(sep)\<close> for a one-character separator: always at least one part.\<close>

fun split_on :: "char \<Rightarrow> string \<Rightarrow> string list" where
  "split_on sep [] = [[]]"
| "split_on sep (c # cs) =
     (if c = sep then [] # split_on sep cs
      else (case split_on sep cs of [] \<Rightarrow> [[c]] | p # ps \<Rightarrow> (c # p) # ps))"

text \<open>
  \<^verbatim>\<open>int(s)\<close>: surrounding space, one optional sign, digits with single underscores
  between them; anything else raises \<^verbatim>\<open>ValueError\<close>.
\<close>

definition parse_udec :: "string \<Rightarrow> nat option" where
  "parse_udec s =
     (let ps = split_on (CHR ''_'') s
      in if \<forall>p \<in> set ps. isdigit p then Some (nat_of_digits (concat ps)) else None)"

definition py_int :: "string \<Rightarrow> int result" where
  "py_int s =
     (case strip s of
        [] \<Rightarrow> Inl ValueError
      | c # cs \<Rightarrow>
          (if c = CHR ''-'' then (case parse_udec cs of None \<Rightarrow> Inl ValueError | Some n \<Rightarrow> Inr (- int n))
           else if c = CHR ''+'' then (case parse_udec cs of None \<Rightarrow> Inl ValueError | Some n \<Rightarrow> Inr (int n))
           else (case parse_udec (c # cs) of None \<Rightarrow> Inl ValueError | Some n \<Rightarrow> Inr (int n))))"

text \<open>\<^verbatim>\<open>bytes.hex()\<close> and \<^verbatim>\<open>bytes.fromhex(s)\<close>.\<close>

definition hex_digit :: "nat \<Rightarrow> char" where
  "hex_digit d = (if d < 10 then char_of (48 + d) else char_of (87 + d))"

definition hex_byte :: "byte \<Rightarrow> string" where
  "hex_byte b = [hex_digit (unat b div 16), hex_digit (unat b mod 16)]"

definition hex :: "bytes \<Rightarrow> string" where
  "hex bs = concat (map hex_byte bs)"

definition hex_val :: "char \<Rightarrow> nat option" where
  "hex_val c =
     (let n = of_char c :: nat
      in if 48 \<le> n \<and> n \<le> 57 then Some (n - 48)
         else if 97 \<le> n \<and> n \<le> 102 then Some (n - 87)
         else if 65 \<le> n \<and> n \<le> 70 then Some (n - 55)
         else None)"

fun fromhex :: "string \<Rightarrow> bytes result" where
  "fromhex [] = Inr []"
| "fromhex [c] = (if is_ascii_space c then Inr [] else Inl ValueError)"
| "fromhex (c # d # cs) =
     (if is_ascii_space c then fromhex (d # cs)
      else (case (hex_val c, hex_val d) of
              (Some h, Some l) \<Rightarrow> mapE (\<lambda>bs. of_nat (16 * h + l) # bs) (fromhex cs)
            | _ \<Rightarrow> Inl ValueError))"

section \<open>Lemmas\<close>

named_theorems resultE \<open>how results compose\<close>

subsection \<open>Results\<close>

lemma bindE_Inl [simp, resultE]: "bindE (Inl e) f = Inl e"
  by (simp add: bindE_def)

lemma bindE_Inr [simp, resultE]: "bindE (Inr x) f = f x"
  by (simp add: bindE_def)

lemma mapE_Inl [simp, resultE]: "mapE f (Inl e) = Inl e"
  by (simp add: mapE_def)

lemma mapE_Inr [simp, resultE]: "mapE f (Inr x) = Inr (f x)"
  by (simp add: mapE_def)

lemma mapE_eq_Inr_iff: "mapE f m = Inr y \<longleftrightarrow> (\<exists>x. m = Inr x \<and> y = f x)"
  by (cases m) auto

lemma bindE_eq_Inr_iff: "bindE m f = Inr y \<longleftrightarrow> (\<exists>x. m = Inr x \<and> f x = Inr y)"
  by (cases m) auto

lemma mapE_mapE: "mapE f (mapE g m) = mapE (f \<circ> g) m"
  by (cases m) auto

lemma mapE_id [simp]: "mapE (\<lambda>x. x) m = m"
  by (cases m) auto

lemma bindE_mapE: "bindE (mapE g m) f = bindE m (\<lambda>x. f (g x))"
  by (cases m) auto

lemma mapE_bindE: "mapE g (bindE m f) = bindE m (\<lambda>x. mapE g (f x))"
  by (cases m) auto

lemma bindE_assoc: "bindE (bindE m f) g = bindE m (\<lambda>x. bindE (f x) g)"
  by (cases m) auto

text \<open>For evaluation: do not look under the binder before the first computation is done.\<close>

lemma bindE_weak_cong: "m = m' \<Longrightarrow> bindE m f = bindE m' f"
  by simp

lemma byte_at_Inr [simp]: "i < length buf \<Longrightarrow> byte_at buf i = Inr (unat (buf ! i))"
  by (simp add: byte_at_def)

lemma replicate_eval: "replicate (numeral n) x = x # replicate (pred_numeral n) x"
  by (simp add: numeral_eq_Suc)

lemma length_py_slice [simp]: "length (py_slice xs i j) = min (j - i) (length xs - i)"
  by (simp add: py_slice_def min.commute)

lemma py_slice_append_left: "j \<le> length xs \<Longrightarrow> py_slice (xs @ ys) i j = py_slice xs i j"
  by (auto simp: py_slice_def)

subsection \<open>Integers in bytes\<close>

lemma unat_byte_less [simp]: "unat (b :: byte) < 256"
  using unsigned_less [of b, where ?'a = nat] by simp

lemma be16_eq: "b < 256 \<Longrightarrow> be16 a b = 256 * a + b"
proof -
  assume b: "b < 256"
  have "push_bit 8 a OR b = push_bit 8 a + b"
  proof (rule disjunctive_add_eq_or [symmetric])
    show "push_bit 8 a AND b = 0"
    proof (rule bit_eqI)
      fix n
      have "\<not> bit b n" if "8 \<le> n"
      proof -
        have "(2::nat) ^ 8 \<le> 2 ^ n" using that by (rule power_increasing) simp
        then have "b < 2 ^ n" using b by simp
        then show ?thesis by (simp add: bit_nat_def)
      qed
      then show "bit (push_bit 8 a AND b) n \<longleftrightarrow> bit (0::nat) n"
        by (auto simp: bit_simps)
    qed
  qed
  then show ?thesis by (simp add: be16_def push_bit_eq_mult)
qed

lemma be16_less: "a < 256 \<Longrightarrow> b < 256 \<Longrightarrow> be16 a b < 65536"
  by (simp add: be16_eq)

lemma be_word_Nil [simp]: "be_word [] = 0"
  by (simp add: be_word_def)

lemma be_word_snoc: "be_word (bs @ [b]) = push_bit 8 (be_word bs) OR ucast b"
  by (simp add: be_word_def)

lemma bit_be_word:
  "bit (be_word bs :: 'a::len word) k \<longleftrightarrow>
     k < LENGTH('a) \<and> k < 8 * length bs \<and> bit (bs ! (length bs - 1 - k div 8)) (k mod 8)"
proof (induction bs arbitrary: k rule: rev_induct)
  case Nil
  then show ?case by simp
next
  case (snoc b bs)
  show ?case
  proof (cases "k < 8")
    case True
    then show ?thesis
      by (auto simp: be_word_snoc bit_simps)
  next
    case False
    then obtain j where k: "k = j + 8"
      by (metis add.commute le_Suc_ex not_less)
    have "\<not> bit b k" using False by (auto dest!: bit_imp_le_length)
    moreover have "Suc (length bs) - Suc (k div 8) = length bs - 1 - j div 8" "k mod 8 = j mod 8"
      using k by auto
    moreover have "j div 8 < length bs \<Longrightarrow> length bs - 1 - j div 8 < length bs"
      by (cases bs) auto
    ultimately show ?thesis
      using k by (auto simp: be_word_snoc bit_simps snoc.IH nth_append)
  qed
qed

lemma length_be_bytes [simp]: "length (be_bytes n w) = n"
  by (simp add: be_bytes_def)

lemma nth_be_bytes: "i < n \<Longrightarrow> be_bytes n w ! i = ucast (drop_bit (8 * (n - 1 - i)) w)"
  by (simp add: be_bytes_def)

lemma bit_nth_be_bytes:
  "i < n \<Longrightarrow> bit (be_bytes n (w :: 'a::len word) ! i) k \<longleftrightarrow> k < 8 \<and> bit w (8 * (n - 1 - i) + k)"
  by (auto simp: nth_be_bytes bit_simps dest: bit_imp_le_length)

lemma be_bytes_be_word:
  assumes "length bs = n" and "8 * n \<le> LENGTH('a)"
  shows "be_bytes n (be_word bs :: 'a::len word) = bs"
proof (rule nth_equalityI)
  show "length (be_bytes n (be_word bs :: 'a word)) = length bs"
    using assms by simp
next
  fix i assume "i < length (be_bytes n (be_word bs :: 'a word))"
  then have i: "i < n" by simp
  show "be_bytes n (be_word bs :: 'a word) ! i = bs ! i"
  proof (rule bit_word_eqI)
    fix k assume "k < LENGTH(8)"
    then have k: "k < 8" by simp
    from i k have lt: "8 * (n - 1 - i) + k < 8 * n" by arith
    from i have "n - 1 - (n - 1 - i) = i" by arith
    with i k lt assms show "bit (be_bytes n (be_word bs :: 'a word) ! i) k = bit (bs ! i) k"
      by (simp add: bit_nth_be_bytes bit_be_word)
  qed
qed

lemma be_word_be_bytes:
  assumes "LENGTH('a) = 8 * n"
  shows "be_word (be_bytes n w) = (w :: 'a::len word)"
proof (rule bit_word_eqI)
  fix k assume "k < LENGTH('a)"
  then have k: "k < 8 * n" using assms by simp
  then have "k div 8 < n" by simp
  then have "n - 1 - (n - 1 - k div 8) = k div 8" and "n - 1 - k div 8 < n" by auto
  then show "bit (be_word (be_bytes n w) :: 'a word) k = bit w k"
    using k assms by (simp add: bit_be_word bit_nth_be_bytes)
qed

subsection \<open>Dictionaries\<close>

lemma map_of_update [simp]: "map_of (AList.update k v d) = (map_of d)(k \<mapsto> v)"
  by (rule update_conv')

lemma dict_ok_Nil [simp, intro]: "dict_ok []"
  by (simp add: dict_ok_def)

lemma dict_ok_update [simp, intro]: "dict_ok d \<Longrightarrow> dict_ok (AList.update k v d)"
  by (simp add: dict_ok_def distinct_update)

lemma dget_Nil [simp]: "dget [] k x = x"
  by (simp add: dget_def)

lemma dget_update: "dget (AList.update k v d) j x = (if j = k then v else dget d j x)"
  by (simp add: dget_def)

lemma dget_cong: "map_of d = map_of e \<Longrightarrow> dget d k x = dget e k x"
  by (simp add: dget_def)

lemma dict_ok_dadd [simp, intro]: "dict_ok d \<Longrightarrow> dict_ok (dadd k n d)"
  by (simp add: dadd_def)

lemma dict_ok_dunion [simp, intro]: "dict_ok d \<Longrightarrow> dict_ok (dunion k s d)"
  by (simp add: dunion_def)

lemma dget_dadd: "dget (dadd k n d) j 0 = (if j = k then dget d j 0 + n else dget d j 0)"
  by (simp add: dadd_def dget_update)

lemma dget_dunion: "dget (dunion k s d) j {} = (if j = k then dget d j {} \<union> s else dget d j {})"
  by (simp add: dunion_def dget_update)

lemma dom_dadd [simp]: "fst ` set (dadd k n d) = insert k (fst ` set d)"
  by (simp add: dadd_def dom_update)

lemma dom_dunion [simp]: "fst ` set (dunion k s d) = insert k (fst ` set d)"
  by (simp add: dunion_def dom_update)

lemma dupdate_Nil [simp]: "dupdate d [] = d"
  by (simp add: dupdate_def)

lemma dupdate_Cons [simp]: "dupdate d ((k, v) # e) = dupdate (AList.update k v d) e"
  by (simp add: dupdate_def)

lemma map_of_dupdate: "dict_ok e \<Longrightarrow> map_of (dupdate d e) = map_of d ++ map_of e"
proof (induction e arbitrary: d)
  case Nil
  then show ?case by simp
next
  case (Cons p e)
  obtain k v where p: "p = (k, v)" by (cases p)
  with Cons.prems have ok: "dict_ok e" and k: "map_of e k = None"
    by (auto simp: dict_ok_def map_of_eq_None_iff)
  show ?case
    using k by (auto simp: p Cons.IH [OF ok] fun_eq_iff map_add_def split: option.splits)
qed

lemma dict_ok_dupdate [simp, intro]: "dict_ok d \<Longrightarrow> dict_ok (dupdate d e)"
  by (induction e arbitrary: d) auto

text \<open>A sum over a dictionary: the sum of the values over its keys.\<close>

lemma sum_list_dvalues:
  fixes d :: "('k, 'n::comm_monoid_add) dict"
  assumes "dict_ok d"
  shows "sum_list (dvalues d) = (\<Sum>k \<in> fst ` set d. dget d k 0)"
proof -
  have "sum_list (dvalues d) = (\<Sum>p \<in> set d. snd p)"
    using assms by (simp add: dvalues_def dict_ok_def sum_list_distinct_conv_sum_set distinct_map)
  also have "\<dots> = (\<Sum>k \<in> fst ` set d. dget d k 0)"
  proof -
    have "sum snd (set d) = (\<Sum>p \<in> set d. dget d (fst p) 0)"
      using assms by (intro sum.cong) (auto simp: dget_def dict_ok_def)
    then show ?thesis
      using assms by (simp add: dict_ok_def distinct_map sum.reindex)
  qed
  finally show ?thesis .
qed

lemma sum_list_dadd:
  fixes d :: "('k, 'n::comm_monoid_add) dict"
  assumes "dict_ok d"
  shows "sum_list (dvalues (dadd k n d)) = sum_list (dvalues d) + n"
proof -
  let ?K = "fst ` set d"
  have "sum_list (dvalues (dadd k n d)) = (\<Sum>j \<in> insert k ?K. dget (dadd k n d) j 0)"
    using assms by (simp add: sum_list_dvalues)
  also have "\<dots> = dget d k 0 + n + (\<Sum>j \<in> ?K - {k}. dget d j 0)"
    by (simp add: dget_dadd sum.insert_remove)
  also have "\<dots> = (dget d k 0 + (\<Sum>j \<in> ?K - {k}. dget d j 0)) + n"
    by (simp add: algebra_simps)
  also have "dget d k 0 + (\<Sum>j \<in> ?K - {k}. dget d j 0) = (\<Sum>j \<in> ?K. dget d j 0)"
  proof (cases "k \<in> ?K")
    case True
    then show ?thesis by (simp add: sum.remove [where x = k])
  next
    case False
    then have "map_of d k = None" by (simp add: map_of_eq_None_iff)
    then have "dget d k 0 = 0" by (simp add: dget_def)
    with False show ?thesis by simp
  qed
  also have "(\<Sum>j \<in> ?K. dget d j 0) = sum_list (dvalues d)"
    using assms by (simp add: sum_list_dvalues)
  finally show ?thesis .
qed

subsection \<open>Text\<close>

lemma digit_char_simps [simp]:
  assumes "d < 10"
  shows "is_digit (digit_char d)" and "digit_val (digit_char d) = d"
  using assms by (simp_all add: is_digit_def digit_val_def digit_char_def)

lemma isdigit_append [simp]:
  "isdigit (s @ t) \<longleftrightarrow> (isdigit s \<and> t = []) \<or> (s = [] \<and> isdigit t) \<or> (isdigit s \<and> isdigit t)"
  by (auto simp: isdigit_def)

lemma isdigit_dec_nat [simp]: "isdigit (dec_nat n)"
proof (induction n rule: dec_nat.induct)
  case (1 n)
  then show ?case
    by (subst dec_nat.simps) (auto simp: isdigit_def)
qed

lemma nat_of_digits_snoc: "nat_of_digits (s @ [c]) = 10 * nat_of_digits s + digit_val c"
  by (simp add: nat_of_digits_def)

lemma nat_of_digits_dec_nat [simp]: "nat_of_digits (dec_nat n) = n"
proof (induction n rule: dec_nat.induct)
  case (1 n)
  show ?case
  proof (cases "n < 10")
    case True
    then show ?thesis by (subst dec_nat.simps) (simp add: nat_of_digits_def)
  next
    case False
    then show ?thesis using "1" by (subst dec_nat.simps) (simp add: nat_of_digits_snoc)
  qed
qed

lemma split_on_nonempty [simp]: "split_on sep s \<noteq> []"
  by (induction s) (auto split: list.splits)

lemma split_on_id: "sep \<notin> set s \<Longrightarrow> split_on sep s = [s]"
  by (induction s) auto

lemma split_on_append:
  "sep \<notin> set s \<Longrightarrow> split_on sep (s @ sep # t) = s # split_on sep t"
  by (induction s) auto

lemma isdigit_not_mem: "isdigit s \<Longrightarrow> \<not> is_digit c \<Longrightarrow> c \<notin> set s"
  by (auto simp: isdigit_def)

lemma is_digit_not_space: "is_digit c \<Longrightarrow> \<not> is_space c"
  by (auto simp: is_digit_def is_space_def Let_def)

lemma not_is_digit [simp]:
  "\<not> is_digit (CHR ''_'')" "\<not> is_digit (CHR ''-'')" "\<not> is_digit (CHR ''+'')"
  "\<not> is_digit (CHR '','')" "\<not> is_digit (CHR 0x0A)"
  by (simp_all add: is_digit_def)

lemma parse_udec_isdigit: "isdigit s \<Longrightarrow> parse_udec s = Some (nat_of_digits s)"
  by (simp add: parse_udec_def split_on_id isdigit_not_mem)

lemma strip_no_space: "\<forall>c \<in> set s. \<not> is_space c \<Longrightarrow> strip s = s"
proof -
  assume a: "\<forall>c \<in> set s. \<not> is_space c"
  have "dropWhile is_space xs = xs" if "\<forall>c \<in> set xs. \<not> is_space c" for xs
    using that by (cases xs) auto
  from this [of s] this [of "rev s"] a show ?thesis by (simp add: strip_def)
qed

lemma strip_isdigit: "isdigit s \<Longrightarrow> strip s = s"
  by (rule strip_no_space) (auto simp: isdigit_def is_digit_not_space)

lemma py_int_isdigit: "isdigit s \<Longrightarrow> py_int s = Inr (int (nat_of_digits s))"
proof -
  assume s: "isdigit s"
  then obtain c cs where cs: "s = c # cs" by (cases s) (auto simp: isdigit_def)
  with s have "c \<noteq> CHR ''-''" "c \<noteq> CHR ''+''"
    by (auto simp: isdigit_def)
  with s cs show ?thesis
    by (simp add: py_int_def strip_isdigit parse_udec_isdigit)
qed

lemma py_int_dec_nat [simp]: "py_int (dec_nat n) = Inr (int n)"
  by (simp add: py_int_isdigit)

lemma py_int_dec_int: "py_int (dec_int i) = Inr i"
proof (cases "i < 0")
  case True
  have "\<not> is_space (CHR ''-'')" by (simp add: is_space_def)
  moreover have "\<forall>c \<in> set (dec_nat (nat (- i))). \<not> is_space c"
    using isdigit_dec_nat [of "nat (- i)"] by (auto simp: isdigit_def is_digit_not_space)
  ultimately have "strip (dec_int i) = dec_int i"
    using True by (intro strip_no_space) (auto simp: dec_int_def)
  with True show ?thesis
    by (simp add: py_int_def dec_int_def parse_udec_isdigit)
next
  case False
  then show ?thesis by (simp add: dec_int_def)
qed

lemma hex_Nil [simp]: "hex [] = []"
  by (simp add: hex_def)

lemma hex_Cons: "hex (b # bs) = hex_digit (unat b div 16) # hex_digit (unat b mod 16) # hex bs"
  by (simp add: hex_def hex_byte_def)

lemma length_hex [simp]: "length (hex bs) = 2 * length bs"
  by (induction bs) (auto simp: hex_Cons)

lemma hex_append: "hex (xs @ ys) = hex xs @ hex ys"
  by (simp add: hex_def)

lemma take_hex: "take (2 * n) (hex bs) = hex (take n bs)"
proof (induction n arbitrary: bs)
  case 0
  then show ?case by simp
next
  case (Suc n)
  then show ?case by (cases bs) (auto simp: hex_Cons)
qed

lemma hex_val_hex_digit [simp]: "d < 16 \<Longrightarrow> hex_val (hex_digit d) = Some d"
  by (auto simp: hex_val_def hex_digit_def Let_def)

lemma hex_digit_not_space [simp]: "d < 16 \<Longrightarrow> \<not> is_ascii_space (hex_digit d)"
  by (auto simp: hex_digit_def is_ascii_space_def Let_def)

lemma fromhex_hex [simp]: "fromhex (hex bs) = Inr bs"
proof (induction bs)
  case Nil
  then show ?case by simp
next
  case (Cons b bs)
  have "unat b div 16 < 16" using unat_byte_less [of b] by (simp add: less_mult_imp_div_less)
  moreover have "16 * (unat b div 16) + unat b mod 16 = unat b" by simp
  ultimately show ?case
    using Cons by (simp add: hex_Cons)
qed

lemma hex_inject [simp]: "hex xs = hex ys \<longleftrightarrow> xs = ys"
  by (metis fromhex_hex sum.inject(2))

end
