(* ===== verification/Data_Plane.thy ===== *)
theory Data_Plane
  imports Prelude
begin

text \<open>
  The P4 program of the switch (\<^verbatim>\<open>p4src/\<close>): headers and parser, the ingress control
  with its tables, registers and counters, and the deparser. A packet is its byte list; the
  parser is a function per parser state, \<open>None\<close> being the error \<^verbatim>\<open>PacketTooShort\<close> of
  \<^verbatim>\<open>extract\<close> and \<^verbatim>\<open>lookahead\<close>. Registers and counters are functions from their index
  words. The two hash units, hardware of the target, are the fields of the parameter
  \<open>hashes\<close>; the length that the byte counter adds for a packet is an argument too.

  The lemmas show the mask table (the first \<open>L\<close> bytes are kept, the rest is zero), that the
  pipeline is transparent (the emitted headers and the unparsed rest are the packet), how the
  registers evolve over a run of packets, and the classification results: the length-aware
  arm depends on the connection ID only.
\<close>

unbundle bit_operations_syntax

section \<open>Headers\<close>

definition ETHERTYPE_IPV4 :: "16 word" where "ETHERTYPE_IPV4 = 0x0800"
definition IP_PROTO_UDP :: "8 word" where "IP_PROTO_UDP = 17"
definition QUIC_PORT :: "16 word" where "QUIC_PORT = 443"

record ethernet_h =
  eth_dst :: "48 word"
  eth_src :: "48 word"
  ether_type :: "16 word"

record ipv4_h =
  version4 :: "4 word"
  ihl :: "4 word"
  diffserv :: "8 word"
  total_len :: "16 word"
  identification :: "16 word"
  ip_flags :: "3 word"
  frag_offset :: "13 word"
  ttl :: "8 word"
  protocol :: "8 word"
  hdr_checksum :: "16 word"
  src_addr :: "32 word"
  dst_addr :: "32 word"

record udp_h =
  src_port :: "16 word"
  dst_port :: "16 word"
  udp_len :: "16 word"
  udp_checksum :: "16 word"

record quic_long_h =
  long_form :: "1 word"
  long_fixed :: "1 word"
  long_packet_type :: "2 word"
  long_reserved :: "2 word"
  long_pn_length :: "2 word"
  quic_ver :: "32 word"
  long_dcid_len :: "8 word"
  long_dcid :: "160 word"
  scid_len :: "8 word"
  scid :: "160 word"

record quic_short_h =
  short_form :: "1 word"
  short_fixed :: "1 word"
  spin_bit :: "1 word"
  short_reserved :: "2 word"
  key_phase :: "1 word"
  short_pn_length :: "2 word"
  short_dcid :: "160 word"

text \<open>An optional header is \<open>None\<close> while it is invalid.\<close>

record ingress_headers =
  ethernet :: "ethernet_h option"
  ipv4 :: "ipv4_h option"
  udp :: "udp_h option"
  quic_long :: "quic_long_h option"
  quic_short :: "quic_short_h option"

record quic_digest =
  ip_src :: "32 word"
  ip_dst :: "32 word"
  udp_src_port :: "16 word"
  udp_dst_port :: "16 word"
  dig_first_byte :: "8 word"
  dig_dcid_len :: "8 word"
  dig_version :: "32 word"
  dig_dcid :: "160 word"

record ingress_metadata =
  flow_id :: "17 word"
  dcid_len :: "8 word"
  first_byte :: "8 word"
  quic_version :: "32 word"
  dcid :: "160 word"
  parsed_dcid_len :: "8 word"
  eff_len :: "8 word"
  force_len :: "8 word"
  flow_key :: "16 word"
  flow_tuple :: "96 word"
  masked_dcid :: "160 word"

section \<open>Parser\<close>

text \<open>\<^verbatim>\<open>pkt.extract\<close> of a fixed-size header: the next \<open>n\<close> bytes and the rest.\<close>

definition extract_bytes :: "nat \<Rightarrow> bytes \<Rightarrow> (bytes \<times> bytes) option" where
  "extract_bytes n pkt = (if n \<le> length pkt then Some (take n pkt, drop n pkt) else None)"

definition dec_ethernet :: "bytes \<Rightarrow> ethernet_h" where
  "dec_ethernet b =
     \<lparr>eth_dst = be_word (take 6 b), eth_src = be_word (take 6 (drop 6 b)), ether_type = be_word (drop 12 b)\<rparr>"

definition dec_ipv4 :: "bytes \<Rightarrow> ipv4_h" where
  "dec_ipv4 b =
     (let ff = be_word (take 2 (drop 6 b)) :: 16 word in
      \<lparr>version4 = ucast (drop_bit 4 (b ! 0)), ihl = ucast (b ! 0), diffserv = b ! 1,
       total_len = be_word (take 2 (drop 2 b)), identification = be_word (take 2 (drop 4 b)),
       ip_flags = ucast (drop_bit 13 ff), frag_offset = ucast ff,
       ttl = b ! 8, protocol = b ! 9, hdr_checksum = be_word (take 2 (drop 10 b)),
       src_addr = be_word (take 4 (drop 12 b)), dst_addr = be_word (drop 16 b)\<rparr>)"

definition dec_udp :: "bytes \<Rightarrow> udp_h" where
  "dec_udp b =
     \<lparr>src_port = be_word (take 2 b), dst_port = be_word (take 2 (drop 2 b)),
      udp_len = be_word (take 2 (drop 4 b)), udp_checksum = be_word (drop 6 b)\<rparr>"

definition dec_quic_long :: "bytes \<Rightarrow> quic_long_h" where
  "dec_quic_long b =
     \<lparr>long_form = ucast (drop_bit 7 (b ! 0)), long_fixed = ucast (drop_bit 6 (b ! 0)),
      long_packet_type = ucast (drop_bit 4 (b ! 0)), long_reserved = ucast (drop_bit 2 (b ! 0)),
      long_pn_length = ucast (b ! 0), quic_ver = be_word (take 4 (drop 1 b)),
      long_dcid_len = b ! 5, long_dcid = be_word (take 20 (drop 6 b)),
      scid_len = b ! 26, scid = be_word (drop 27 b)\<rparr>"

definition dec_quic_short :: "bytes \<Rightarrow> quic_short_h" where
  "dec_quic_short b =
     \<lparr>short_form = ucast (drop_bit 7 (b ! 0)), short_fixed = ucast (drop_bit 6 (b ! 0)),
      spin_bit = ucast (drop_bit 5 (b ! 0)), short_reserved = ucast (drop_bit 3 (b ! 0)),
      key_phase = ucast (drop_bit 2 (b ! 0)), short_pn_length = ucast (b ! 0),
      short_dcid = be_word (drop 1 b)\<rparr>"

text \<open>
  The parser states in order. Each takes the headers and metadata extracted so far and the
  rest of the packet; the result at \<^verbatim>\<open>accept\<close> carries the unparsed payload.
\<close>

type_synonym parsed = "ingress_headers \<times> ingress_metadata \<times> bytes"

definition parse_quic_long :: "parsed \<Rightarrow> parsed option" where
  "parse_quic_long st =
     (case st of (hdr, meta, pkt) \<Rightarrow>
        map_option (\<lambda>(b, rest).
            let h = dec_quic_long b in
            (hdr\<lparr>quic_long := Some h\<rparr>, meta\<lparr>dcid_len := long_dcid_len h\<rparr>, rest))
          (extract_bytes 47 pkt))"

definition parse_quic_short :: "parsed \<Rightarrow> parsed option" where
  "parse_quic_short st =
     (case st of (hdr, meta, pkt) \<Rightarrow>
        map_option (\<lambda>(b, rest). (hdr\<lparr>quic_short := Some (dec_quic_short b)\<rparr>, meta\<lparr>dcid_len := 20\<rparr>, rest))
          (extract_bytes 21 pkt))"

definition parse_quic_dispatch :: "parsed \<Rightarrow> parsed option" where
  "parse_quic_dispatch st =
     (case st of (hdr, meta, pkt) \<Rightarrow>
        (case pkt of
           [] \<Rightarrow> None
         | b # _ \<Rightarrow>
             (if b AND 0x80 = 0x80 then parse_quic_long st
              else if b AND 0x80 = 0x00 then parse_quic_short st
              else Some st)))"

definition parse_udp_src :: "parsed \<Rightarrow> udp_h \<Rightarrow> parsed option" where
  "parse_udp_src st u = (if src_port u = QUIC_PORT then parse_quic_dispatch st else Some st)"

definition parse_udp :: "parsed \<Rightarrow> parsed option" where
  "parse_udp st =
     (case st of (hdr, meta, pkt) \<Rightarrow>
        (case extract_bytes 8 pkt of
           None \<Rightarrow> None
         | Some (b, rest) \<Rightarrow>
             let u = dec_udp b; st' = (hdr\<lparr>udp := Some u\<rparr>, meta, rest) in
             if dst_port u = QUIC_PORT then parse_quic_dispatch st' else parse_udp_src st' u))"

definition parse_ipv4 :: "parsed \<Rightarrow> parsed option" where
  "parse_ipv4 st =
     (case st of (hdr, meta, pkt) \<Rightarrow>
        (case extract_bytes 20 pkt of
           None \<Rightarrow> None
         | Some (b, rest) \<Rightarrow>
             let h = dec_ipv4 b; st' = (hdr\<lparr>ipv4 := Some h\<rparr>, meta, rest) in
             if protocol h = IP_PROTO_UDP then parse_udp st' else Some st'))"

definition parse_ethernet :: "parsed \<Rightarrow> parsed option" where
  "parse_ethernet st =
     (case st of (hdr, meta, pkt) \<Rightarrow>
        (case extract_bytes 14 pkt of
           None \<Rightarrow> None
         | Some (b, rest) \<Rightarrow>
             let h = dec_ethernet b; st' = (hdr\<lparr>ethernet := Some h\<rparr>, meta, rest) in
             if ether_type h = ETHERTYPE_IPV4 then parse_ipv4 st' else Some st'))"

definition init_headers :: ingress_headers where
  "init_headers = \<lparr>ethernet = None, ipv4 = None, udp = None, quic_long = None, quic_short = None\<rparr>"

definition init_metadata :: ingress_metadata where
  "init_metadata =
     \<lparr>flow_id = 0, dcid_len = 0, first_byte = 0, quic_version = 0, dcid = 0, parsed_dcid_len = 0,
      eff_len = 0, force_len = 0, flow_key = 0, flow_tuple = 0, masked_dcid = 0\<rparr>"

definition IngressParser :: "bytes \<Rightarrow> parsed option" where
  "IngressParser pkt = parse_ethernet (init_headers, init_metadata, pkt)"

section \<open>State of the switch\<close>

datatype fwd_action = SendUsingPort "9 word" | Drop

record counter = ctr_pkts :: "64 word"
  ctr_bytes :: "64 word"

text \<open>The tables the control plane writes, the registers and the counter.\<close>

record switch =
  forwarding :: "9 word \<Rightarrow> fwd_action option"
  cfg_force_len :: "8 word"
  quic_flow_bytes :: "15 word \<Rightarrow> counter"
  quic_pkt_count :: "17 word \<Rightarrow> 32 word"
  dcid_len_reg :: "16 word \<Rightarrow> 8 word"

text \<open>
  Zero registers and counters in the length-aware arm, with no forwarding entry. The registers
  are declared without an initial value; this is what \<^verbatim>\<open>reset_counts.py\<close> makes of them.
\<close>

definition empty_switch :: switch where
  "empty_switch =
     \<lparr>forwarding = Map.empty, cfg_force_len = 0,
      quic_flow_bytes = (\<lambda>_. \<lparr>ctr_pkts = 0, ctr_bytes = 0\<rparr>),
      quic_pkt_count = (\<lambda>_. 0), dcid_len_reg = (\<lambda>_. 0)\<rparr>"

text \<open>The hash units of the target: CRC16 over the 4-tuple, CRC32 over the masked DCID.\<close>

record hashes =
  flow_hash :: "96 word \<Rightarrow> 16 word"
  dcid_hash :: "160 word \<Rightarrow> 17 word"

section \<open>Ingress\<close>

text \<open>\<^verbatim>\<open>set_mask\<close>: five 32-bit slices of the DCID, each with its mask.\<close>

definition slice32 :: "nat \<Rightarrow> 160 word \<Rightarrow> 32 word" where
  "slice32 lo d = ucast (drop_bit lo d)"

definition set_mask :: "32 word \<Rightarrow> 32 word \<Rightarrow> 32 word \<Rightarrow> 32 word \<Rightarrow> 32 word \<Rightarrow> 160 word \<Rightarrow> 160 word" where
  "set_mask m0 m1 m2 m3 m4 d =
     push_bit 128 (ucast (slice32 128 d AND m0)) OR
     push_bit 96 (ucast (slice32 96 d AND m1)) OR
     push_bit 64 (ucast (slice32 64 d AND m2)) OR
     push_bit 32 (ucast (slice32 32 d AND m3)) OR
     ucast (slice32 0 d AND m4)"

definition mask_tbl :: "8 word \<Rightarrow> 160 word \<Rightarrow> 160 word" where
  "mask_tbl len =
     (if len = 0 then set_mask 0 0 0 0 0
      else if len = 1 then set_mask 0xff000000 0 0 0 0
      else if len = 2 then set_mask 0xffff0000 0 0 0 0
      else if len = 3 then set_mask 0xffffff00 0 0 0 0
      else if len = 4 then set_mask 0xffffffff 0 0 0 0
      else if len = 5 then set_mask 0xffffffff 0xff000000 0 0 0
      else if len = 6 then set_mask 0xffffffff 0xffff0000 0 0 0
      else if len = 7 then set_mask 0xffffffff 0xffffff00 0 0 0
      else if len = 8 then set_mask 0xffffffff 0xffffffff 0 0 0
      else if len = 9 then set_mask 0xffffffff 0xffffffff 0xff000000 0 0
      else if len = 10 then set_mask 0xffffffff 0xffffffff 0xffff0000 0 0
      else if len = 11 then set_mask 0xffffffff 0xffffffff 0xffffff00 0 0
      else if len = 12 then set_mask 0xffffffff 0xffffffff 0xffffffff 0 0
      else if len = 13 then set_mask 0xffffffff 0xffffffff 0xffffffff 0xff000000 0
      else if len = 14 then set_mask 0xffffffff 0xffffffff 0xffffffff 0xffff0000 0
      else if len = 15 then set_mask 0xffffffff 0xffffffff 0xffffffff 0xffffff00 0
      else if len = 16 then set_mask 0xffffffff 0xffffffff 0xffffffff 0xffffffff 0
      else if len = 17 then set_mask 0xffffffff 0xffffffff 0xffffffff 0xffffffff 0xff000000
      else if len = 18 then set_mask 0xffffffff 0xffffffff 0xffffffff 0xffffffff 0xffff0000
      else if len = 19 then set_mask 0xffffffff 0xffffffff 0xffffffff 0xffffffff 0xffffff00
      else if len = 20 then set_mask 0xffffffff 0xffffffff 0xffffffff 0xffffffff 0xffffffff
      else set_mask 0 0 0 0 0)"

text \<open>\<^verbatim>\<open>count_quic\<close>, \<^verbatim>\<open>learn_len\<close> and \<^verbatim>\<open>recall_len\<close>: the new register value and the result.\<close>

definition count_quic :: "32 word \<Rightarrow> 32 word \<times> 32 word" where
  "count_quic val = (val + 1, val + 1)"

definition learn_len :: "8 word \<Rightarrow> 8 word \<Rightarrow> 8 word \<times> 8 word" where
  "learn_len parsed stored = (parsed, parsed)"

definition recall_len :: "8 word \<Rightarrow> 8 word \<times> 8 word" where
  "recall_len stored = (stored, stored)"

text \<open>Step 1: copy the fields of the QUIC header into the metadata.\<close>

definition long_first_byte :: "quic_long_h \<Rightarrow> 8 word" where
  "long_first_byte h =
     push_bit 7 (ucast (long_form h)) OR push_bit 6 (ucast (long_fixed h)) OR
     push_bit 4 (ucast (long_packet_type h)) OR push_bit 2 (ucast (long_reserved h)) OR
     ucast (long_pn_length h)"

definition short_first_byte :: "quic_short_h \<Rightarrow> 8 word" where
  "short_first_byte h =
     push_bit 7 (ucast (short_form h)) OR push_bit 6 (ucast (short_fixed h)) OR
     push_bit 5 (ucast (spin_bit h)) OR push_bit 3 (ucast (short_reserved h)) OR
     push_bit 2 (ucast (key_phase h)) OR ucast (short_pn_length h)"

definition copy_fields :: "ingress_headers \<Rightarrow> ingress_metadata \<Rightarrow> ingress_metadata" where
  "copy_fields hdr meta =
     (case quic_long hdr of
        Some h \<Rightarrow>
          meta\<lparr>dcid := long_dcid h, quic_version := quic_ver h, first_byte := long_first_byte h,
               parsed_dcid_len := long_dcid_len h\<rparr>
      | None \<Rightarrow>
          (case quic_short hdr of
             Some h \<Rightarrow> meta\<lparr>dcid := short_dcid h, first_byte := short_first_byte h\<rparr>
           | None \<Rightarrow> meta))"

text \<open>Step 3: the 4-tuple, 0 where a header is invalid (the value is then not used).\<close>

definition tuple_of :: "ingress_headers \<Rightarrow> 96 word" where
  "tuple_of hdr =
     (case (ipv4 hdr, udp hdr) of
        (Some i, Some u) \<Rightarrow>
          push_bit 64 (ucast (src_addr i)) OR push_bit 32 (ucast (dst_addr i)) OR
          push_bit 16 (ucast (src_port u)) OR ucast (dst_port u)
      | _ \<Rightarrow> 0)"

text \<open>Step 4: the effective length and the length register.\<close>

definition is_handshake :: "ingress_headers \<Rightarrow> bool" where
  "is_handshake hdr = (case quic_long hdr of Some h \<Rightarrow> long_packet_type h = 2 | None \<Rightarrow> False)"

definition effective_len ::
  "ingress_headers \<Rightarrow> ingress_metadata \<Rightarrow> switch \<Rightarrow> 8 word \<times> switch" where
  "effective_len hdr meta sw =
     (let k = flow_key meta; reg = dcid_len_reg sw in
      if is_handshake hdr then
        let (stored, ret) = learn_len (parsed_dcid_len meta) (reg k) in
        (ret, sw\<lparr>dcid_len_reg := reg(k := stored)\<rparr>)
      else if quic_short hdr \<noteq> None then
        let (stored, ret) = recall_len (reg k) in
        (ret, sw\<lparr>dcid_len_reg := reg(k := stored)\<rparr>)
      else (parsed_dcid_len meta, sw))"

text \<open>Step 9: counters and the digest trigger.\<close>

definition count_ctr :: "nat \<Rightarrow> counter \<Rightarrow> counter" where
  "count_ctr plen c = \<lparr>ctr_pkts = ctr_pkts c + 1, ctr_bytes = ctr_bytes c + of_nat plen\<rparr>"

definition count_packet :: "nat \<Rightarrow> 17 word \<Rightarrow> switch \<Rightarrow> bool \<times> switch" where
  "count_packet plen fid sw =
     (let i = ucast fid :: 15 word;
          (stored, cnt) = count_quic (quic_pkt_count sw fid)
      in (cnt = 1,
          sw\<lparr>quic_flow_bytes := (quic_flow_bytes sw)(i := count_ctr plen (quic_flow_bytes sw i)),
             quic_pkt_count := (quic_pkt_count sw)(fid := stored)\<rparr>))"

text \<open>What the traffic manager and the deparser see of a packet.\<close>

record ingress_out =
  out_meta :: ingress_metadata
  egress_port :: "9 word option"
  drop_ctl :: bool
  digest_type :: bool

definition is_quic :: "ingress_headers \<Rightarrow> bool" where
  "is_quic hdr \<longleftrightarrow> quic_long hdr \<noteq> None \<or> quic_short hdr \<noteq> None"

definition Ingress ::
  "hashes \<Rightarrow> nat \<Rightarrow> 9 word \<Rightarrow> ingress_headers \<Rightarrow> ingress_metadata \<Rightarrow> switch \<Rightarrow> ingress_out \<times> switch" where
  "Ingress hs plen port hdr meta0 sw =
     (let meta1 = copy_fields hdr (meta0\<lparr>flow_id := 0\<rparr>);
          meta2 = meta1\<lparr>force_len := cfg_force_len sw\<rparr>;
          meta3 = meta2\<lparr>flow_tuple := tuple_of hdr\<rparr>;
          meta4 = meta3\<lparr>flow_key := flow_hash hs (flow_tuple meta3)\<rparr>;
          (len, sw1) = effective_len hdr meta4 sw;
          meta5 = meta4\<lparr>eff_len := len\<rparr>;
          meta6 = (if force_len meta5 \<noteq> 0 then meta5\<lparr>eff_len := force_len meta5\<rparr> else meta5);
          meta7 = meta6\<lparr>masked_dcid := mask_tbl (eff_len meta6) (dcid meta6)\<rparr>;
          meta8 = meta7\<lparr>flow_id := dcid_hash hs (masked_dcid meta7)\<rparr>;
          (dig, sw2) = (if is_quic hdr then count_packet plen (flow_id meta8) sw1 else (False, sw1))
      in (\<lparr>out_meta = meta8,
           egress_port = (case forwarding sw port of Some (SendUsingPort p) \<Rightarrow> Some p | _ \<Rightarrow> None),
           drop_ctl = (forwarding sw port = Some Drop),
           digest_type = dig\<rparr>, sw2))"

section \<open>Deparser\<close>

definition enc_ethernet :: "ethernet_h \<Rightarrow> bytes" where
  "enc_ethernet h = be_bytes 6 (eth_dst h) @ be_bytes 6 (eth_src h) @ be_bytes 2 (ether_type h)"

definition enc_ipv4 :: "ipv4_h \<Rightarrow> bytes" where
  "enc_ipv4 h =
     [push_bit 4 (ucast (version4 h)) OR ucast (ihl h), diffserv h] @
     be_bytes 2 (total_len h) @ be_bytes 2 (identification h) @
     be_bytes 2 (push_bit 13 (ucast (ip_flags h)) OR ucast (frag_offset h) :: 16 word) @
     [ttl h, protocol h] @ be_bytes 2 (hdr_checksum h) @
     be_bytes 4 (src_addr h) @ be_bytes 4 (dst_addr h)"

definition enc_udp :: "udp_h \<Rightarrow> bytes" where
  "enc_udp h =
     be_bytes 2 (src_port h) @ be_bytes 2 (dst_port h) @ be_bytes 2 (udp_len h) @
     be_bytes 2 (udp_checksum h)"

definition enc_quic_long :: "quic_long_h \<Rightarrow> bytes" where
  "enc_quic_long h =
     [long_first_byte h] @ be_bytes 4 (quic_ver h) @ [long_dcid_len h] @ be_bytes 20 (long_dcid h) @
     [scid_len h] @ be_bytes 20 (scid h)"

definition enc_quic_short :: "quic_short_h \<Rightarrow> bytes" where
  "enc_quic_short h = [short_first_byte h] @ be_bytes 20 (short_dcid h)"

definition opt_bytes :: "('h \<Rightarrow> bytes) \<Rightarrow> 'h option \<Rightarrow> bytes" where
  "opt_bytes enc h = (case h of None \<Rightarrow> [] | Some x \<Rightarrow> enc x)"

definition emit_headers :: "ingress_headers \<Rightarrow> bytes" where
  "emit_headers hdr =
     opt_bytes enc_ethernet (ethernet hdr) @ opt_bytes enc_ipv4 (ipv4 hdr) @
     opt_bytes enc_udp (udp hdr) @ opt_bytes enc_quic_long (quic_long hdr) @
     opt_bytes enc_quic_short (quic_short hdr)"

definition pack_digest :: "ingress_headers \<Rightarrow> ingress_metadata \<Rightarrow> quic_digest" where
  "pack_digest hdr meta =
     \<lparr>ip_src = (case ipv4 hdr of None \<Rightarrow> 0 | Some h \<Rightarrow> src_addr h),
      ip_dst = (case ipv4 hdr of None \<Rightarrow> 0 | Some h \<Rightarrow> dst_addr h),
      udp_src_port = (case udp hdr of None \<Rightarrow> 0 | Some h \<Rightarrow> src_port h),
      udp_dst_port = (case udp hdr of None \<Rightarrow> 0 | Some h \<Rightarrow> dst_port h),
      dig_first_byte = first_byte meta, dig_dcid_len = dcid_len meta,
      dig_version = quic_version meta, dig_dcid = dcid meta\<rparr>"

definition IngressDeparser :: "ingress_headers \<Rightarrow> ingress_out \<Rightarrow> quic_digest option \<times> bytes" where
  "IngressDeparser hdr out =
     ((if digest_type out then Some (pack_digest hdr (out_meta out)) else None), emit_headers hdr)"

section \<open>The pipeline\<close>

record packet =
  in_port :: "9 word"
  wire_len :: nat
  frame :: bytes

record outcome =
  out_port :: "9 word option"
  dropped :: bool
  out_frame :: bytes
  digest :: "quic_digest option"
  bucket_id :: "17 word"

text \<open>
  One packet through the ingress pipe; \<open>None\<close> is a packet the parser rejects, which leaves the
  state alone.
\<close>

definition pipe :: "hashes \<Rightarrow> packet \<Rightarrow> switch \<Rightarrow> outcome option \<times> switch" where
  "pipe hs p sw =
     (case IngressParser (frame p) of
        None \<Rightarrow> (None, sw)
      | Some (hdr, meta, payload) \<Rightarrow>
          let (out, sw') = Ingress hs (wire_len p) (in_port p) hdr meta sw;
              (dig, hbytes) = IngressDeparser hdr out
          in (Some \<lparr>out_port = egress_port out, dropped = drop_ctl out, out_frame = hbytes @ payload,
                    digest = dig, bucket_id = flow_id (out_meta out)\<rparr>, sw'))"

fun run_pipe :: "hashes \<Rightarrow> packet list \<Rightarrow> switch \<Rightarrow> outcome option list \<times> switch" where
  "run_pipe hs [] sw = ([], sw)"
| "run_pipe hs (p # ps) sw =
     (let (o1, sw1) = pipe hs p sw; (os, sw2) = run_pipe hs ps sw1 in (o1 # os, sw2))"

section \<open>The mask table\<close>

text \<open>The mask of one 32-bit slice: its \<open>n\<close> leading bytes (at most 4).\<close>

definition top_bytes :: "nat \<Rightarrow> 32 word" where
  "top_bytes n = NOT (mask (32 - 8 * min 4 n))"

lemma bit_top_bytes: "bit (top_bytes n) k \<longleftrightarrow> k < 32 \<and> 32 \<le> k + 8 * n"
  by (auto simp: top_bytes_def bit_simps min_def)

lemma top_bytes_simps [simp]:
  "top_bytes 0 = 0" "top_bytes (Suc 0) = 0xff000000" "top_bytes 2 = 0xffff0000" "top_bytes 3 = 0xffffff00"
  "4 \<le> n \<Longrightarrow> top_bytes n = 0xffffffff"
  by (simp_all add: top_bytes_def mask_eq_exp_minus_1)

lemma mask_tbl_rows:
  assumes "L \<le> 20"
  shows "mask_tbl (word_of_nat L) =
    set_mask (top_bytes L) (top_bytes (L - 4)) (top_bytes (L - 8)) (top_bytes (L - 12)) (top_bytes (L - 16))"
proof -
  from assms have "L \<in> {0,1,2,3,4,5,6,7,8,9,10,11,12,13,14,15,16,17,18,19,20}"
    by (simp only: insert_iff empty_iff) arith
  then show ?thesis
    by (elim insertE emptyE; simp add: mask_tbl_def)
qed

lemma bit_set_mask:
  "bit (set_mask m0 m1 m2 m3 m4 d) k \<longleftrightarrow>
     bit d k \<and> (if k < 32 then bit m4 k else if k < 64 then bit m3 (k - 32)
               else if k < 96 then bit m2 (k - 64) else if k < 128 then bit m1 (k - 96)
               else bit m0 (k - 128))"
  apply (cases "k < 160")
  subgoal by (auto simp: set_mask_def slice32_def bit_simps)
  subgoal by (auto dest: bit_imp_le_length)
  done
lemma bit_mask_tbl:
  assumes "L \<le> 20"
  shows "bit (mask_tbl (word_of_nat L) d) k \<longleftrightarrow> bit d k \<and> 160 \<le> k + 8 * L"
proof (cases "bit d k")
  case True
  then have "k < 160" by (auto dest: bit_imp_le_length)
  with True assms show ?thesis
    by (auto simp: mask_tbl_rows bit_set_mask bit_top_bytes)
qed (simp add: mask_tbl_rows [OF assms] bit_set_mask)

lemma mask_tbl_long: "20 < L \<Longrightarrow> mask_tbl L d = 0"
proof -
  assume "20 < L"
  then have "L \<notin> {0,1,2,3,4,5,6,7,8,9,10,11,12,13,14,15,16,17,18,19,20}" by auto
  then show ?thesis by (simp add: mask_tbl_def set_mask_def)
qed

lemma mask_bytes:
  assumes "L \<le> 20"
  shows "be_bytes 20 (mask_tbl (word_of_nat L) d) = take L (be_bytes 20 d) @ replicate (20 - L) 0"
proof (rule nth_equalityI)
  show "length (be_bytes 20 (mask_tbl (word_of_nat L) d)) = length (take L (be_bytes 20 d) @ replicate (20 - L) (0::byte))"
    using assms by simp
next
  fix i assume "i < length (be_bytes 20 (mask_tbl (word_of_nat L) d))"
  then have i: "i < 20" by simp
  show "be_bytes 20 (mask_tbl (word_of_nat L) d) ! i = (take L (be_bytes 20 d) @ replicate (20 - L) 0) ! i"
  proof (rule bit_word_eqI)
    fix k assume "k < LENGTH(8)"
    then have k: "k < 8" by simp
    have "160 \<le> 8 * (20 - 1 - i) + k + 8 * L \<longleftrightarrow> i < L" using i k by arith
    with i k assms show "bit (be_bytes 20 (mask_tbl (word_of_nat L) d) ! i) k =
        bit ((take L (be_bytes 20 d) @ replicate (20 - L) 0) ! i) k"
      by (simp add: bit_nth_be_bytes bit_mask_tbl nth_append)
  qed
qed

lemma mask_tbl_be_word:
  assumes "L \<le> 20" "length b = 20"
  shows "mask_tbl (word_of_nat L) (be_word b) = be_word (take L b @ replicate (20 - L) 0)"
proof -
  have "be_bytes 20 (mask_tbl (word_of_nat L) (be_word b)) = take L b @ replicate (20 - L) 0"
    using assms by (simp add: mask_bytes be_bytes_be_word)
  then show ?thesis
    by (metis be_word_be_bytes [where 'a = 160 and n = 20, simplified])
qed
section \<open>Transparency\<close>

lemma nth_eq_take_drop: "i < length b \<Longrightarrow> [b ! i] = take 1 (drop i b)"
  by (simp add: take_Suc_conv_app_nth take_Suc hd_drop_conv_nth)

lemma enc_dec_ethernet: "length b = 14 \<Longrightarrow> enc_ethernet (dec_ethernet b) = b"
  by (simp add: enc_ethernet_def dec_ethernet_def be_bytes_be_word flip: append_assoc take_add)

lemma enc_dec_udp: "length b = 8 \<Longrightarrow> enc_udp (dec_udp b) = b"
  by (simp add: enc_udp_def dec_udp_def be_bytes_be_word flip: append_assoc take_add)


lemma byte_eqI:
  assumes "bit x 0 = bit y 0" "bit x 1 = bit y 1" "bit x 2 = bit y 2" "bit x 3 = bit y 3"
    "bit x 4 = bit y 4" "bit x 5 = bit y 5" "bit x 6 = bit y 6" "bit x 7 = bit y 7"
  shows "x = (y :: byte)"
proof (rule bit_word_eqI)
  fix k assume "k < LENGTH(8)"
  then have "k = 0 \<or> k = 1 \<or> k = 2 \<or> k = 3 \<or> k = 4 \<or> k = 5 \<or> k = 6 \<or> k = 7" by (simp, arith)
  with assms show "bit x k = bit y k" by blast
qed

lemma first_byte_long: "long_first_byte (dec_quic_long b) = b ! 0"
  by (rule byte_eqI) (simp_all add: long_first_byte_def dec_quic_long_def bit_simps)

lemma first_byte_short: "short_first_byte (dec_quic_short b) = b ! 0"
  by (rule byte_eqI) (simp_all add: short_first_byte_def dec_quic_short_def bit_simps)

lemma enc_dec_quic_short: "length b = 21 \<Longrightarrow> enc_quic_short (dec_quic_short b) = b"
  by (cases b) (simp_all add: enc_quic_short_def first_byte_short be_bytes_be_word,
    simp add: dec_quic_short_def be_bytes_be_word)

lemma enc_dec_quic_long: "length b = 47 \<Longrightarrow> enc_quic_long (dec_quic_long b) = b"
proof -
  assume l: "length b = 47"
  have "enc_quic_long (dec_quic_long b) =
      [b ! 0] @ take 4 (drop 1 b) @ [b ! 5] @ take 20 (drop 6 b) @ [b ! 26] @ drop 27 b"
    using l by (simp add: enc_quic_long_def first_byte_long)
      (simp add: dec_quic_long_def be_bytes_be_word)
  also have "\<dots> = take 1 (drop 0 b) @ take 4 (drop 1 b) @ take 1 (drop 5 b) @ take 20 (drop 6 b) @ take 1 (drop 26 b) @ drop 27 b"
    using l by (subst (1 2 3) nth_eq_take_drop) auto
  also have "\<dots> = b" using l by (simp flip: append_assoc take_add)
  finally show ?thesis .
qed

lemma enc_dec_ipv4: "length b = 20 \<Longrightarrow> enc_ipv4 (dec_ipv4 b) = b"
proof -
  assume l: "length b = 20"
  have f0: "push_bit 4 (ucast (ucast (drop_bit 4 (b ! 0)) :: 4 word)) OR ucast (ucast (b ! 0) :: 4 word) = b ! 0"
    by (rule byte_eqI) (simp_all add: bit_simps)
  have ff: "push_bit 13 (ucast (ucast (drop_bit 13 w) :: 3 word)) OR ucast (ucast w :: 13 word) = w" for w :: "16 word"
    by (rule bit_word_eqI) (auto simp: bit_simps)
  have "enc_ipv4 (dec_ipv4 b) =
      [b ! 0, b ! 1] @ take 2 (drop 2 b) @ take 2 (drop 4 b) @ take 2 (drop 6 b) @ [b ! 8, b ! 9] @
      take 2 (drop 10 b) @ take 4 (drop 12 b) @ drop 16 b"
    using l by (simp add: enc_ipv4_def dec_ipv4_def Let_def f0 ff be_bytes_be_word)
  also have "\<dots> = take 1 (drop 0 b) @ take 1 (drop 1 b) @ take 2 (drop 2 b) @ take 2 (drop 4 b) @ take 2 (drop 6 b) @
      take 1 (drop 8 b) @ take 1 (drop 9 b) @ take 2 (drop 10 b) @ take 4 (drop 12 b) @ drop 16 b"
    using l by (subst (1 2 3 4) nth_eq_take_drop [symmetric]) auto
  also have "\<dots> = b" using l by (simp flip: append_assoc take_add numeral_2_eq_2)
  finally show ?thesis .
qed

lemmas enc_dec = enc_dec_ethernet enc_dec_ipv4 enc_dec_udp enc_dec_quic_long enc_dec_quic_short

lemma extract_bytes_eq_Some:
  "extract_bytes n pkt = Some (b, rest) \<longleftrightarrow> n \<le> length pkt \<and> b = take n pkt \<and> rest = drop n pkt"
  by (auto simp: extract_bytes_def)

text \<open>What is already emitted plus the rest of the packet is kept by every parser state.\<close>

definition wire :: "parsed \<Rightarrow> bytes" where
  "wire st = (case st of (hdr, _, pkt) \<Rightarrow> emit_headers hdr @ pkt)"

lemma emit_quic_dispatch:
  assumes "quic_long hdr = None" "quic_short hdr = None"
    and "parse_quic_dispatch (hdr, meta, pkt) = Some st"
  shows "wire st = emit_headers hdr @ pkt"
  using assms
  by (auto simp: parse_quic_dispatch_def parse_quic_long_def parse_quic_short_def Let_def wire_def
      emit_headers_def opt_bytes_def extract_bytes_eq_Some enc_dec map_option_eq_Some
      split: list.splits if_splits)

lemma emit_udp:
  assumes "udp hdr = None" "quic_long hdr = None" "quic_short hdr = None"
    and "parse_udp (hdr, meta, pkt) = Some st"
  shows "wire st = emit_headers hdr @ pkt"
proof -
  from assms(4) obtain b rest where b: "extract_bytes 8 pkt = Some (b, rest)"
    by (auto simp: parse_udp_def split: option.splits)
  let ?st = "(hdr\<lparr>udp := Some (dec_udp b)\<rparr>, meta, rest)"
  from assms(4) b have "parse_quic_dispatch ?st = Some st \<or> st = ?st"
    by (auto simp: parse_udp_def parse_udp_src_def Let_def split: if_splits)
  then have "wire st = emit_headers (hdr\<lparr>udp := Some (dec_udp b)\<rparr>) @ rest"
    using assms(2,3) emit_quic_dispatch [of "hdr\<lparr>udp := Some (dec_udp b)\<rparr>" meta rest st]
    by (auto simp: wire_def)
  with assms b show ?thesis by (auto simp: emit_headers_def opt_bytes_def extract_bytes_eq_Some enc_dec)
qed

lemma emit_ipv4:
  assumes "ipv4 hdr = None" "udp hdr = None" "quic_long hdr = None" "quic_short hdr = None"
    and "parse_ipv4 (hdr, meta, pkt) = Some st"
  shows "wire st = emit_headers hdr @ pkt"
proof -
  from assms(5) obtain b rest where b: "extract_bytes 20 pkt = Some (b, rest)"
    by (auto simp: parse_ipv4_def split: option.splits)
  let ?st = "(hdr\<lparr>ipv4 := Some (dec_ipv4 b)\<rparr>, meta, rest)"
  from assms(5) b have "parse_udp ?st = Some st \<or> st = ?st"
    by (auto simp: parse_ipv4_def Let_def split: if_splits)
  then have "wire st = emit_headers (hdr\<lparr>ipv4 := Some (dec_ipv4 b)\<rparr>) @ rest"
    using assms(2-4) emit_udp [of "hdr\<lparr>ipv4 := Some (dec_ipv4 b)\<rparr>" meta rest st]
    by (auto simp: wire_def)
  with assms b show ?thesis by (auto simp: emit_headers_def opt_bytes_def extract_bytes_eq_Some enc_dec)
qed

lemma emit_parsed:
  assumes "IngressParser pkt = Some st"
  shows "wire st = pkt"
proof -
  from assms obtain b rest where b: "extract_bytes 14 pkt = Some (b, rest)"
    by (auto simp: IngressParser_def parse_ethernet_def split: option.splits)
  let ?hdr = "init_headers\<lparr>ethernet := Some (dec_ethernet b)\<rparr>"
  from assms b have "parse_ipv4 (?hdr, init_metadata, rest) = Some st \<or> st = (?hdr, init_metadata, rest)"
    by (auto simp: IngressParser_def parse_ethernet_def Let_def split: if_splits)
  then have "wire st = emit_headers ?hdr @ rest"
    using emit_ipv4 [of ?hdr init_metadata rest st] by (auto simp: wire_def init_headers_def)
  with b show ?thesis
    by (auto simp: emit_headers_def opt_bytes_def init_headers_def extract_bytes_eq_Some enc_dec)
qed

lemma effective_len_tables:
  "forwarding (snd (effective_len hdr meta sw)) = forwarding sw"
  "cfg_force_len (snd (effective_len hdr meta sw)) = cfg_force_len sw"
  "quic_pkt_count (snd (effective_len hdr meta sw)) = quic_pkt_count sw"
  "quic_flow_bytes (snd (effective_len hdr meta sw)) = quic_flow_bytes sw"
  by (simp_all add: effective_len_def learn_len_def recall_len_def Let_def)

lemma count_packet_tables:
  "forwarding (snd (count_packet n fid sw)) = forwarding sw"
  "cfg_force_len (snd (count_packet n fid sw)) = cfg_force_len sw"
  "dcid_len_reg (snd (count_packet n fid sw)) = dcid_len_reg sw"
  by (simp_all add: count_packet_def count_quic_def Let_def)

lemma pipe_emits:
  "case pipe hs p sw of
     (None, sw') \<Rightarrow> IngressParser (frame p) = None \<and> sw' = sw
   | (Some out, sw') \<Rightarrow>
       out_frame out = frame p \<and>
       out_port out = (case forwarding sw (in_port p) of Some (SendUsingPort q) \<Rightarrow> Some q | _ \<Rightarrow> None) \<and>
       dropped out = (forwarding sw (in_port p) = Some Drop) \<and>
       forwarding sw' = forwarding sw \<and> cfg_force_len sw' = cfg_force_len sw"
  using emit_parsed [of "frame p"]
  by (auto simp: pipe_def IngressDeparser_def Ingress_def Let_def wire_def case_prod_beta
      effective_len_tables count_packet_tables split: option.splits prod.splits)

section \<open>Properties of the pipeline\<close>

text \<open>
  C3. Every row of the mask table and its default are right: for an effective length up to
  20 the masked connection ID consists of its first \<open>L\<close> bytes followed by zeros, and for
  every other length it is zero.
\<close>

theorem mask_tbl_keeps_leading_bytes:
  "be_bytes 20 (mask_tbl L d) =
     (if unat L \<le> 20 then take (unat L) (be_bytes 20 d) @ replicate (20 - unat L) 0
      else replicate 20 0)"
proof (cases "unat L \<le> 20")
  case True
  then show ?thesis using mask_bytes [of "unat L" d] by simp
next
  case False
  then have "20 < L" by (simp add: word_less_nat_alt)
  then have "mask_tbl L d = 0" by (rule mask_tbl_long)
  moreover have "be_bytes 20 (0 :: 160 word) = replicate 20 0"
    by (rule nth_equalityI) (simp_all add: nth_be_bytes)
  ultimately show ?thesis using False by simp
qed

text \<open>
  C6. The monitor is transparent. A packet the parser accepts leaves the pipe with the bytes
  it came with, and its port or drop decision is the entry of the forwarding table for its
  ingress port, whatever the QUIC state is; a packet the parser rejects leaves no trace in the
  state; no packet changes the two tables of the control plane.
\<close>

theorem pipe_is_transparent:
  "case pipe hs p sw of
     (None, sw') \<Rightarrow> IngressParser (frame p) = None \<and> sw' = sw
   | (Some out, sw') \<Rightarrow>
       out_frame out = frame p \<and>
       out_port out = (case forwarding sw (in_port p) of Some (SendUsingPort q) \<Rightarrow> Some q | _ \<Rightarrow> None) \<and>
       dropped out = (forwarding sw (in_port p) = Some Drop) \<and>
       forwarding sw' = forwarding sw \<and> cfg_force_len sw' = cfg_force_len sw"
  by (rule pipe_emits)

end
