(* ===== verification/Switch_Runs.thy ===== *)
theory Switch_Runs
  imports Data_Plane
begin

text \<open>
  Runs of the switch. A QUIC packet is abstracted to a \<open>view\<close> (4-tuple, kind, wire length and
  bytes of its connection ID); \<open>observe\<close> is what one view does to the state. The refinement
  lemma \<open>run_pipe_state\<close> says that a run of the pipe is the fold of \<open>observe\<close> over the views of
  its packets, and the properties about learned lengths, packet and byte counts and digests are
  proved on that fold.
\<close>

section \<open>The abstract view of a packet\<close>

datatype quic_kind = Handshake | Other_Long | Short

record view =
  v_tuple :: "96 word"
  v_kind :: quic_kind
  v_len :: "8 word"
  v_dcid :: "160 word"

definition quic_view :: "ingress_headers \<Rightarrow> view option" where
  "quic_view hdr =
     (case quic_long hdr of
        Some h \<Rightarrow> Some \<lparr>v_tuple = tuple_of hdr, v_kind = (if long_packet_type h = 2 then Handshake else Other_Long),
                        v_len = long_dcid_len h, v_dcid = long_dcid h\<rparr>
      | None \<Rightarrow> map_option (\<lambda>h. \<lparr>v_tuple = tuple_of hdr, v_kind = Short, v_len = 0, v_dcid = short_dcid h\<rparr>)
                  (quic_short hdr))"

definition packet_view :: "packet \<Rightarrow> view option" where
  "packet_view p = (case IngressParser (frame p) of None \<Rightarrow> None | Some (hdr, _, _) \<Rightarrow> quic_view hdr)"

text \<open>The length and the bucket the switch uses for a view, and the step it makes.\<close>

definition view_len :: "hashes \<Rightarrow> switch \<Rightarrow> view \<Rightarrow> 8 word" where
  "view_len hs sw v =
     (if cfg_force_len sw \<noteq> 0 then cfg_force_len sw
      else if v_kind v = Short then dcid_len_reg sw (flow_hash hs (v_tuple v))
      else v_len v)"

definition view_bucket :: "hashes \<Rightarrow> switch \<Rightarrow> view \<Rightarrow> 17 word" where
  "view_bucket hs sw v = dcid_hash hs (mask_tbl (view_len hs sw v) (v_dcid v))"

definition learn :: "hashes \<Rightarrow> view \<Rightarrow> switch \<Rightarrow> switch" where
  "learn hs v sw =
     (if v_kind v = Handshake
      then sw\<lparr>dcid_len_reg := (dcid_len_reg sw)(flow_hash hs (v_tuple v) := v_len v)\<rparr> else sw)"

definition observe :: "hashes \<Rightarrow> nat \<times> view \<Rightarrow> switch \<Rightarrow> switch" where
  "observe hs e sw = snd (count_packet (fst e) (view_bucket hs sw (snd e)) (learn hs (snd e) sw))"

definition views :: "packet list \<Rightarrow> (nat \<times> view) list" where
  "views ps = List.map_filter (\<lambda>p. map_option (Pair (wire_len p)) (packet_view p)) ps"

section \<open>Refinement\<close>

text \<open>The parser never makes both QUIC headers valid.\<close>

lemma parse_quic_dispatch_excl:
  "parse_quic_dispatch (hdr, meta, pkt) = Some (hdr', meta', rest) \<Longrightarrow>
   quic_long hdr = None \<Longrightarrow> quic_short hdr = None \<Longrightarrow> quic_short hdr' = None \<or> quic_long hdr' = None"
  by (auto simp: parse_quic_dispatch_def parse_quic_long_def parse_quic_short_def Let_def
      extract_bytes_def split: list.splits if_splits)

lemma parser_excl:
  "IngressParser pkt = Some (hdr, meta, rest) \<Longrightarrow> quic_short hdr = None \<or> quic_long hdr = None"
  by (auto simp: IngressParser_def parse_ethernet_def parse_ipv4_def parse_udp_def parse_udp_src_def Let_def
      init_headers_def split: option.splits if_splits dest!: parse_quic_dispatch_excl)

lemma Ingress_not_quic:
  assumes "quic_view hdr = None"
  shows "snd (Ingress hs n port hdr meta sw) = sw"
    and "digest_type (fst (Ingress hs n port hdr meta sw)) = False"
  using assms
  by (auto simp: quic_view_def Ingress_def Let_def is_quic_def is_handshake_def effective_len_def
      split: option.splits)

lemma effective_len_long:
  assumes "quic_long hdr = Some h" "quic_short hdr = None" "quic_view hdr = Some v"
    and "parsed_dcid_len meta = long_dcid_len h" "flow_key meta = flow_hash hs (tuple_of hdr)"
  shows "effective_len hdr meta sw = (v_len v, learn hs v sw)"
  using assms by (auto simp: effective_len_def is_handshake_def learn_len_def learn_def quic_view_def Let_def)

lemma effective_len_short:
  assumes "quic_long hdr = None" "quic_short hdr = Some h" "quic_view hdr = Some v"
    and "flow_key meta = flow_hash hs (tuple_of hdr)"
  shows "effective_len hdr meta sw = (dcid_len_reg sw (flow_hash hs (v_tuple v)), learn hs v sw)"
  using assms by (auto simp: effective_len_def is_handshake_def recall_len_def learn_def quic_view_def Let_def)

lemma count_packet_digest: "fst (count_packet n b sw) \<longleftrightarrow> quic_pkt_count sw b = 0"
  by (simp add: count_packet_def count_quic_def Let_def)

lemma learn_simps [simp]:
  "quic_pkt_count (learn hs v sw) = quic_pkt_count sw"
  "quic_flow_bytes (learn hs v sw) = quic_flow_bytes sw"
  "forwarding (learn hs v sw) = forwarding sw"
  "cfg_force_len (learn hs v sw) = cfg_force_len sw"
  by (simp_all add: learn_def)

lemma Ingress_eq:
  assumes "is_quic hdr" "quic_view hdr = Some v"
    and "effective_len hdr
           (copy_fields hdr (meta\<lparr>flow_id := 0\<rparr>)\<lparr>force_len := cfg_force_len sw, flow_tuple := tuple_of hdr,
              flow_key := flow_hash hs (tuple_of hdr)\<rparr>) sw = (l, learn hs v sw)"
    and "(if cfg_force_len sw \<noteq> 0 then cfg_force_len sw else l) = view_len hs sw v"
    and "dcid (copy_fields hdr (meta\<lparr>flow_id := 0\<rparr>)) = v_dcid v"
  shows "snd (Ingress hs n port hdr meta sw) = observe hs (n, v) sw"
    and "flow_id (out_meta (fst (Ingress hs n port hdr meta sw))) = view_bucket hs sw v"
    and "digest_type (fst (Ingress hs n port hdr meta sw)) \<longleftrightarrow>
           quic_pkt_count sw (view_bucket hs sw v) = 0"
  using assms(1,5) assms(4) [symmetric]
  by (simp_all add: Ingress_def Let_def assms(3) observe_def view_bucket_def count_packet_digest
      split: prod.split if_splits)
    (simp_all add: prod_eq_iff count_packet_digest)

lemma Ingress_quic:
  assumes "quic_view hdr = Some v" "quic_short hdr = None \<or> quic_long hdr = None"
  shows "snd (Ingress hs n port hdr meta sw) = observe hs (n, v) sw"
    and "flow_id (out_meta (fst (Ingress hs n port hdr meta sw))) = view_bucket hs sw v"
    and "digest_type (fst (Ingress hs n port hdr meta sw)) \<longleftrightarrow>
           quic_pkt_count sw (view_bucket hs sw v) = 0"
proof -
  have q: "is_quic hdr" using assms by (auto simp: is_quic_def quic_view_def)
  let ?m = "copy_fields hdr (meta\<lparr>flow_id := 0\<rparr>)"
  let ?m' = "?m\<lparr>force_len := cfg_force_len sw, flow_tuple := tuple_of hdr, flow_key := flow_hash hs (tuple_of hdr)\<rparr>"
  have "\<exists>l. effective_len hdr ?m' sw = (l, learn hs v sw) \<and>
      (if cfg_force_len sw \<noteq> 0 then cfg_force_len sw else l) = view_len hs sw v \<and> dcid ?m = v_dcid v"
  proof (cases "quic_long hdr")
    case None
    then obtain h where h: "quic_short hdr = Some h" "v_kind v = Short" "v_dcid v = short_dcid h"
      using assms(1) by (auto simp: quic_view_def)
    with None assms(1) show ?thesis
      by (simp add: effective_len_short [of _ h] view_len_def copy_fields_def)
  next
    case (Some h)
    then have "quic_short hdr = None" "v_kind v \<noteq> Short" "v_dcid v = long_dcid h"
      using assms by (auto simp: quic_view_def split: if_splits)
    with Some assms(1) show ?thesis
      by (simp add: effective_len_long [of _ h v _ hs] view_len_def copy_fields_def)
  qed
  then obtain l where l: "effective_len hdr ?m' sw = (l, learn hs v sw)"
      "(if cfg_force_len sw \<noteq> 0 then cfg_force_len sw else l) = view_len hs sw v" "dcid ?m = v_dcid v"
    by blast
  show "snd (Ingress hs n port hdr meta sw) = observe hs (n, v) sw"
    and "flow_id (out_meta (fst (Ingress hs n port hdr meta sw))) = view_bucket hs sw v"
    and "digest_type (fst (Ingress hs n port hdr meta sw)) \<longleftrightarrow>
           quic_pkt_count sw (view_bucket hs sw v) = 0"
    by (rule Ingress_eq [OF q assms(1) l])+
qed

lemma pipe_view:
  "snd (pipe hs p sw) = (case packet_view p of None \<Rightarrow> sw | Some v \<Rightarrow> observe hs (wire_len p, v) sw)"
proof (cases "IngressParser (frame p)")
  case None
  then show ?thesis by (simp add: pipe_def packet_view_def)
next
  case (Some st)
  obtain hdr meta rest where st: "st = (hdr, meta, rest)" by (cases st) auto
  have "snd (pipe hs p sw) = snd (Ingress hs (wire_len p) (in_port p) hdr meta sw)"
    using Some st by (simp add: pipe_def IngressDeparser_def split: prod.split)
  then show ?thesis
    using Some st parser_excl [of "frame p" hdr meta rest] Ingress_quic(1) Ingress_not_quic(1)
    by (simp add: packet_view_def split: option.split)
qed

definition reported_digest :: "outcome option \<Rightarrow> quic_digest option" where
  "reported_digest r = (case r of None \<Rightarrow> None | Some out \<Rightarrow> digest out)"

lemma pipe_digest:
  "reported_digest (fst (pipe hs p sw)) \<noteq> None \<longleftrightarrow>
     (\<exists>v. packet_view p = Some v \<and> quic_pkt_count sw (view_bucket hs sw v) = 0)"
proof (cases "IngressParser (frame p)")
  case None
  then show ?thesis by (simp add: pipe_def packet_view_def reported_digest_def)
next
  case (Some st)
  obtain hdr meta rest where st: "st = (hdr, meta, rest)" by (cases st) auto
  have "reported_digest (fst (pipe hs p sw)) \<noteq> None \<longleftrightarrow>
      digest_type (fst (Ingress hs (wire_len p) (in_port p) hdr meta sw))"
    using Some st by (simp add: pipe_def IngressDeparser_def reported_digest_def split: prod.split)
  then show ?thesis
    using Some st parser_excl [of "frame p" hdr meta rest] Ingress_quic(3) Ingress_not_quic(2)
    by (cases "quic_view hdr") (simp_all add: packet_view_def)
qed

lemma pipe_bucket:
  assumes "packet_view p = Some v" "fst (pipe hs p sw) = Some out"
  shows "bucket_id out = view_bucket hs sw v"
proof -
  from assms obtain hdr meta rest where st: "IngressParser (frame p) = Some (hdr, meta, rest)"
    and v: "quic_view hdr = Some v"
    by (auto simp: packet_view_def split: option.splits)
  from assms(2) st have "bucket_id out = flow_id (out_meta (fst (Ingress hs (wire_len p) (in_port p) hdr meta sw)))"
    by (auto simp: pipe_def IngressDeparser_def split: prod.splits)
  then show ?thesis using Ingress_quic(2) [OF v parser_excl [OF st]] by simp
qed

lemma views_simps [simp]:
  "views [] = []"
  "views (p # ps) = (case packet_view p of None \<Rightarrow> views ps | Some v \<Rightarrow> (wire_len p, v) # views ps)"
  by (simp_all add: views_def List.map_filter_def split: option.split)

theorem run_pipe_state: "snd (run_pipe hs ps sw) = fold (observe hs) (views ps) sw"
proof (induction ps arbitrary: sw)
  case (Cons p ps)
  have "snd (run_pipe hs (p # ps) sw) = snd (run_pipe hs ps (snd (pipe hs p sw)))"
    by (simp split: prod.split)
  then show ?case by (simp add: Cons.IH pipe_view split: option.split)
qed simp

section \<open>What a run leaves in the registers\<close>

fun buckets :: "hashes \<Rightarrow> (nat \<times> view) list \<Rightarrow> switch \<Rightarrow> (nat \<times> 17 word) list" where
  "buckets hs [] sw = []"
| "buckets hs (e # es) sw = (fst e, view_bucket hs sw (snd e)) # buckets hs es (observe hs e sw)"

lemma observe_simps [simp]:
  "forwarding (observe hs e sw) = forwarding sw"
  "cfg_force_len (observe hs e sw) = cfg_force_len sw"
  "dcid_len_reg (observe hs e sw) = dcid_len_reg (learn hs (snd e) sw)"
  "quic_pkt_count (observe hs e sw) =
     (quic_pkt_count sw)(view_bucket hs sw (snd e) := quic_pkt_count sw (view_bucket hs sw (snd e)) + 1)"
  "quic_flow_bytes (observe hs e sw) =
     (quic_flow_bytes sw)(ucast (view_bucket hs sw (snd e)) :=
        count_ctr (fst e) (quic_flow_bytes sw (ucast (view_bucket hs sw (snd e)))))"
  by (simp_all add: observe_def learn_def count_packet_def count_quic_def Let_def)

lemma fold_observe_config [simp]: "cfg_force_len (fold (observe hs) es sw) = cfg_force_len sw"
  by (induction es arbitrary: sw) simp_all

lemma fold_observe_count:
  "quic_pkt_count (fold (observe hs) es sw) b =
     quic_pkt_count sw b + of_nat (length [x \<leftarrow> buckets hs es sw. snd x = b])"
  by (induction es arbitrary: sw) (simp_all add: algebra_simps)

lemma fold_observe_bytes:
  "ctr_pkts (quic_flow_bytes (fold (observe hs) es sw) i) =
     ctr_pkts (quic_flow_bytes sw i) + of_nat (length [x \<leftarrow> buckets hs es sw. ucast (snd x) = i])"
  "ctr_bytes (quic_flow_bytes (fold (observe hs) es sw) i) =
     ctr_bytes (quic_flow_bytes sw i) + of_nat (sum_list [fst x. x \<leftarrow> buckets hs es sw, ucast (snd x) = i])"
  by (induction es arbitrary: sw) (simp_all add: algebra_simps count_ctr_def)

definition last_length :: "hashes \<Rightarrow> 16 word \<Rightarrow> (nat \<times> view) list \<Rightarrow> 8 word \<Rightarrow> 8 word" where
  "last_length hs k es l =
     fold (\<lambda>e l. if v_kind (snd e) = Handshake \<and> flow_hash hs (v_tuple (snd e)) = k then v_len (snd e) else l) es l"

lemma fold_observe_length:
  "dcid_len_reg (fold (observe hs) es sw) k = last_length hs k es (dcid_len_reg sw k)"
  unfolding last_length_def
  by (induction es arbitrary: sw) (simp_all add: learn_def)

section \<open>Outcomes of a run\<close>

text \<open>The outcomes of the QUIC packets of a run, each with the length counted for it.\<close>

definition quic_outcomes :: "packet list \<Rightarrow> outcome option list \<Rightarrow> (nat \<times> outcome) list" where
  "quic_outcomes ps os =
     [(wire_len p, out). (p, r) \<leftarrow> zip ps os, packet_view p \<noteq> None, out \<leftarrow> (case r of Some out \<Rightarrow> [out] | None \<Rightarrow> [])]"

lemma quic_outcomes_Nil [simp]: "quic_outcomes [] os = []"
  by (simp add: quic_outcomes_def)

lemma quic_outcomes_Cons [simp]:
  "quic_outcomes (p # ps) (r # os) =
     (case (packet_view p, r) of (Some v, Some out) \<Rightarrow> [(wire_len p, out)] | _ \<Rightarrow> []) @ quic_outcomes ps os"
  by (simp add: quic_outcomes_def split: option.split)

lemma run_pipe_Cons:
  "fst (run_pipe hs (p # ps) sw) = fst (pipe hs p sw) # fst (run_pipe hs ps (snd (pipe hs p sw)))"
  by (simp split: prod.split)

lemma pipe_quic_Some: "packet_view p = Some v \<Longrightarrow> \<exists>out. fst (pipe hs p sw) = Some out"
  by (auto simp: packet_view_def pipe_def split: option.splits prod.splits)

lemma run_pipe_buckets:
  "map (\<lambda>(n, out). (n, bucket_id out)) (quic_outcomes ps (fst (run_pipe hs ps sw))) = buckets hs (views ps) sw"
proof (induction ps arbitrary: sw)
  case (Cons p ps)
  show ?case
  proof (cases "packet_view p")
    case None
    then show ?thesis
      using Cons.IH [of sw] by (simp add: run_pipe_Cons pipe_view del: run_pipe.simps)
  next
    case (Some v)
    then obtain out where out: "fst (pipe hs p sw) = Some out" using pipe_quic_Some by blast
    from Some out have "bucket_id out = view_bucket hs sw v" by (rule pipe_bucket)
    with Some out show ?thesis
      using Cons.IH [of "observe hs (wire_len p, v) sw"]
      by (simp add: run_pipe_Cons pipe_view del: run_pipe.simps)
  qed
qed simp

definition quic_buckets :: "packet list \<Rightarrow> outcome option list \<Rightarrow> 17 word list" where
  "quic_buckets ps os = map (bucket_id \<circ> snd) (quic_outcomes ps os)"

lemma quic_buckets_run: "quic_buckets ps (fst (run_pipe hs ps sw)) = map snd (buckets hs (views ps) sw)"
  by (simp add: quic_buckets_def run_pipe_buckets [symmetric] comp_def case_prod_beta)

lemma length_buckets [simp]: "length (buckets hs es sw) = length es"
  by (induction es arbitrary: sw) simp_all

lemma length_filter_map_snd: "length [x \<leftarrow> xs. P (snd x)] = length (filter P (map snd xs))"
  by (induction xs) simp_all

text \<open>Counting by cell: a partition of the cells partitions the packets.\<close>

lemma length_filter_sum:
  "finite S \<Longrightarrow> length [x \<leftarrow> xs. x \<in> S] = (\<Sum>b\<in>S. length [x \<leftarrow> xs. x = b])"
proof (induction xs)
  case (Cons x xs)
  have "(\<Sum>b\<in>S. if x = b then Suc (length [y \<leftarrow> xs. y = b]) else length [y \<leftarrow> xs. y = b]) =
      (\<Sum>b\<in>S. length [y \<leftarrow> xs. y = b] + (if x = b then 1 else 0))"
    by (rule sum.cong) auto
  also have "\<dots> = (\<Sum>b\<in>S. length [y \<leftarrow> xs. y = b]) + (if x \<in> S then 1 else 0)"
    using Cons.prems by (simp add: sum.distrib)
  finally show ?case using Cons by (auto simp: if_distrib [of length] cong: if_cong)
qed simp

lemma empty_switch_simps [simp]:
  "quic_pkt_count empty_switch b = 0" "dcid_len_reg empty_switch k = 0" "cfg_force_len empty_switch = 0"
  "ctr_pkts (quic_flow_bytes empty_switch i) = 0" "ctr_bytes (quic_flow_bytes empty_switch i) = 0"
  by (simp_all add: empty_switch_def)

lemma run_count_unat:
  assumes "quic_pkt_count sw b = 0" "length es < 2 ^ 32"
  shows "unat (quic_pkt_count (fold (observe hs) es sw) b) = length [x \<leftarrow> map snd (buckets hs es sw). x = b]"
proof -
  have "length [x \<leftarrow> map snd (buckets hs es sw). x = b] \<le> length es"
    using length_filter_le [of "\<lambda>x. x = b" "map snd (buckets hs es sw)"] by simp
  with assms show ?thesis
    by (simp add: fold_observe_count length_filter_map_snd [of "\<lambda>x. x = b"] unat_of_nat del: length_map)
qed

lemma length_views: "length (views ps) \<le> length ps"
  by (induction ps) (auto split: option.split)

lemma card_nonzero_insert:
  fixes f :: "'i::finite \<Rightarrow> 32 word"
  assumes "f b + 1 \<noteq> 0"
  shows "card {x. (f(b := f b + 1)) x \<noteq> 0} = (if f b = 0 then 1 else 0) + card {x. f x \<noteq> 0}"
proof -
  have "{x. (f(b := f b + 1)) x \<noteq> 0} = insert b {x. f x \<noteq> 0}" using assms by auto
  then show ?thesis by (auto simp: card_insert_if)
qed

lemma unat_plus_1:
  fixes w :: "32 word"
  assumes "unat w + Suc n < 2 ^ 32"
  shows "unat (w + 1) = unat w + 1" and "w + 1 \<noteq> 0"
proof -
  have "unat (w + 1) = (unat w + 1) mod 2 ^ 32" by (simp add: unat_word_ariths)
  then show "unat (w + 1) = unat w + 1" using assms by simp
  then show "w + 1 \<noteq> 0" by (metis add_eq_0_iff_both_eq_0 unat_0 zero_neq_one)
qed

lemma run_digests:
  assumes "\<forall>b. unat (quic_pkt_count sw b) + length (views ps) < 2 ^ 32"
  shows "length [r \<leftarrow> fst (run_pipe hs ps sw). reported_digest r \<noteq> None] + card {b. quic_pkt_count sw b \<noteq> 0} =
    card {b. quic_pkt_count (snd (run_pipe hs ps sw)) b \<noteq> 0}"
  using assms
proof (induction ps arbitrary: sw)
  case (Cons p ps)
  let ?sw = "snd (pipe hs p sw)"
  have run: "snd (run_pipe hs (p # ps) sw) = snd (run_pipe hs ps ?sw)" by (simp split: prod.split)
  show ?case
  proof (cases "packet_view p")
    case None
    then have "?sw = sw" "reported_digest (fst (pipe hs p sw)) = None"
      using pipe_digest [of hs p sw] by (simp_all add: pipe_view)
    with None Cons run show ?thesis by (simp add: run_pipe_Cons del: run_pipe.simps)
  next
    case (Some v)
    let ?b = "view_bucket hs sw v"
    from Some have sw: "?sw = observe hs (wire_len p, v) sw" by (simp add: pipe_view)
    from Some Cons.prems have bound: "unat (quic_pkt_count sw b) + Suc (length (views ps)) < 2 ^ 32" for b
      by simp
    have "unat (quic_pkt_count ?sw b) + length (views ps) < 2 ^ 32" for b
      using bound [of b] unat_plus_1(1) [OF bound [of b]] by (auto simp: sw)
    then have "length [r \<leftarrow> fst (run_pipe hs ps ?sw). reported_digest r \<noteq> None] + card {b. quic_pkt_count ?sw b \<noteq> 0} =
        card {b. quic_pkt_count (snd (run_pipe hs ps ?sw)) b \<noteq> 0}"
      by (intro Cons.IH) simp
    moreover have "reported_digest (fst (pipe hs p sw)) \<noteq> None \<longleftrightarrow> quic_pkt_count sw ?b = 0"
      using Some pipe_digest [of hs p sw] by simp
    moreover have "card {b. quic_pkt_count ?sw b \<noteq> 0} =
        (if quic_pkt_count sw ?b = 0 then 1 else 0) + card {b. quic_pkt_count sw b \<noteq> 0}"
      using card_nonzero_insert [of "quic_pkt_count sw" ?b, OF unat_plus_1(2) [OF bound [of ?b]]] by (simp add: sw)
    ultimately show ?thesis by (auto simp: run run_pipe_Cons simp del: run_pipe.simps split: if_splits)
  qed
qed simp

section \<open>Properties of a run\<close>

text \<open>
  C7. Accounting of a run, every word at its width. The packet register of a bucket grows by
  the number of QUIC packets classified into it; cell \<open>i\<close> of the byte counter, which the
  17-bit bucket indexes with its low 15 bits, grows by the packets and the bytes of all
  buckets that share these bits; the length register of a flow key holds the length of the
  last Handshake packet with that key, or what it held before; everything else is unchanged.
\<close>

theorem run_accounts_every_quic_packet:
  fixes hs ps sw
  defines "qs \<equiv> quic_outcomes ps (fst (run_pipe hs ps sw))"
    and "sw' \<equiv> snd (run_pipe hs ps sw)"
  shows "quic_pkt_count sw' b = quic_pkt_count sw b + of_nat (length [q \<leftarrow> qs. bucket_id (snd q) = b])
    \<and> ctr_pkts (quic_flow_bytes sw' i) =
            ctr_pkts (quic_flow_bytes sw i) + of_nat (length [q \<leftarrow> qs. ucast (bucket_id (snd q)) = i])
    \<and> ctr_bytes (quic_flow_bytes sw' i) =
            ctr_bytes (quic_flow_bytes sw i) + of_nat (sum_list [fst q. q \<leftarrow> qs, ucast (bucket_id (snd q)) = i])
    \<and> dcid_len_reg sw' k = last_length hs k (views ps) (dcid_len_reg sw k)
    \<and> cfg_force_len sw' = cfg_force_len sw"
proof (intro conjI)
  have bs: "buckets hs (views ps) sw = map (\<lambda>q. (fst q, bucket_id (snd q))) qs"
    by (simp add: qs_def run_pipe_buckets [symmetric] case_prod_beta)
  have "length [x \<leftarrow> buckets hs (views ps) sw. P (snd x)] = length [q \<leftarrow> qs. P (bucket_id (snd q))]" for P
    by (simp add: bs filter_map comp_def)
  note len = this [of "\<lambda>x. x = b"] this [of "\<lambda>x. ucast x = i"]
  have sum: "[fst x. x \<leftarrow> buckets hs (views ps) sw, ucast (snd x) = i] =
      [fst q. q \<leftarrow> qs, ucast (bucket_id (snd q)) = i]"
    by (simp add: bs comp_def cong: if_cong)
  show "quic_pkt_count sw' b = quic_pkt_count sw b + of_nat (length [q \<leftarrow> qs. bucket_id (snd q) = b])"
    by (simp add: sw'_def run_pipe_state fold_observe_count len)
  show "ctr_pkts (quic_flow_bytes sw' i) =
      ctr_pkts (quic_flow_bytes sw i) + of_nat (length [q \<leftarrow> qs. ucast (bucket_id (snd q)) = i])"
    by (simp add: sw'_def run_pipe_state fold_observe_bytes len)
  show "ctr_bytes (quic_flow_bytes sw' i) =
      ctr_bytes (quic_flow_bytes sw i) + of_nat (sum_list [fst q. q \<leftarrow> qs, ucast (bucket_id (snd q)) = i])"
    by (simp only: sw'_def run_pipe_state fold_observe_bytes sum)
  show "dcid_len_reg sw' k = last_length hs k (views ps) (dcid_len_reg sw k)"
    by (simp add: sw'_def run_pipe_state fold_observe_length)
  show "cfg_force_len sw' = cfg_force_len sw"
    by (simp add: sw'_def run_pipe_state)
qed

text \<open>
  From zero packet registers and byte counters, and as long as no 32-bit register can wrap: one
  digest per occupied bucket, the sum of the packet registers, and the cells of the byte counter.
\<close>

lemma zeroed_run_figures:
  fixes hs ps sw
  defines "res \<equiv> run_pipe hs ps sw"
  assumes len: "length ps < 2 ^ 32"
    and zero: "\<And>b. quic_pkt_count sw b = 0" "\<And>i. ctr_pkts (quic_flow_bytes sw i) = 0"
  shows "length [r \<leftarrow> fst res. reported_digest r \<noteq> None] = card {b. quic_pkt_count (snd res) b \<noteq> 0}"
    and "(\<Sum>b\<in>UNIV. unat (quic_pkt_count (snd res) b)) = length (views ps)"
    and "unat (ctr_pkts (quic_flow_bytes (snd res) i)) = (\<Sum>b | ucast b = i. unat (quic_pkt_count (snd res) b))"
proof -
  let ?bs = "map snd (buckets hs (views ps) sw)"
  have len: "length (views ps) < 2 ^ 32" using len length_views [of ps] by linarith
  then have cnt: "unat (quic_pkt_count (snd res) b) = length [x \<leftarrow> ?bs. x = b]" for b
    by (simp only: res_def run_pipe_state run_count_unat [OF zero(1)])
  show "length [r \<leftarrow> fst res. reported_digest r \<noteq> None] = card {b. quic_pkt_count (snd res) b \<noteq> 0}"
    using run_digests [of sw ps hs] len by (simp add: res_def zero)
  show "(\<Sum>b\<in>UNIV. unat (quic_pkt_count (snd res) b)) = length (views ps)"
    using length_filter_sum [of UNIV ?bs] by (simp add: cnt)
  have "length [x \<leftarrow> ?bs. ucast x = i] \<le> length (views ps)"
    using length_filter_le [of "\<lambda>x. ucast x = i" ?bs] by (simp del: filter_map)
  with len have "length [x \<leftarrow> ?bs. ucast x = i] < 2 ^ 64" by simp
  then have "unat (ctr_pkts (quic_flow_bytes (snd res) i)) = length [x \<leftarrow> ?bs. ucast x = i]"
    by (simp add: res_def run_pipe_state fold_observe_bytes length_filter_map_snd [of "\<lambda>x. ucast x = i"] unat_of_nat zero
        del: length_map filter_map)
  also have "\<dots> = (\<Sum>b | ucast b = i. length [x \<leftarrow> ?bs. x = b])"
    using length_filter_sum [of "{b. ucast b = i}" ?bs] by simp
  finally show "unat (ctr_pkts (quic_flow_bytes (snd res) i)) =
      (\<Sum>b | ucast b = i. unat (quic_pkt_count (snd res) b))"
    by (simp add: cnt)
qed

section \<open>Classification\<close>

lemma run_pipe_snoc:
  "fst (run_pipe hs (ps @ [p]) sw) =
     fst (run_pipe hs ps sw) @ [fst (pipe hs p (snd (run_pipe hs ps sw)))]"
  by (induction ps arbitrary: sw) (simp_all split: prod.split, metis fst_conv snd_conv)

lemma views_append [simp]: "views (ps @ qs) = views ps @ views qs"
  by (induction ps) (simp_all split: option.split)

lemma last_length_append:
  "last_length hs k (es @ fs) l = last_length hs k fs (last_length hs k es l)"
  by (simp add: last_length_def)

lemma last_length_Cons [simp]:
  "last_length hs k (e # es) l =
     last_length hs k es (if v_kind (snd e) = Handshake \<and> flow_hash hs (v_tuple (snd e)) = k then v_len (snd e) else l)"
  by (simp add: last_length_def)

lemma last_length_stable:
  assumes "\<forall>e \<in> set es. v_kind (snd e) = Handshake \<and> flow_hash hs (v_tuple (snd e)) = k \<longrightarrow> v_len (snd e) = l"
  shows "last_length hs k es l = l"
  using assms by (induction es) (auto simp: last_length_def)

lemma mask_tbl_cong:
  assumes "unat L \<le> 20" "take (unat L) (be_bytes 20 d) = take (unat L) (be_bytes 20 d')"
  shows "mask_tbl L d = mask_tbl L d'"
proof -
  have "be_bytes 20 (mask_tbl L d) = be_bytes 20 (mask_tbl L d')"
    using mask_bytes [OF assms(1), of d] mask_bytes [OF assms(1), of d'] assms(2) by simp
  then show ?thesis by (metis be_word_be_bytes [where 'a = 160 and n = 20, simplified])
qed

text \<open>
  C2. The claim of the length-aware design. Once a Handshake packet with a connection ID of
  \<open>L \<le> 20\<close> bytes has been seen on a 4-tuple, every later Short-header packet on that 4-tuple
  that carries the same \<open>L\<close> leading bytes is put into the bucket of the Handshake packet,
  whatever encrypted bytes follow its connection ID and whatever traffic came in between, as
  long as no Handshake packet with the same flow key changed the length.
\<close>

theorem short_header_joins_its_connection:
  assumes "cfg_force_len sw = 0"
    and "packet_view h = Some v" "v_kind v = Handshake" "unat (v_len v) \<le> 20"
    and "\<forall>e \<in> set (views ps). v_kind (snd e) = Handshake \<and>
            flow_hash hs (v_tuple (snd e)) = flow_hash hs (v_tuple v) \<longrightarrow> v_len (snd e) = v_len v"
    and "packet_view p = Some w" "v_kind w = Short" "v_tuple w = v_tuple v"
    and "take (unat (v_len v)) (be_bytes 20 (v_dcid w)) = take (unat (v_len v)) (be_bytes 20 (v_dcid v))"
  shows "\<exists>a b. hd (fst (run_pipe hs (h # ps @ [p]) sw)) = Some a \<and>
               last (fst (run_pipe hs (h # ps @ [p]) sw)) = Some b \<and> bucket_id b = bucket_id a"
proof -
  let ?sw = "snd (run_pipe hs (h # ps) sw)" and ?k = "flow_hash hs (v_tuple v)"
  obtain a where a: "fst (pipe hs h sw) = Some a" using pipe_quic_Some [OF assms(2)] by blast
  obtain b where b: "fst (pipe hs p ?sw) = Some b" using pipe_quic_Some [OF assms(6)] by blast
  have reg: "dcid_len_reg ?sw ?k = v_len v"
    using assms(2,3,5) by (simp only: run_pipe_state fold_observe_length) (simp add: last_length_stable)
  have "cfg_force_len ?sw = 0"
    using assms(1) by (simp only: run_pipe_state fold_observe_config)
  then have "bucket_id b = dcid_hash hs (mask_tbl (v_len v) (v_dcid w))"
    using pipe_bucket [OF assms(6) b] assms(7,8) reg by (simp add: view_bucket_def view_len_def)
  moreover have "bucket_id a = dcid_hash hs (mask_tbl (v_len v) (v_dcid v))"
    using pipe_bucket [OF assms(2) a] assms(1,3) by (simp add: view_bucket_def view_len_def)
  moreover have "mask_tbl (v_len v) (v_dcid w) = mask_tbl (v_len v) (v_dcid v)"
    using mask_tbl_cong [OF assms(4,9)] .
  moreover have "hd (fst (run_pipe hs (h # ps @ [p]) sw)) = Some a" using a by (simp add: run_pipe_Cons del: run_pipe.simps)
  moreover have "last (fst (run_pipe hs (h # ps @ [p]) sw)) = Some b"
    using b run_pipe_snoc [of hs "h # ps" p sw] by (simp del: run_pipe.simps)
  ultimately show ?thesis by simp
qed

text \<open>Sample packets: a Handshake and two Short-header packets with an 8-byte connection ID.\<close>

definition sample_frame :: "bytes \<Rightarrow> bytes" where
  "sample_frame payload =
     [2, 0, 0, 0, 0, 1, 2, 0, 0, 0, 0, 2, 8, 0,
      0x45, 0, 0, 0, 0, 0, 0, 0, 64, 17, 0, 0, 10, 0, 0, 1, 10, 0, 0, 2,
      0xc0, 0, 1, 0xbb, 0, 0, 0, 0] @ payload"

definition sample_hs :: packet where
  "sample_hs = \<lparr>in_port = 1, wire_len = 100,
     frame = sample_frame ([0xe0, 0, 0, 0, 1, 8, 1, 2, 3, 4, 5, 6, 7, 8] @ replicate 33 9)\<rparr>"

definition sample_short :: "byte \<Rightarrow> packet" where
  "sample_short x = \<lparr>in_port = 1, wire_len = 90,
     frame = sample_frame ([0x40, 1, 2, 3, 4, 5, 6, 7, 8] @ replicate 12 x @ [7, 7])\<rparr>"

definition sample_hashes :: hashes where
  "sample_hashes = \<lparr>flow_hash = ucast, dcid_hash = ucast\<rparr>"

lemmas parser_eval =
  IngressParser_def parse_ethernet_def parse_ipv4_def parse_udp_def parse_udp_src_def parse_quic_dispatch_def
  parse_quic_long_def parse_quic_short_def extract_bytes_def dec_ethernet_def dec_ipv4_def dec_udp_def
  dec_quic_long_def dec_quic_short_def ETHERTYPE_IPV4_def IP_PROTO_UDP_def QUIC_PORT_def init_headers_def
  be_word_def Let_def replicate_eval

lemmas sample_defs = sample_hs_def sample_short_def sample_frame_def sample_hashes_def

lemma sample_views:
  "packet_view sample_hs = Some \<lparr>v_tuple = 0x0a0000010a000002c00001bb, v_kind = Handshake, v_len = 8,
     v_dcid = 0x0102030405060708090909090909090909090909\<rparr>"
  "packet_view (sample_short 170) = Some \<lparr>v_tuple = 0x0a0000010a000002c00001bb, v_kind = Short, v_len = 0,
     v_dcid = 0x0102030405060708aaaaaaaaaaaaaaaaaaaaaaaa\<rparr>"
  "packet_view (sample_short 85) = Some \<lparr>v_tuple = 0x0a0000010a000002c00001bb, v_kind = Short, v_len = 0,
     v_dcid = 0x0102030405060708555555555555555555555555\<rparr>"
  by (simp_all add: packet_view_def sample_defs parser_eval quic_view_def tuple_of_def push_bit_eq_mult)

theorem short_header_joins_its_connection_witness:
  "\<exists>a b. hd (fst (run_pipe sample_hashes (sample_hs # [sample_short 85] @ [sample_short 170]) empty_switch)) = Some a \<and>
         last (fst (run_pipe sample_hashes (sample_hs # [sample_short 85] @ [sample_short 170]) empty_switch)) = Some b \<and>
         bucket_id b = bucket_id a"
  by (rule short_header_joins_its_connection [OF _ sample_views(1) _ _ _ sample_views(2)])
    (simp_all add: sample_views be_bytes_def upt_rec drop_bit_eq_div)

lemma mask_tbl_20: "mask_tbl 20 d = d"
  by (rule bit_word_eqI) (use bit_mask_tbl [of 20 d] in simp)

text \<open>
  The naive arm of the experiment. With the forced length 20 the bucket of every QUIC
  packet is the hash of the 20 bytes after the header's fixed part, so it depends on encrypted
  bytes as soon as the connection ID is shorter, and on no register.
\<close>

theorem naive_arm_hashes_20_bytes:
  assumes "cfg_force_len sw = 20" "packet_view p = Some v"
  shows "map_option bucket_id (fst (pipe hs p sw)) = Some (dcid_hash hs (v_dcid v))"
proof -
  obtain a where a: "fst (pipe hs p sw) = Some a" using pipe_quic_Some [OF assms(2)] by blast
  with pipe_bucket [OF assms(2) a] assms(1) show ?thesis
    by (simp add: view_bucket_def view_len_def mask_tbl_20)
qed

theorem naive_arm_hashes_20_bytes_witness:
  "map_option bucket_id (fst (pipe sample_hashes (sample_short 85) (empty_switch\<lparr>cfg_force_len := 20\<rparr>))) =
     Some (ucast (0x0102030405060708555555555555555555555555 :: 160 word))
   \<and> map_option bucket_id (fst (pipe sample_hashes (sample_short 170) (empty_switch\<lparr>cfg_force_len := 20\<rparr>))) =
     Some (ucast (0x0102030405060708aaaaaaaaaaaaaaaaaaaaaaaa :: 160 word))
   \<and> (ucast (0x0102030405060708555555555555555555555555 :: 160 word) :: 17 word) \<noteq>
     ucast (0x0102030405060708aaaaaaaaaaaaaaaaaaaaaaaa :: 160 word)"
  using naive_arm_hashes_20_bytes [OF _ sample_views(2), of "empty_switch\<lparr>cfg_force_len := 20\<rparr>" sample_hashes]
    naive_arm_hashes_20_bytes [OF _ sample_views(3), of "empty_switch\<lparr>cfg_force_len := 20\<rparr>" sample_hashes]
  by (simp add: sample_hashes_def)

end
