(* ===== verification/Bucket_Hash.thy ===== *)
theory Bucket_Hash
  imports Prelude
begin

text \<open>
  The bucket hash. \<^verbatim>\<open>zlib.crc32\<close> (also \<^verbatim>\<open>binascii.crc32\<close>) of Python's
  standard library, bit by bit with the reflected IEEE polynomial, and the functions of the
  repository that turn a connection ID into a 17-bit bucket: \<open>bucket\<close> of
  \<^verbatim>\<open>pcap_buckets.py\<close>, \<open>p4_buckets\<close> of \<^verbatim>\<open>analyze_pcap.py\<close>, \<open>p4_bucket\<close> of
  \<^verbatim>\<open>endpoint_buckets.py\<close> and \<open>cid_to_bucket\<close> of \<^verbatim>\<open>quic_perf_client.py\<close>.
  The lemmas show that they are one function on every legal connection ID (up to 20 bytes),
  that CRC-32 never confuses two inputs that differ inside four consecutive bytes, and state
  the contract \<open>bucket_fn\<close> the accounting components rely on.
\<close>

unbundle bit_operations_syntax

section \<open>CRC-32\<close>

definition crc_poly :: "32 word" where
  "crc_poly = 0xEDB88320"

definition crc_bit :: "32 word \<Rightarrow> 32 word" where
  "crc_bit c = (if bit c 0 then drop_bit 1 c XOR crc_poly else drop_bit 1 c)"

definition crc_byte :: "32 word \<Rightarrow> byte \<Rightarrow> 32 word" where
  "crc_byte c b = (crc_bit ^^ 8) (c XOR ucast b)"

definition crc32 :: "bytes \<Rightarrow> 32 word" where
  "crc32 bs = NOT (foldl crc_byte 0xFFFFFFFF bs)"

section \<open>The bucket functions\<close>

definition BUCKET_BITS :: nat where
  "BUCKET_BITS = 17"

definition PAD_LEN :: nat where
  "PAD_LEN = 20"

definition bucket :: "bytes \<Rightarrow> nat" where
  "bucket dcid_bytes =
     (let b = take PAD_LEN (dcid_bytes @ replicate PAD_LEN 0)
      in unat (crc32 b) AND (push_bit BUCKET_BITS 1 - 1))"

text \<open>\<^verbatim>\<open>b.ljust(n, b'\x00')\<close>: pads on the right, never truncates.\<close>

definition ljust :: "bytes \<Rightarrow> nat \<Rightarrow> bytes" where
  "ljust b n = b @ replicate (n - length b) 0"

definition p4_buckets :: "string \<Rightarrow> nat option \<times> nat option" where
  "p4_buckets dcid_hex =
     (case fromhex dcid_hex of
        Inl _ \<Rightarrow> (None, None)
      | Inr b \<Rightarrow>
          (let padded = ljust b 20; b17 = unat (crc32 padded) AND 0x1FFFF
           in (Some b17, Some (b17 AND 0x3FF))))"

definition p4_bucket :: "string \<Rightarrow> nat result" where
  "p4_bucket dcid_hex =
     bindE (fromhex dcid_hex) (\<lambda>b.
       let b' = take 20 (b @ replicate 20 0)
       in Inr (unat (crc32 b') AND (push_bit 17 1 - 1)))"

definition cid_to_bucket :: "string \<Rightarrow> nat result" where
  "cid_to_bucket cid_hex =
     bindE (fromhex cid_hex) (\<lambda>b. Inr (unat (crc32 (ljust b 20)) AND 0x1FFFF))"

text \<open>The 20 bytes that are hashed for a connection ID.\<close>

definition pad20 :: "bytes \<Rightarrow> bytes" where
  "pad20 c = take 20 (c @ replicate 20 0)"

text \<open>Four little-endian bytes as they enter the CRC register.\<close>

fun le_word :: "bytes \<Rightarrow> 32 word" where
  "le_word [] = 0"
| "le_word (b # bs) = ucast b XOR push_bit 8 (le_word bs)"

section \<open>CRC-32 as a linear register\<close>

lemma xor_right_cancel: "x XOR z = y XOR z \<longleftrightarrow> x = (y :: 'a::len word)"
proof
  assume "x XOR z = y XOR z"
  then have "(x XOR z) XOR z = (y XOR z) XOR z" by simp
  then show "x = y" by (simp add: xor.assoc)
qed simp

lemma crc_bit_xor: "crc_bit (x XOR y) = crc_bit x XOR crc_bit y"
  by (rule bit_word_eqI) (auto simp: crc_bit_def bit_simps)

lemma crc_bit_0 [simp]: "crc_bit 0 = 0"
  by (simp add: crc_bit_def)

lemma crc_bit_eq_0: "crc_bit z = 0 \<Longrightarrow> z = 0"
proof -
  assume z: "crc_bit z = 0"
  show "z = 0"
  proof (cases "bit z 0")
    case True
    with z have "bit (drop_bit 1 z XOR crc_poly) 31 = bit (0 :: 32 word) 31"
      by (simp add: crc_bit_def)
    moreover have "\<not> bit z 32" by (auto dest: bit_imp_le_length)
    ultimately show ?thesis by (simp add: bit_simps crc_poly_def)
  next
    case False
    with z have d: "drop_bit 1 z = 0" by (simp add: crc_bit_def)
    show ?thesis
    proof (rule bit_word_eqI)
      fix n assume "n < LENGTH(32)"
      show "bit z n = bit 0 n"
      proof (cases n)
        case 0
        then show ?thesis using False by simp
      next
        case (Suc m)
        have "bit (drop_bit 1 z) m = bit (0 :: 32 word) m" using d by simp
        then show ?thesis using Suc by (simp add: bit_simps)
      qed
    qed
  qed
qed

lemma funpow_crc_bit_xor: "(crc_bit ^^ n) (x XOR y) = (crc_bit ^^ n) x XOR (crc_bit ^^ n) y"
  by (induction n) (simp_all add: crc_bit_xor)

lemma funpow_crc_bit_inj: "(crc_bit ^^ n) x = (crc_bit ^^ n) y \<longleftrightarrow> x = y"
proof (induction n)
  case 0
  then show ?case by simp
next
  case (Suc n)
  have "crc_bit a = crc_bit b \<longleftrightarrow> a = b" for a b
  proof
    assume "crc_bit a = crc_bit b"
    then have "crc_bit (a XOR b) = 0" by (simp add: crc_bit_xor)
    then have "a XOR b = b XOR b" by (simp add: crc_bit_eq_0)
    then show "a = b" by (simp only: xor_right_cancel)
  qed simp
  with Suc show ?case by simp
qed

lemma funpow_crc_bit_drop:
  "(\<And>k. k < n \<Longrightarrow> \<not> bit y k) \<Longrightarrow> (crc_bit ^^ n) y = drop_bit n y"
proof (induction n)
  case 0
  then show ?case by simp
next
  case (Suc n)
  then have "(crc_bit ^^ n) y = drop_bit n y" and "\<not> bit (drop_bit n y) 0"
    by (simp_all add: bit_simps)
  moreover have "drop_bit 1 (drop_bit n y) = drop_bit (Suc n) y" by simp
  ultimately show ?case by (simp add: crc_bit_def [of "drop_bit n y"] del: drop_bit_drop_bit)
qed

lemma crc_byte_inj_state: "crc_byte c b = crc_byte c' b \<longleftrightarrow> c = c'"
  by (simp add: crc_byte_def funpow_crc_bit_inj xor_right_cancel)

lemma foldl_crc_byte_inj_state: "foldl crc_byte c bs = foldl crc_byte c' bs \<longleftrightarrow> c = c'"
  by (induction bs arbitrary: c c') (simp_all add: crc_byte_inj_state)

lemma bit_le_word: "bit (le_word bs) k \<Longrightarrow> k < 8 * length bs"
proof (induction bs arbitrary: k)
  case Nil
  then show ?case by simp
next
  case (Cons b bs)
  show ?case
  proof (cases "k < 8")
    case True
    then show ?thesis by simp
  next
    case False
    then have "\<not> bit b k" by (auto dest: bit_imp_le_length)
    with Cons.prems False have "bit (le_word bs) (k - 8)" by (auto simp: bit_simps)
    then have "k - 8 < 8 * length bs" by (rule Cons.IH)
    then show ?thesis using False by simp
  qed
qed

lemma crc_byte_xor_window:
  assumes "length bs \<le> 3"
  shows "crc_byte c b XOR le_word bs = (crc_bit ^^ 8) (c XOR le_word (b # bs))"
proof -
  have "drop_bit 8 (push_bit 8 (le_word bs)) = le_word bs"
  proof (rule bit_word_eqI)
    fix k assume "k < LENGTH(32)"
    show "bit (drop_bit 8 (push_bit 8 (le_word bs))) k = bit (le_word bs) k"
      using bit_le_word [of bs k] assms by (auto simp: bit_simps)
  qed
  moreover have "(crc_bit ^^ 8) (push_bit 8 (le_word bs)) = drop_bit 8 (push_bit 8 (le_word bs))"
    by (rule funpow_crc_bit_drop) (simp add: bit_simps)
  ultimately show ?thesis
    by (simp add: crc_byte_def funpow_crc_bit_xor xor.assoc [symmetric])
qed

lemma foldl_crc_byte_window:
  "length bs \<le> 4 \<Longrightarrow> foldl crc_byte c bs = (crc_bit ^^ (8 * length bs)) (c XOR le_word bs)"
proof (induction bs arbitrary: c)
  case Nil
  then show ?case by simp
next
  case (Cons b bs)
  then have "foldl crc_byte c (b # bs) = (crc_bit ^^ (8 * length bs)) (crc_byte c b XOR le_word bs)"
    by simp
  also have "\<dots> = (crc_bit ^^ (8 * length bs)) ((crc_bit ^^ 8) (c XOR le_word (b # bs)))"
    using Cons.prems by (subst crc_byte_xor_window) simp_all
  also have "\<dots> = (crc_bit ^^ (8 * length bs + 8)) (c XOR le_word (b # bs))"
    by (simp only: funpow_add comp_apply)
  also have "8 * length bs + 8 = 8 * length (b # bs)" by simp
  finally show ?case .
qed

lemma le_word_inj:
  "length xs = length ys \<Longrightarrow> length xs \<le> 4 \<Longrightarrow> le_word xs = le_word ys \<Longrightarrow> xs = ys"
proof (induction xs ys rule: list_induct2)
  case Nil
  then show ?case by simp
next
  case (Cons x xs y ys)
  have lo: "bit (le_word (z # zs)) k = bit z k" if "k < 8" for z zs k
    using that by (simp add: bit_simps)
  have hi: "bit (le_word (z # zs)) (k + 8) = (bit (le_word zs) k \<and> k + 8 < 32)" for z zs k
    by (auto simp: bit_simps dest: bit_imp_le_length)
  have "x = y"
  proof (rule bit_word_eqI)
    fix k assume "k < LENGTH(8)"
    then show "bit x k = bit y k"
      using lo [of k x xs] lo [of k y ys] Cons.prems(2) by simp
  qed
  moreover have "le_word xs = le_word ys"
  proof (rule bit_word_eqI)
    fix k assume "k < LENGTH(32)"
    show "bit (le_word xs) k = bit (le_word ys) k"
    proof (cases "k < 24")
      case True
      then show ?thesis using hi [of x xs k] hi [of y ys k] Cons.prems(2) by simp
    next
      case False
      then show ?thesis
        using bit_le_word [of xs k] bit_le_word [of ys k] Cons.hyps Cons.prems(1) by auto
    qed
  qed
  ultimately show ?case using Cons by simp
qed

lemma crc32_prefix_suffix:
  "crc32 (p @ x @ s) = crc32 (p @ y @ s) \<longleftrightarrow>
     foldl crc_byte (foldl crc_byte 0xFFFFFFFF p) x = foldl crc_byte (foldl crc_byte 0xFFFFFFFF p) y"
  by (simp add: crc32_def foldl_crc_byte_inj_state bit.compl_eq_compl_iff)

section \<open>Buckets\<close>

lemma and_mask17: "n AND 0x1FFFF = n mod 2 ^ 17" for n :: nat
  using take_bit_eq_mask [of 17 n] by (simp add: take_bit_eq_mod mask_eq_exp_minus_1)

lemma and_mask10: "n AND 0x3FF = n mod 2 ^ 10" for n :: nat
  using take_bit_eq_mask [of 10 n] by (simp add: take_bit_eq_mod mask_eq_exp_minus_1)

lemma length_pad20 [simp]: "length (pad20 c) = 20"
  by (simp add: pad20_def)

lemma pad20_ljust: "length c \<le> 20 \<Longrightarrow> ljust c 20 = pad20 c"
  by (simp add: pad20_def ljust_def)

lemma bucket_eq: "bucket c = unat (crc32 (pad20 c)) mod 2 ^ 17"
  by (simp add: bucket_def pad20_def PAD_LEN_def BUCKET_BITS_def and_mask17)

lemma bucket_less: "bucket c < 2 ^ 17"
  by (simp add: bucket_eq)

lemma pad20_append_zeros: "length c + k \<le> 20 \<Longrightarrow> pad20 (c @ replicate k 0) = pad20 c"
  by (simp add: pad20_def replicate_add [symmetric])

lemma pad20_idem [simp]: "pad20 (pad20 c) = pad20 c"
  by (simp add: pad20_def)

lemma bucket_pad20 [simp]: "bucket (pad20 c) = bucket c"
  by (simp add: bucket_eq)

text \<open>
  The contract of a bucket function: its range, and that only the padded connection ID
  matters. The clients below are what the accounting relies on: equal connection IDs meet in
  one bucket, and no more than \<open>2 ^ 17\<close> buckets are ever occupied.
\<close>

locale bucket_fn =
  fixes bkt :: "bytes \<Rightarrow> nat"
  assumes bkt_range: "bkt c < 131072"
    and bkt_pad: "length c \<le> 20 \<Longrightarrow> bkt (pad20 c) = bkt c"
begin

lemma bkt_trailing_zeros: "length c + k \<le> 20 \<Longrightarrow> bkt (c @ replicate k 0) = bkt c"
  using bkt_pad [of "c @ replicate k 0"] bkt_pad [of c] by (simp add: pad20_append_zeros)

lemma card_buckets_range: "card (bkt ` C) \<le> 131072"
proof -
  have "bkt ` C \<subseteq> {..<131072}" using bkt_range by auto
  then have "card (bkt ` C) \<le> card {..<131072::nat}" by (rule card_mono [rotated]) simp
  then show ?thesis by simp
qed

lemma card_buckets_le: "finite C \<Longrightarrow> card (bkt ` C) \<le> min (card C) 131072"
  using card_image_le card_buckets_range by simp

end

interpretation pcap: bucket_fn bucket
  by unfold_locales (use bucket_less in simp_all)

section \<open>Evaluating the hash\<close>

lemma crc_byte_unroll:
  "crc_byte c b =
     crc_bit (crc_bit (crc_bit (crc_bit (crc_bit (crc_bit (crc_bit (crc_bit (c XOR ucast b))))))))"
  by (simp add: crc_byte_def eval_nat_numeral)

lemmas crc_eval = crc32_def crc_byte_unroll crc_bit_def crc_poly_def

section \<open>Properties\<close>

text \<open>
  C9. The four bucket functions of the repository compute the same bucket: on the hexadecimal
  form of any legal connection ID (at most 20 bytes) \<open>p4_buckets\<close>, \<open>p4_bucket\<close> and
  \<open>cid_to_bucket\<close> return what \<open>bucket\<close> of the offline analyser returns, and none of them
  raises.
\<close>

theorem bucket_functions_agree:
  assumes "length c \<le> 20"
  shows "p4_buckets (hex c) = (Some (bucket c), Some (bucket c mod 1024))
    \<and> p4_bucket (hex c) = Inr (bucket c)
    \<and> cid_to_bucket (hex c) = Inr (bucket c)"
  using assms
  by (simp add: p4_buckets_def p4_bucket_def cid_to_bucket_def ljust_def pad20_def bucket_eq
      and_mask17 and_mask10 Let_def)

theorem bucket_functions_agree_witness:
  "p4_bucket (hex [0xde, 0xad, 0xbe, 0xef, 0x12, 0x34, 0x56, 0x78]) = Inr 59920"
proof -
  have "bucket [0xde, 0xad, 0xbe, 0xef, 0x12, 0x34, 0x56, 0x78] = 59920"
    by (simp add: bucket_eq pad20_def replicate_eval crc_eval)
  then show ?thesis
    using bucket_functions_agree [of "[0xde, 0xad, 0xbe, 0xef, 0x12, 0x34, 0x56, 0x78]"] by simp
qed

text \<open>
  C16. For connection IDs of the same length of at most four bytes the 32-bit CRC is injective:
  when two different ones meet in one bucket, their CRC values differ in the 15 bits that the
  truncation to 17 bits drops, so such a collision is never one of the CRC itself.
\<close>

theorem short_cid_collision_is_truncation:
  assumes "length x = length y" and "length x \<le> 4" and "x \<noteq> y" and "bucket x = bucket y"
  shows "unat (crc32 (pad20 x)) div 2 ^ 17 \<noteq> unat (crc32 (pad20 y)) div 2 ^ 17"
proof
  assume "unat (crc32 (pad20 x)) div 2 ^ 17 = unat (crc32 (pad20 y)) div 2 ^ 17"
  moreover have "unat (crc32 (pad20 x)) mod 2 ^ 17 = unat (crc32 (pad20 y)) mod 2 ^ 17"
    using assms(4) by (simp add: bucket_eq)
  ultimately have "unat (crc32 (pad20 x)) = unat (crc32 (pad20 y))"
    by (metis div_mult_mod_eq)
  then have "crc32 (pad20 x) = crc32 (pad20 y)"
    by (simp add: word_unat_eq_iff)
  then have "crc32 ([] @ x @ replicate (20 - length x) 0) = crc32 ([] @ y @ replicate (20 - length x) 0)"
    using assms(1,2) by (simp add: pad20_def)
  then have "le_word x = le_word y"
    using assms(1,2) unfolding crc32_prefix_suffix
    by (simp add: foldl_crc_byte_window funpow_crc_bit_inj xor.commute [of "- 1"] xor_right_cancel
        xor.commute [of "0xFFFFFFFF"])
  then have "x = y"
    by (rule le_word_inj [OF assms(1,2)])
  with assms(3) show False ..
qed

theorem short_cid_collision_is_truncation_witness:
  "bucket [0x18, 0x1e] = bucket [0x20, 0x00]
    \<and> unat (crc32 (pad20 [0x18, 0x1e])) div 2 ^ 17 \<noteq> unat (crc32 (pad20 [0x20, 0x00])) div 2 ^ 17"
proof -
  have "bucket [0x18, 0x1e] = 117638" "bucket [0x20, 0x00] = 117638"
    by (simp_all add: bucket_eq pad20_def replicate_eval crc_eval)
  then show ?thesis
    using short_cid_collision_is_truncation [of "[0x18, 0x1e]" "[0x20, 0x00]"] by simp
qed

end
