(* ===== verification/Capture.thy ===== *)
theory Capture
  imports Complex_Main Prelude
begin

text \<open>
  The raw capture reader of \<^verbatim>\<open>pcap_buckets.py\<close>: \<open>udp443_from_ip\<close> and \<open>parse_frame\<close>
  locate the UDP/443 payload in a link-layer frame, \<open>detect\<close> recognises the file format
  and cuts the capture into byte ranges on record boundaries, \<open>iter_range\<close> walks one range.
  The memory map is the list of the file's bytes; \<^verbatim>\<open>struct.error\<close>,
  \<^verbatim>\<open>IndexError\<close> and \<^verbatim>\<open>sys.exit\<close> are error results. The split thresholds
  (\<^verbatim>\<open>target\<close>, \<^verbatim>\<open>nextt\<close>), floats in the code, are rationals; the lemmas on the
  scan hold for all their values.

  The contract \<open>record_walk\<close> states what a reader of either format does with one record;
  its lemmas show once that cutting a walk at record boundaries loses and repeats nothing.
\<close>

unbundle bit_operations_syntax

section \<open>Frames\<close>

definition PREFIX :: nat where
  "PREFIX = 32"

definition LT_ETHER :: nat where "LT_ETHER = 1"
definition LT_RAW :: nat where "LT_RAW = 101"
definition LT_SLL :: nat where "LT_SLL = 113"
definition LT_RAW2 :: nat where "LT_RAW2 = 12"
definition LT_RAW3 :: nat where "LT_RAW3 = 14"

text \<open>\<open>(src, dst, sport, dport, payload prefix)\<close>\<close>

type_synonym tuple4 = "bytes \<times> bytes \<times> nat \<times> nat"
type_synonym row = "bytes \<times> bytes \<times> nat \<times> nat \<times> bytes"

definition u16_at :: "bytes \<Rightarrow> nat \<Rightarrow> nat result" where
  "u16_at buf i = bindE (byte_at buf i) (\<lambda>a. bindE (byte_at buf (i + 1)) (\<lambda>b. Inr (be16 a b)))"

definition udp443_from_ip :: "bytes \<Rightarrow> nat \<Rightarrow> row option result" where
  "udp443_from_ip buf off =
     (if off + 20 > length buf then Inr None
      else bindE (byte_at buf off) (\<lambda>vihl.
        if drop_bit 4 vihl \<noteq> 4 then Inr None
        else let ihl = (vihl AND 0x0F) * 4 in
          bindE (byte_at buf (off + 9)) (\<lambda>proto.
            if proto \<noteq> 17 then Inr None
            else let src = py_slice buf (off + 12) (off + 16);
                     dst = py_slice buf (off + 16) (off + 20);
                     uoff = off + ihl in
              if uoff + 8 > length buf then Inr None
              else bindE (u16_at buf uoff) (\<lambda>sport.
                bindE (u16_at buf (uoff + 2)) (\<lambda>dport.
                  if sport \<noteq> 443 \<and> dport \<noteq> 443 then Inr None
                  else let poff = uoff + 8 in
                    Inr (Some (src, dst, sport, dport, py_slice buf poff (poff + PREFIX))))))))"

text \<open>The VLAN loop of \<^verbatim>\<open>_parse_frame\<close>: \<open>None\<close> is its early return.\<close>

lemma bindE_cong [fundef_cong]:
  "m = m' \<Longrightarrow> (\<And>x. m' = Inr x \<Longrightarrow> f x = g x) \<Longrightarrow> bindE m f = bindE m' g"
  by (cases m') auto

function strip_vlan :: "bytes \<Rightarrow> nat \<Rightarrow> nat \<Rightarrow> nat \<Rightarrow> (nat \<times> nat) option result" where
  "strip_vlan buf stop et l3 =
     (if et = 0x8100 \<or> et = 0x88A8 then
        (if l3 + 4 > stop then Inr None
         else bindE (u16_at buf (l3 + 2)) (\<lambda>et'. strip_vlan buf stop et' (l3 + 4)))
      else Inr (Some (et, l3)))"
  by pat_completeness auto
termination
  by (relation "measure (\<lambda>(buf, stop, et, l3). stop - l3)") auto

definition parse_frame :: "bytes \<Rightarrow> nat \<Rightarrow> nat \<Rightarrow> nat \<Rightarrow> row option result" where
  "parse_frame buf off stop linktype =
     (if linktype = LT_ETHER then
        (if off + 14 > stop then Inr None
         else bindE (u16_at buf (off + 12)) (\<lambda>et.
           bindE (strip_vlan buf stop et (off + 14)) (\<lambda>r.
             case r of
               None \<Rightarrow> Inr None
             | Some (et', l3) \<Rightarrow> if et' \<noteq> 0x0800 then Inr None else udp443_from_ip buf l3)))
      else if linktype = LT_SLL then
        (if off + 16 > stop then Inr None
         else bindE (u16_at buf (off + 14)) (\<lambda>proto.
           if proto \<noteq> 0x0800 then Inr None else udp443_from_ip buf (off + 16)))
      else if linktype = LT_RAW \<or> linktype = LT_RAW2 \<or> linktype = LT_RAW3 then
        udp443_from_ip buf off
      else Inr None)"

section \<open>Captures\<close>

datatype endian = Little | Big

datatype fmt = Pcap endian nat | Pcapng endian "nat list"

definition endian_nat :: "endian \<Rightarrow> bytes \<Rightarrow> nat" where
  "endian_nat e bs = (case e of Little \<Rightarrow> le_nat bs | Big \<Rightarrow> be_nat bs)"

text \<open>\<^verbatim>\<open>struct.unpack_from(end + "I", mm, off)[0]\<close> and the 16-bit \<^verbatim>\<open>"H"\<close>.\<close>

definition unpack_I :: "endian \<Rightarrow> bytes \<Rightarrow> nat \<Rightarrow> nat result" where
  "unpack_I e mm off =
     (if off + 4 \<le> length mm then Inr (endian_nat e (py_slice mm off (off + 4))) else Inl StructError)"

definition unpack_H :: "endian \<Rightarrow> bytes \<Rightarrow> nat \<Rightarrow> nat result" where
  "unpack_H e mm off =
     (if off + 2 \<le> length mm then Inr (endian_nat e (py_slice mm off (off + 2))) else Inl StructError)"

text \<open>\<^verbatim>\<open>rec.unpack_from(mm, n)[2]\<close> for a record header \<^verbatim>\<open>"IIII"\<close>.\<close>

definition rec_incl :: "endian \<Rightarrow> bytes \<Rightarrow> nat \<Rightarrow> nat result" where
  "rec_incl e mm n =
     (if n + 16 \<le> length mm then Inr (endian_nat e (py_slice mm (n + 8) (n + 12))) else Inl StructError)"

text \<open>One threshold step of the scan: append a split when the threshold is passed.\<close>

definition add_split :: "nat \<Rightarrow> rat \<Rightarrow> nat \<Rightarrow> rat \<times> nat list \<Rightarrow> rat \<times> nat list" where
  "add_split njobs target n st =
     (case st of (nextt, splits) \<Rightarrow>
        if of_nat n \<ge> nextt \<and> length splits < njobs
        then (nextt + target, splits @ [n]) else (nextt, splits))"

function scan_pcap :: "endian \<Rightarrow> bytes \<Rightarrow> nat \<Rightarrow> rat \<Rightarrow> nat \<Rightarrow> rat \<times> nat list \<Rightarrow> nat list result" where
  "scan_pcap e mm njobs target n st =
     (if n + 16 \<le> length mm then
        bindE (rec_incl e mm n) (\<lambda>incl.
          if n + 16 + incl > length mm then Inr (snd st)
          else scan_pcap e mm njobs target (n + 16 + incl) (add_split njobs target n st))
      else Inr (snd st))"
  by pat_completeness auto
termination
  by (relation "measure (\<lambda>(e, mm, njobs, target, n, st). length mm - n)") auto

function scan_pcapng ::
  "endian \<Rightarrow> bytes \<Rightarrow> nat \<Rightarrow> rat \<Rightarrow> nat \<Rightarrow> nat list \<Rightarrow> rat \<times> nat list \<Rightarrow> (nat list \<times> nat list) result" where
  "scan_pcapng e mm njobs target n iface_lt st =
     (if n + 12 \<le> length mm then
        bindE (unpack_I e mm n) (\<lambda>btype.
          bindE (unpack_I e mm (n + 4)) (\<lambda>blen.
            if blen < 12 \<or> n + blen > length mm then Inr (iface_lt, snd st)
            else bindE (if btype = 1 then mapE (\<lambda>lt. iface_lt @ [lt]) (unpack_H e mm (n + 8))
                        else Inr iface_lt) (\<lambda>iface_lt'.
              scan_pcapng e mm njobs target (n + blen) iface_lt' (add_split njobs target n st))))
      else Inr (iface_lt, snd st))"
  by pat_completeness auto
termination
  by (relation "measure (\<lambda>(e, mm, njobs, target, n, iface_lt, st). length mm - n)") auto

definition detect :: "bytes \<Rightarrow> nat \<Rightarrow> (fmt \<times> nat list) result" where
  "detect mm njobs =
     (if mm = [] then Inl ValueError
      else let total = length mm in
        if take 4 mm = [0x0a, 0x0d, 0x0d, 0x0a] then
          bindE (unpack_I Little mm 8) (\<lambda>bom.
            bindE (if bom = 0x1A2B3C4D then Inr Little
                   else bindE (unpack_I Big mm 8) (\<lambda>bom'.
                     if bom' = 0x1A2B3C4D then Inr Big
                     else Inl (SysExit ''pcapng: bad byte-order magic''))) (\<lambda>e.
              let target = of_nat total / of_nat njobs in
              mapE (\<lambda>(iface_lt, splits). (Pcapng e iface_lt, splits @ [total]))
                (scan_pcapng e mm njobs target 0 [] (target, [0]))))
        else
          let magic = take 4 mm in
          bindE (if magic = [0xd4, 0xc3, 0xb2, 0xa1] \<or> magic = [0x4d, 0x3c, 0xb2, 0xa1] then Inr Little
                 else if magic = [0xa1, 0xb2, 0xc3, 0xd4] \<or> magic = [0xa1, 0xb2, 0x3c, 0x4d] then Inr Big
                 else Inl (SysExit ''not a recognized pcap/pcapng magic'')) (\<lambda>e.
            bindE (unpack_I e mm 20) (\<lambda>linktype.
              let target = (of_nat total - 24) / of_nat njobs in
              mapE (\<lambda>splits. (Pcap e linktype, splits @ [total]))
                (scan_pcap e mm njobs target 24 (24 + target, [24])))))"

section \<open>Walking a range\<close>

definition opt_cons :: "'a option \<Rightarrow> 'a list \<Rightarrow> 'a list" where
  "opt_cons r rs = (case r of None \<Rightarrow> rs | Some x \<Rightarrow> x # rs)"

function iter_pcap :: "endian \<Rightarrow> nat \<Rightarrow> bytes \<Rightarrow> nat \<Rightarrow> nat \<Rightarrow> row list result" where
  "iter_pcap e linktype mm n stop =
     (if n < stop \<and> n + 16 \<le> length mm then
        bindE (rec_incl e mm n) (\<lambda>incl.
          let d = n + 16 in
          if d + incl > length mm then Inr []
          else bindE (parse_frame mm d (d + incl) linktype) (\<lambda>r.
            mapE (opt_cons r) (iter_pcap e linktype mm (d + incl) stop)))
      else Inr [])"
  by pat_completeness auto
termination
  by (relation "measure (\<lambda>(e, linktype, mm, n, stop). stop - n)") auto

text \<open>The body of one pcapng block: enhanced and simple packet blocks carry a frame.\<close>

definition ng_block :: "endian \<Rightarrow> nat list \<Rightarrow> bytes \<Rightarrow> nat \<Rightarrow> nat \<Rightarrow> nat \<Rightarrow> row option result" where
  "ng_block e iface_lt mm n btype blen =
     (if btype = 6 then
        bindE (unpack_I e mm (n + 8)) (\<lambda>iface.
          bindE (unpack_I e mm (n + 20)) (\<lambda>caplen.
            let poff = n + 28 in
            if poff + caplen \<le> n + blen then
              let lt = (if iface < length iface_lt then iface_lt ! iface else LT_ETHER) in
              parse_frame mm poff (poff + caplen) lt
            else Inr None))
      else if btype = 3 then
        let poff = n + 12;
            lt = (case iface_lt of [] \<Rightarrow> LT_ETHER | l # _ \<Rightarrow> l) in
        parse_frame mm poff (n + blen - 4) lt
      else Inr None)"

function iter_pcapng :: "endian \<Rightarrow> nat list \<Rightarrow> bytes \<Rightarrow> nat \<Rightarrow> nat \<Rightarrow> row list result" where
  "iter_pcapng e iface_lt mm n stop =
     (if n < stop \<and> n + 12 \<le> length mm then
        bindE (unpack_I e mm n) (\<lambda>btype.
          bindE (unpack_I e mm (n + 4)) (\<lambda>blen.
            if blen < 12 \<or> n + blen > length mm then Inr []
            else bindE (ng_block e iface_lt mm n btype blen) (\<lambda>r.
              mapE (opt_cons r) (iter_pcapng e iface_lt mm (n + blen) stop))))
      else Inr [])"
  by pat_completeness auto
termination
  by (relation "measure (\<lambda>(e, iface_lt, mm, n, stop). stop - n)") auto

definition iter_range :: "bytes \<Rightarrow> fmt \<Rightarrow> nat \<Rightarrow> nat \<Rightarrow> row list result" where
  "iter_range mm f start stop =
     (case f of
        Pcap e linktype \<Rightarrow> iter_pcap e linktype mm start stop
      | Pcapng e iface_lt \<Rightarrow> iter_pcapng e iface_lt mm start stop)"

definition rows :: "bytes \<Rightarrow> row list result" where
  "rows mm = bindE (detect mm 1) (\<lambda>(f, splits). iter_range mm f (hd splits) (last splits))"

text \<open>The byte ranges that \<^verbatim>\<open>main\<close> hands to the workers.\<close>

definition ranges :: "nat list \<Rightarrow> (nat \<times> nat) list" where
  "ranges splits = filter (\<lambda>(s, e). e > s) (zip splits (tl splits))"

declare strip_vlan.simps [simp del] scan_pcap.simps [simp del] scan_pcapng.simps [simp del]
  iter_pcap.simps [simp del] iter_pcapng.simps [simp del]

section \<open>No read outside the buffer\<close>

lemma u16_at_Inr [simp]:
  "i + 1 < length buf \<Longrightarrow> u16_at buf i = Inr (be16 (unat (buf ! i)) (unat (buf ! (i + 1))))"
  by (simp add: u16_at_def)

lemma udp443_from_ip_returns: "\<exists>r. udp443_from_ip buf off = Inr r"
  by (simp add: udp443_from_ip_def Let_def)

lemma strip_vlan_returns:
  "stop \<le> length buf \<Longrightarrow> \<exists>r. strip_vlan buf stop et l3 = Inr r"
proof (induction buf stop et l3 rule: strip_vlan.induct)
  case (1 buf stop et l3)
  show ?case
  proof (cases "(et = 0x8100 \<or> et = 0x88A8) \<and> l3 + 4 \<le> stop")
    case True
    then obtain et' where et': "u16_at buf (l3 + 2) = Inr et'"
      using "1.prems" by auto
    with True have "\<exists>r. strip_vlan buf stop et' (l3 + 4) = Inr r"
      using "1.prems" by (intro "1.IH") auto
    with True et' show ?thesis
      by (subst strip_vlan.simps) auto
  next
    case False
    then show ?thesis by (subst strip_vlan.simps) auto
  qed
qed

lemma parse_frame_returns:
  assumes "stop \<le> length buf"
  shows "\<exists>r. parse_frame buf off stop linktype = Inr r"
proof -
  have "\<exists>r. bindE (strip_vlan buf stop et l3) (\<lambda>r. case r of None \<Rightarrow> Inr None
      | Some (et', l3) \<Rightarrow> if et' \<noteq> 0x0800 then Inr None else udp443_from_ip buf l3) = Inr r"
    for et l3
    using strip_vlan_returns [OF assms, of et l3] udp443_from_ip_returns [of buf]
    by (auto split: option.splits)
  then show ?thesis
    using assms udp443_from_ip_returns by (auto simp: parse_frame_def)
qed

section \<open>Walking records\<close>

text \<open>
  What a reader does with one record: \<open>nxt n\<close> is the offset of the record after the one at
  \<open>n\<close> (\<open>None\<close> where the walk ends), \<open>emit n\<close> the rows the record yields, \<open>iter\<close> the
  walk from an offset up to a bound.
\<close>

inductive boundary :: "(nat \<Rightarrow> nat option) \<Rightarrow> nat \<Rightarrow> nat \<Rightarrow> bool" for nxt where
  boundary_here: "boundary nxt n n"
| boundary_step: "nxt n = Some n' \<Longrightarrow> boundary nxt n' m \<Longrightarrow> boundary nxt n m"

inductive_cases boundaryE: "boundary nxt n m"

lemma boundary_trans: "boundary nxt a b \<Longrightarrow> boundary nxt b c \<Longrightarrow> boundary nxt a c"
  by (induction rule: boundary.induct) (auto intro: boundary.intros)

fun chain :: "(nat \<Rightarrow> nat option) \<Rightarrow> nat list \<Rightarrow> bool" where
  "chain nxt [] = True"
| "chain nxt [a] = True"
| "chain nxt (a # b # bs) = (boundary nxt a b \<and> chain nxt (b # bs))"

lemma chain_snoc: "chain nxt (as @ [b]) \<longleftrightarrow> chain nxt as \<and> (as = [] \<or> boundary nxt (last as) b)"
  by (induction nxt as rule: chain.induct) auto

locale record_walk =
  fixes nxt :: "nat \<Rightarrow> nat option"
    and iter :: "nat \<Rightarrow> nat \<Rightarrow> 'r list result"
    and emit :: "nat \<Rightarrow> 'r list result"
  assumes nxt_greater: "nxt n = Some m \<Longrightarrow> n < m"
    and iter_done: "stop \<le> n \<Longrightarrow> iter n stop = Inr []"
    and iter_end: "n < stop \<Longrightarrow> nxt n = None \<Longrightarrow> iter n stop = Inr []"
    and iter_record: "n < stop \<Longrightarrow> nxt n = Some m \<Longrightarrow>
      iter n stop = bindE (emit n) (\<lambda>rs. mapE (\<lambda>rest. rs @ rest) (iter m stop))"
begin

lemma boundary_le: "boundary nxt n m \<Longrightarrow> n \<le> m"
  by (induction rule: boundary.induct) (auto dest: nxt_greater)

lemma iter_split:
  "boundary nxt n m \<Longrightarrow> m \<le> stop \<Longrightarrow>
     iter n stop = bindE (iter n m) (\<lambda>xs. mapE (\<lambda>ys. xs @ ys) (iter m stop))"
proof (induction rule: boundary.induct)
  case (boundary_here n)
  then show ?case by (cases "iter n stop") (simp_all add: iter_done)
next
  case (boundary_step n n' m)
  have lt: "n < m" using nxt_greater [OF boundary_step.hyps(1)] boundary_le [OF boundary_step.hyps(2)] by simp
  with boundary_step show ?case
    by (cases "emit n"; cases "iter n' m"; cases "iter m stop") (simp_all add: iter_record)
qed

text \<open>A chain of boundaries tiles the walk: the shards, in order, give the whole walk.\<close>

lemma iter_chain:
  "chain nxt (a # as) \<Longrightarrow> last (a # as) \<le> stop \<Longrightarrow>
     iter a stop =
       mapE concat (sequenceE (map (\<lambda>(s, e). iter s e) (zip (a # as) (as @ [stop]))))"
proof (induction as arbitrary: a)
  case Nil
  then show ?case by (cases "iter a stop") auto
next
  case (Cons b bs)
  from Cons.prems have bd: "boundary nxt a b" and ch: "chain nxt (b # bs)" and ls: "last (b # bs) \<le> stop"
    by auto
  have "b \<le> last (b # bs)" using ch
  proof (induction bs arbitrary: b)
    case Nil
    then show ?case by simp
  next
    case (Cons c cs)
    then have "b \<le> c" and "c \<le> last (c # cs)" by (auto dest: boundary_le)
    then show ?case by simp
  qed
  with ls have "b \<le> stop" by simp
  from iter_split [OF bd this] Cons.IH [OF ch ls] show ?case
    by (cases "iter a b")
      (auto simp: mapE_mapE o_def intro!: arg_cong2 [of _ _ _ _ mapE])
qed

end

subsection \<open>Both formats are record walks\<close>

definition pcap_next :: "endian \<Rightarrow> bytes \<Rightarrow> nat \<Rightarrow> nat option" where
  "pcap_next e mm n =
     (if n + 16 \<le> length mm then
        let m = n + 16 + endian_nat e (py_slice mm (n + 8) (n + 12)) in
        if m > length mm then None else Some m
      else None)"

definition pcap_emit :: "endian \<Rightarrow> nat \<Rightarrow> bytes \<Rightarrow> nat \<Rightarrow> row list result" where
  "pcap_emit e linktype mm n =
     mapE (\<lambda>r. opt_cons r [])
       (parse_frame mm (n + 16) (n + 16 + endian_nat e (py_slice mm (n + 8) (n + 12))) linktype)"

definition pcapng_next :: "endian \<Rightarrow> bytes \<Rightarrow> nat \<Rightarrow> nat option" where
  "pcapng_next e mm n =
     (if n + 12 \<le> length mm then
        let blen = endian_nat e (py_slice mm (n + 4) (n + 8)) in
        if blen < 12 \<or> n + blen > length mm then None else Some (n + blen)
      else None)"

definition pcapng_emit :: "endian \<Rightarrow> nat list \<Rightarrow> bytes \<Rightarrow> nat \<Rightarrow> row list result" where
  "pcapng_emit e iface_lt mm n =
     mapE (\<lambda>r. opt_cons r [])
       (ng_block e iface_lt mm n (endian_nat e (py_slice mm n (n + 4)))
          (endian_nat e (py_slice mm (n + 4) (n + 8))))"

lemma append_opt_cons [simp]: "(@) (opt_cons r []) = opt_cons r"
  by (auto simp: opt_cons_def fun_eq_iff split: option.splits)

lemma ng_unpacks:
  assumes "n + 12 \<le> length mm"
  shows "unpack_I e mm n = Inr (endian_nat e (py_slice mm n (n + 4)))"
    and "unpack_I e mm (n + 4) = Inr (endian_nat e (py_slice mm (n + 4) (n + 8)))"
proof -
  have "n + 4 + 4 = n + 8" by simp
  then show "unpack_I e mm (n + 4) = Inr (endian_nat e (py_slice mm (n + 4) (n + 8)))"
    using assms unfolding unpack_I_def by presburger
  show "unpack_I e mm n = Inr (endian_nat e (py_slice mm n (n + 4)))"
    using assms by (simp add: unpack_I_def)
qed

interpretation pc: record_walk "pcap_next e mm" "iter_pcap e lt mm" "pcap_emit e lt mm"
  for e lt mm
proof (unfold_locales, goal_cases)
  case (1 n m)
  then show ?case by (auto simp: pcap_next_def Let_def split: if_splits)
next
  case (2 stop n)
  then show ?case by (subst iter_pcap.simps) simp
next
  case (3 n stop)
  then show ?case
    by (subst iter_pcap.simps) (auto simp: pcap_next_def rec_incl_def Let_def split: if_splits)
next
  case (4 n stop m)
  then show ?case
    by (subst iter_pcap.simps)
      (auto simp: pcap_next_def pcap_emit_def rec_incl_def Let_def bindE_mapE
        split: if_splits)
qed

interpretation ng: record_walk "pcapng_next e mm" "iter_pcapng e ifs mm" "pcapng_emit e ifs mm"
  for e ifs mm
proof (unfold_locales, goal_cases)
  case (1 n m)
  then show ?case by (auto simp: pcapng_next_def Let_def split: if_splits)
next
  case (2 stop n)
  then show ?case by (subst iter_pcapng.simps) simp
next
  case (3 n stop)
  then show ?case
    by (subst iter_pcapng.simps) (auto simp: pcapng_next_def ng_unpacks Let_def split: if_splits)
next
  case (4 n stop m)
  then show ?case
    by (subst iter_pcapng.simps)
      (auto simp: pcapng_next_def pcapng_emit_def ng_unpacks Let_def bindE_mapE split: if_splits)
qed

subsection \<open>The scan cuts on record boundaries\<close>

text \<open>
  What the scan keeps: a chain of boundaries whose last element reaches the current offset,
  starting where it started, never longer than the number of jobs allows.
\<close>

definition scan_ok :: "(nat \<Rightarrow> nat option) \<Rightarrow> bytes \<Rightarrow> nat \<Rightarrow> nat \<Rightarrow> nat \<Rightarrow> nat list \<Rightarrow> bool" where
  "scan_ok nxt mm njobs a n splits \<longleftrightarrow>
     splits \<noteq> [] \<and> hd splits = a \<and> chain nxt splits \<and> boundary nxt (last splits) n
       \<and> length splits \<le> max 1 njobs"

lemma scan_ok_add_split:
  assumes "scan_ok nxt mm njobs a n (snd st)" and "nxt n = Some m"
  shows "scan_ok nxt mm njobs a m (snd (add_split njobs target n st))"
proof -
  obtain nextt splits where st: "st = (nextt, splits)" by (cases st)
  have nm: "boundary nxt n m"
    using assms(2) by (auto intro: boundary.intros)
  with assms(1) have lm: "boundary nxt (last splits) m"
    by (auto simp: scan_ok_def st intro: boundary_trans)
  show ?thesis
    using assms(1) nm lm by (auto simp: scan_ok_def st add_split_def chain_snoc)
qed

lemma scan_ok_last_le:
  assumes "scan_ok nxt mm njobs a n splits" and "\<And>n m. nxt n = Some m \<Longrightarrow> n < m" and "n \<le> t"
  shows "last splits \<le> t"
proof -
  have "boundary nxt i j \<Longrightarrow> i \<le> j" for i j
    by (induction rule: boundary.induct) (auto dest: assms(2))
  then have "last splits \<le> n" using assms(1) by (simp add: scan_ok_def)
  with assms(3) show ?thesis by simp
qed

lemma scan_pcap_spec:
  "n \<le> length mm \<Longrightarrow> scan_ok (pcap_next e mm) mm njobs a n (snd st) \<Longrightarrow>
     \<exists>splits m. scan_pcap e mm njobs target n st = Inr splits \<and> m \<le> length mm
       \<and> scan_ok (pcap_next e mm) mm njobs a m splits"
proof (induction e mm njobs target n st rule: scan_pcap.induct)
  case (1 e mm njobs target n st)
  let ?incl = "endian_nat e (py_slice mm (n + 8) (n + 12))"
  show ?case
  proof (cases "n + 16 \<le> length mm \<and> n + 16 + ?incl \<le> length mm")
    case True
    then have "pcap_next e mm n = Some (n + 16 + ?incl)" and incl: "rec_incl e mm n = Inr ?incl"
      by (simp_all add: pcap_next_def Let_def rec_incl_def)
    from scan_ok_add_split [OF "1.prems"(2) this(1)]
    have "\<exists>splits m. scan_pcap e mm njobs target (n + 16 + ?incl) (add_split njobs target n st) = Inr splits
       \<and> m \<le> length mm \<and> scan_ok (pcap_next e mm) mm njobs a m splits"
      using True incl by (intro "1.IH") auto
    with True incl show ?thesis by (subst scan_pcap.simps) simp
  next
    case False
    then have "scan_pcap e mm njobs target n st = Inr (snd st)"
      by (subst scan_pcap.simps) (auto simp: rec_incl_def)
    with "1.prems" show ?thesis by blast
  qed
qed

lemma scan_pcapng_spec:
  "n \<le> length mm \<Longrightarrow> scan_ok (pcapng_next e mm) mm njobs a n (snd st) \<Longrightarrow>
     \<exists>ifs splits m. scan_pcapng e mm njobs target n il st = Inr (ifs, splits) \<and> m \<le> length mm
       \<and> scan_ok (pcapng_next e mm) mm njobs a m splits"
proof (induction e mm njobs target n il st rule: scan_pcapng.induct)
  case (1 e mm njobs target n il st)
  let ?btype = "endian_nat e (py_slice mm n (n + 4))"
  let ?blen = "endian_nat e (py_slice mm (n + 4) (n + 8))"
  show ?case
  proof (cases "n + 12 \<le> length mm \<and> \<not> (?blen < 12 \<or> n + ?blen > length mm)")
    case True
    then have nx: "pcapng_next e mm n = Some (n + ?blen)"
      and u: "unpack_I e mm n = Inr ?btype" "unpack_I e mm (n + 4) = Inr ?blen"
      by (simp_all add: pcapng_next_def Let_def ng_unpacks)
    have "\<exists>il'. (if ?btype = 1 then mapE (\<lambda>lt. il @ [lt]) (unpack_H e mm (n + 8)) else Inr il) = Inr il'"
      using True by (simp add: unpack_H_def)
    then obtain il' where il': "(if ?btype = 1 then mapE (\<lambda>lt. il @ [lt]) (unpack_H e mm (n + 8)) else Inr il) = Inr il'" ..
    from scan_ok_add_split [OF "1.prems"(2) nx]
    have "\<exists>ifs splits m. scan_pcapng e mm njobs target (n + ?blen) il' (add_split njobs target n st) = Inr (ifs, splits)
       \<and> m \<le> length mm \<and> scan_ok (pcapng_next e mm) mm njobs a m splits"
      using True u il' by (intro "1.IH") auto
    with True u il' show ?thesis by (subst scan_pcapng.simps) simp
  next
    case False
    then have "scan_pcapng e mm njobs target n il st = Inr (il, snd st)"
      by (subst scan_pcapng.simps) (auto simp: ng_unpacks)
    with "1.prems" show ?thesis by blast
  qed
qed

text \<open>The interface list does not depend on how the capture is cut.\<close>

lemma scan_pcapng_ifaces:
  "mapE fst (scan_pcapng e mm njobs target n il st) = mapE fst (scan_pcapng e mm njobs' target' n il st')"
proof (induction e mm njobs target n il st arbitrary: st' rule: scan_pcapng.induct)
  case (1 e mm njobs target n il st)
  let ?btype = "endian_nat e (py_slice mm n (n + 4))"
  let ?blen = "endian_nat e (py_slice mm (n + 4) (n + 8))"
  let ?il = "if ?btype = 1 then mapE (\<lambda>lt. il @ [lt]) (unpack_H e mm (n + 8)) else Inr il"
  show ?case
  proof (cases "n + 12 \<le> length mm \<and> \<not> (?blen < 12 \<or> n + ?blen > length mm)")
    case True
    have "mapE fst (scan_pcapng e mm njobs target (n + ?blen) il' (add_split njobs target n st)) =
        mapE fst (scan_pcapng e mm njobs' target' (n + ?blen) il' (add_split njobs' target' n st'))"
      if "?il = Inr il'" for il'
      using True that by (intro "1.IH") (auto simp: ng_unpacks)
    then have "mapE fst (bindE ?il (\<lambda>il'. scan_pcapng e mm njobs target (n + ?blen) il' (add_split njobs target n st)))
      = mapE fst (bindE ?il (\<lambda>il'. scan_pcapng e mm njobs' target' (n + ?blen) il' (add_split njobs' target' n st')))"
      unfolding mapE_bindE by (rule bindE_cong [OF refl])
    then show ?thesis
      using True by (subst (1 2) scan_pcapng.simps) (simp add: ng_unpacks)
  next
    case False
    then show ?thesis
      by (subst (1 2) scan_pcapng.simps) (auto simp: ng_unpacks)
  qed
qed

subsection \<open>Cutting a capture into shards\<close>

lemma sequenceE_ranges:
  fixes f :: "nat \<Rightarrow> nat \<Rightarrow> 'r list result"
  assumes "\<And>s e. e \<le> s \<Longrightarrow> f s e = Inr []"
  shows "mapE concat (sequenceE (map (\<lambda>(s, e). f s e) (filter (\<lambda>(s, e). e > s) ps))) =
    mapE concat (sequenceE (map (\<lambda>(s, e). f s e) ps))"
proof (induction ps)
  case Nil
  then show ?case by simp
next
  case (Cons p ps)
  obtain s e where p: "p = (s, e)" by (cases p)
  let ?short = "sequenceE (map (\<lambda>(s, e). f s e) (filter (\<lambda>(s, e). e > s) ps))"
  let ?long = "sequenceE (map (\<lambda>(s, e). f s e) ps)"
  have "mapE (\<lambda>xs. x @ concat xs) ?short = mapE (\<lambda>xs. x @ concat xs) ?long" for x
  proof -
    have "mapE (\<lambda>xs. x @ concat xs) m = mapE (\<lambda>ys. x @ ys) (mapE concat m)" for m
      by (cases m) auto
    with Cons.IH show ?thesis by simp
  qed
  note ih = this
  show ?case
  proof (cases "e \<le> s")
    case True
    then show ?thesis using assms [of e s] Cons.IH by (simp add: p mapE_mapE o_def)
  next
    case False
    then show ?thesis using ih by (cases "f s e") (simp_all add: p mapE_mapE o_def)
  qed
qed

lemma iter_range_empty: "e \<le> s \<Longrightarrow> iter_range mm f s e = Inr []"
  by (auto simp: iter_range_def pc.iter_done ng.iter_done split: fmt.splits)

definition fmt_next :: "bytes \<Rightarrow> fmt \<Rightarrow> nat \<Rightarrow> nat option" where
  "fmt_next mm f = (case f of Pcap e _ \<Rightarrow> pcap_next e mm | Pcapng e _ \<Rightarrow> pcapng_next e mm)"

definition fmt_start :: "fmt \<Rightarrow> nat" where
  "fmt_start f = (case f of Pcap _ _ \<Rightarrow> 24 | Pcapng _ _ \<Rightarrow> 0)"

lemma iter_range_chain:
  assumes "chain (fmt_next mm f) (a # as)" and "last (a # as) \<le> stop"
  shows "iter_range mm f a stop =
    mapE concat (sequenceE (map (\<lambda>(s, e). iter_range mm f s e) (zip (a # as) (as @ [stop]))))"
  using assms
  by (cases f) (simp_all add: fmt_next_def iter_range_def pc.iter_chain ng.iter_chain)

lemma scan_ok_start: "scan_ok nxt mm njobs a a [a]"
  by (simp add: scan_ok_def boundary_here)

text \<open>Everything \<open>detect\<close> promises about its result.\<close>

lemma detect_spec:
  assumes "detect mm njobs = Inr (f, splits)"
  shows "\<exists>cuts m. splits = cuts @ [length mm] \<and> m \<le> length mm
    \<and> scan_ok (fmt_next mm f) mm njobs (fmt_start f) m cuts"
proof (cases "take 4 mm = [0x0a, 0x0d, 0x0d, 0x0a]")
  case True
  with assms obtain e where
    "mapE (\<lambda>(iface_lt, sp). (Pcapng e iface_lt, sp @ [length mm]))
       (scan_pcapng e mm njobs (of_nat (length mm) / of_nat njobs) 0 []
          (of_nat (length mm) / of_nat njobs, [0])) = Inr (f, splits)"
    by (auto simp: detect_def Let_def bindE_eq_Inr_iff split: if_splits)
  moreover obtain ifs sp m where
    "scan_pcapng e mm njobs (of_nat (length mm) / of_nat njobs) 0 []
       (of_nat (length mm) / of_nat njobs, [0]) = Inr (ifs, sp)"
    and "m \<le> length mm" "scan_ok (pcapng_next e mm) mm njobs 0 m sp"
    using scan_pcapng_spec [of 0 mm e njobs 0 "(of_nat (length mm) / of_nat njobs, [0])"
      "of_nat (length mm) / of_nat njobs" "[]"] scan_ok_start [of "pcapng_next e mm" mm njobs 0]
    by auto
  ultimately show ?thesis by (auto simp: fmt_next_def fmt_start_def intro!: exI [of _ m])
next
  case False
  with assms obtain e lt where lt: "unpack_I e mm 20 = Inr lt" and
    "mapE (\<lambda>sp. (Pcap e lt, sp @ [length mm]))
       (scan_pcap e mm njobs ((of_nat (length mm) - 24) / of_nat njobs) 24
          (24 + (of_nat (length mm) - 24) / of_nat njobs, [24])) = Inr (f, splits)"
    by (auto simp: detect_def Let_def bindE_eq_Inr_iff split: if_splits)
  moreover from lt have "24 \<le> length mm" by (simp add: unpack_I_def split: if_splits)
  moreover from this obtain sp m where
    "scan_pcap e mm njobs ((of_nat (length mm) - 24) / of_nat njobs) 24
       (24 + (of_nat (length mm) - 24) / of_nat njobs, [24]) = Inr sp"
    and "m \<le> length mm" "scan_ok (pcap_next e mm) mm njobs 24 m sp"
    using scan_pcap_spec [of 24 mm e njobs 24 "(24 + (of_nat (length mm) - 24) / of_nat njobs, [24])"
      "(of_nat (length mm) - 24) / of_nat njobs"] scan_ok_start [of "pcap_next e mm" mm njobs 24]
    by auto
  ultimately show ?thesis by (auto simp: fmt_next_def fmt_start_def intro!: exI [of _ m])
qed

lemma detect_fmt: "mapE fst (detect mm njobs) = mapE fst (detect mm njobs')"
proof -
  have ng: "mapE fst (mapE (\<lambda>(iface_lt, sp). (Pcapng e iface_lt, sp @ t))
        (scan_pcapng e mm j x n il st)) =
      mapE (Pcapng e) (mapE fst (scan_pcapng e mm j x n il st))" for e j x n il st t
    by (simp add: mapE_mapE o_def case_prod_beta)
  have pc: "mapE fst (mapE (\<lambda>sp. (Pcap e lt, sp @ t)) (scan_pcap e mm j x 24 (y, [24]))) = Inr (Pcap e lt)"
    if "24 \<le> length mm" for e lt j x y t
    using scan_pcap_spec [of 24 mm e j 24 "(y, [24])" x] scan_ok_start that by auto
  have lt: "24 \<le> length mm" if "unpack_I e mm 20 = Inr lt" for e lt
    using that by (simp add: unpack_I_def split: if_splits)
  let ?t = "\<lambda>j. of_nat (length mm) / of_nat j :: rat"
  have ifs: "mapE fst (scan_pcapng e mm njobs (?t njobs) 0 [] (?t njobs, [0])) =
      mapE fst (scan_pcapng e mm njobs' (?t njobs') 0 [] (?t njobs', [0]))" for e
    by (rule scan_pcapng_ifaces)
  show ?thesis
  proof (cases "take 4 mm = [0x0a, 0x0d, 0x0d, 0x0a]")
    case True
    then show ?thesis by (simp add: detect_def Let_def mapE_bindE ng ifs)
  next
    case False
    then show ?thesis by (simp add: detect_def Let_def mapE_bindE pc lt cong: bindE_cong)
  qed
qed

lemma rows_detect:
  assumes "detect mm njobs = Inr (f, splits)"
  shows "rows mm = iter_range mm f (hd splits) (last splits)"
proof -
  have "mapE fst (detect mm 1) = Inr f"
    using detect_fmt [of mm 1 njobs] assms by simp
  then obtain splits' where d1: "detect mm 1 = Inr (f, splits')"
    by (auto simp: mapE_eq_Inr_iff)
  have "hd sp = fmt_start f \<and> last sp = length mm" if "detect mm j = Inr (f, sp)" for j sp
    using detect_spec [OF that] by (auto simp: scan_ok_def)
  from this [OF d1] this [OF assms] d1 show ?thesis by (simp add: rows_def)
qed

lemma shards_equal_serial_aux:
  assumes "detect mm njobs = Inr (f, splits)"
  shows "mapE concat (sequenceE (map (\<lambda>(s, e). iter_range mm f s e) (ranges splits))) = rows mm"
proof -
  obtain cuts m where c: "splits = cuts @ [length mm]" "m \<le> length mm"
    "scan_ok (fmt_next mm f) mm njobs (fmt_start f) m cuts"
    using detect_spec [OF assms] by blast
  then obtain cs where cuts: "cuts = fmt_start f # cs" and chain: "chain (fmt_next mm f) cuts"
    by (cases cuts) (auto simp: scan_ok_def)
  have "fmt_next mm f n = Some k \<Longrightarrow> n < k" for n k
    by (cases f) (auto simp: fmt_next_def pc.nxt_greater ng.nxt_greater)
  then have "last cuts \<le> length mm"
    using scan_ok_last_le [OF c(3) _ c(2)] by blast
  with chain cuts have "iter_range mm f (fmt_start f) (length mm) =
    mapE concat (sequenceE (map (\<lambda>(s, e). iter_range mm f s e) (zip cuts (cs @ [length mm]))))"
    by (simp add: iter_range_chain)
  moreover have "zip splits (tl splits) = zip cuts (cs @ [length mm])"
    using zip_append1 [of "fmt_start f # cs" "[length mm]" "cs @ [length mm]"]
    unfolding c(1) cuts by simp
  ultimately have "mapE concat (sequenceE (map (\<lambda>(s, e). iter_range mm f s e) (ranges splits)))
      = iter_range mm f (fmt_start f) (length mm)"
    unfolding ranges_def by (simp add: sequenceE_ranges iter_range_empty)
  moreover have "hd splits = fmt_start f" "last splits = length mm"
    using c by (auto simp: scan_ok_def)
  ultimately show ?thesis using rows_detect [OF assms] by simp
qed

text \<open>
  Sharding: for any number of worker processes, walking the byte ranges that \<open>detect\<close>
  produces and concatenating what the workers yield gives exactly the rows of the serial walk
  over the whole file, in file order; a worker raises exactly when the serial walk does.
\<close>

theorem shards_equal_serial:
  assumes "detect mm njobs = Inr (f, splits)"
  shows "mapE concat (sequenceE (map (\<lambda>(s, e). iter_range mm f s e) (ranges splits))) = rows mm"
  by (rule shards_equal_serial_aux [OF assms])

subsection \<open>A capture to evaluate\<close>

text \<open>
  A little-endian capture of raw IPv4 frames: two UDP/443 datagrams with two payload bytes each.
\<close>

definition sample_cap :: bytes where
  "sample_cap =
     [0xd4, 0xc3, 0xb2, 0xa1, 2, 0, 4, 0, 0, 0, 0, 0, 0, 0, 0, 0, 255, 255, 0, 0, 101, 0, 0, 0] @
     [0, 0, 0, 0, 0, 0, 0, 0, 30, 0, 0, 0, 30, 0, 0, 0] @
     [0x45, 0, 0, 30, 0, 0, 0, 0, 64, 17, 0, 0, 10, 0, 0, 1, 10, 0, 0, 2] @
     [0xc3, 0x50, 0x01, 0xbb, 0, 10, 0, 0] @ [0x40, 7] @
     [0, 0, 0, 0, 0, 0, 0, 0, 30, 0, 0, 0, 30, 0, 0, 0] @
     [0x45, 0, 0, 30, 0, 0, 0, 0, 64, 17, 0, 0, 10, 0, 0, 2, 10, 0, 0, 1] @
     [0x01, 0xbb, 0xc3, 0x50, 0, 10, 0, 0] @ [0x40, 9]"

lemmas capture_eval =
  rows_def detect_def scan_pcap.simps rec_incl_def unpack_I_def endian_nat_def py_slice_def
  add_split_def iter_range_def iter_pcap.simps parse_frame_def udp443_from_ip_def u16_at_def
  byte_at_def be16_def opt_cons_def LT_ETHER_def LT_SLL_def LT_RAW_def PREFIX_def Let_def

lemma detect_sample_cap: "detect sample_cap 2 = Inr (Pcap Little 101, [24, 70, 116])"
  by (simp add: sample_cap_def capture_eval cong: bindE_weak_cong)

theorem shards_equal_serial_witness:
  "mapE concat (sequenceE (map (\<lambda>(s, e). iter_range sample_cap (Pcap Little 101) s e) [(24, 70), (70, 116)]))
    = rows sample_cap"
  using shards_equal_serial [OF detect_sample_cap] by (simp add: ranges_def)

text \<open>
  The payload prefix of a row is read without regard to the end of its frame: in a capture
  of two datagrams with two payload bytes each, the first row carries 32 payload bytes, 30 of
  which are the record header and the IP header of the second datagram, so the check
  \<^verbatim>\<open>len(pl) < 2\<close> of the analyser cannot recognise a short datagram inside a file.
\<close>

theorem payload_prefix_spills_into_next_record:
  "rows sample_cap = Inr
     [([10, 0, 0, 1], [10, 0, 0, 2], 50000, 443,
       [0x40, 7, 0, 0, 0, 0, 0, 0, 0, 0, 30, 0, 0, 0, 30, 0, 0, 0,
        0x45, 0, 0, 30, 0, 0, 0, 0, 64, 17, 0, 0, 10, 0]),
      ([10, 0, 0, 2], [10, 0, 0, 1], 443, 50000, [0x40, 9])]"
  by (simp add: sample_cap_def capture_eval cong: bindE_weak_cong)

subsection \<open>Where a walk can raise\<close>

lemma pcap_emit_returns: "pcap_next e mm n = Some m \<Longrightarrow> \<exists>rs. pcap_emit e lt mm n = Inr rs"
proof -
  let ?stop = "n + 16 + endian_nat e (py_slice mm (n + 8) (n + 12))"
  assume "pcap_next e mm n = Some m"
  then have "?stop \<le> length mm" by (auto simp: pcap_next_def Let_def split: if_splits)
  from parse_frame_returns [OF this, of "n + 16" lt]
  show ?thesis by (auto simp: pcap_emit_def)
qed

text \<open>
  Walking any byte range of a classic capture never raises, whatever the bytes are: every
  read of the record walk, of the frame parser (VLAN tags included) and of the IPv4/UDP parser
  is inside the file.
\<close>

theorem classic_walk_never_raises: "\<exists>rs. iter_range mm (Pcap e lt) start stop = Inr rs"
proof (induction "stop - start" arbitrary: start rule: less_induct)
  case less
  show ?case
  proof (cases "start < stop")
    case False
    then show ?thesis by (simp add: iter_range_empty)
  next
    case True
    show ?thesis
    proof (cases "pcap_next e mm start")
      case None
      with True show ?thesis by (simp add: iter_range_def pc.iter_end)
    next
      case (Some m)
      then have "\<exists>rs. iter_range mm (Pcap e lt) m stop = Inr rs"
        using pc.nxt_greater [OF Some] True by (intro less) simp
      with Some True pcap_emit_returns [OF Some, of lt] show ?thesis
        by (auto simp: iter_range_def pc.iter_record)
    qed
  qed
qed

lemma ng_block_raises:
  assumes "pcapng_next e mm n = Some m" and "pcapng_emit e ifs mm n = Inl x"
  shows "x = StructError \<and> length mm < n + 24 \<and> endian_nat e (py_slice mm n (n + 4)) = 6"
proof -
  let ?blen = "endian_nat e (py_slice mm (n + 4) (n + 8))"
  from assms(1) have b: "12 \<le> ?blen" "n + ?blen \<le> length mm"
    by (auto simp: pcapng_next_def Let_def split: if_splits)
  have blk: "ng_block e ifs mm n (endian_nat e (py_slice mm n (n + 4))) ?blen = Inl x"
    using assms(2) by (cases "ng_block e ifs mm n (endian_nat e (py_slice mm n (n + 4))) ?blen")
      (simp_all add: pcapng_emit_def)
  have pf: "parse_frame mm p s lt \<noteq> Inl x" if "s \<le> n + ?blen" for p s lt
    using parse_frame_returns [of s mm p lt] that b by auto
  show ?thesis
  proof (cases "endian_nat e (py_slice mm n (n + 4)) = 6")
    case True
    obtain iface where "unpack_I e mm (n + 8) = Inr iface"
      using b by (simp add: unpack_I_def)
    moreover have "length mm < n + 24"
    proof (rule ccontr)
      assume "\<not> length mm < n + 24"
      then obtain caplen where "unpack_I e mm (n + 20) = Inr caplen"
        by (simp add: unpack_I_def)
      with \<open>unpack_I e mm (n + 8) = Inr iface\<close> blk True pf show False
        by (auto simp: ng_block_def Let_def split: if_splits)
    qed
    moreover from this have "unpack_I e mm (n + 20) = Inl StructError"
      by (simp add: unpack_I_def)
    ultimately show ?thesis
      using blk True by (simp add: ng_block_def)
  next
    case False
    then show ?thesis
      using blk pf [of "n + ?blen - 4"] by (auto simp: ng_block_def Let_def split: if_splits)
  qed
qed

text \<open>
  C15. Walking a range of a pcapng capture raises in one case only: \<^verbatim>\<open>struct.error\<close> at an
  enhanced packet block, reached from the start of the range, that is so close to the end of
  the file that its captured-length field is cut off.
\<close>

theorem pcapng_walk_error:
  assumes "iter_range mm (Pcapng e ifs) start stop = Inl x"
  shows "x = StructError \<and> (\<exists>n < stop. boundary (pcapng_next e mm) start n
    \<and> endian_nat e (py_slice mm n (n + 4)) = 6 \<and> length mm < n + 24)"
  using assms
proof (induction "stop - start" arbitrary: start rule: less_induct)
  case less
  have lt: "start < stop"
    using less.prems iter_range_empty [of stop start] by (force simp: not_less)
  then obtain m where m: "pcapng_next e mm start = Some m"
    using less.prems by (cases "pcapng_next e mm start") (auto simp: iter_range_def ng.iter_end)
  show ?case
  proof (cases "pcapng_emit e ifs mm start")
    case (Inl y)
    with m lt less.prems have "x = y" by (simp add: iter_range_def ng.iter_record)
    with ng_block_raises [OF m Inl] lt show ?thesis
      by (auto intro: boundary.intros)
  next
    case (Inr rs)
    with m lt less.prems have "iter_range mm (Pcapng e ifs) m stop = Inl x"
      by (cases "iter_pcapng e ifs mm m stop") (simp_all add: iter_range_def ng.iter_record)
    moreover have "stop - m < stop - start"
      using ng.nxt_greater [OF m] lt by linarith
    ultimately have "x = StructError \<and> (\<exists>n < stop. boundary (pcapng_next e mm) m n
        \<and> endian_nat e (py_slice mm n (n + 4)) = 6 \<and> length mm < n + 24)"
      by (intro less.hyps)
    then show ?thesis
      by (blast intro: boundary_step [of "pcapng_next e mm", OF m])
  qed
qed

text \<open>A capture whose last block is an enhanced packet block of twelve bytes.\<close>

definition cut_cap :: bytes where
  "cut_cap = [6, 0, 0, 0, 12, 0, 0, 0, 0, 0, 0, 0]"

theorem pcapng_walk_error_witness:
  "iter_range cut_cap (Pcapng Little []) 0 12 = Inl StructError
    \<and> (\<exists>n < 12. boundary (pcapng_next Little cut_cap) 0 n \<and> length cut_cap < n + 24)"
proof -
  have "iter_range cut_cap (Pcapng Little []) 0 12 = Inl StructError"
    by (simp add: cut_cap_def iter_range_def iter_pcapng.simps ng_block_def unpack_I_def
        endian_nat_def py_slice_def cong: bindE_weak_cong)
  from this pcapng_walk_error [OF this] show ?thesis by blast
qed

end
