(* ===== verification/Dict_Merge.thy ===== *)
theory Dict_Merge
  imports Prelude
begin

text \<open>
  Dictionaries that accumulate. \<open>dacc f z k v d\<close> is the update
  \<^verbatim>\<open>d[k] = f(d.get(k, z), v)\<close>, of which \<^verbatim>\<open>d[k] += n\<close>, \<^verbatim>\<open>d[k] |= s\<close> and
  \<^verbatim>\<open>d[k] = v\<close> are instances; \<open>dmerge\<close> adds the items of one dictionary to another.
  The contract \<open>dict_acc\<close> asks that \<open>f\<close> is associative with left unit \<open>z\<close>; its lemmas show
  that merging the dictionary of a shard is the same, key order included, as replaying the
  shard's updates. It is interpreted on the three updates the scripts use.
\<close>

definition dacc :: "('v \<Rightarrow> 'v \<Rightarrow> 'v) \<Rightarrow> 'v \<Rightarrow> 'k \<Rightarrow> 'v \<Rightarrow> ('k, 'v) dict \<Rightarrow> ('k, 'v) dict" where
  "dacc f z k v d = AList.update k (f (dget d k z) v) d"

definition dmerge :: "('v \<Rightarrow> 'v \<Rightarrow> 'v) \<Rightarrow> 'v \<Rightarrow> ('k, 'v) dict \<Rightarrow> ('k, 'v) dict \<Rightarrow> ('k, 'v) dict" where
  "dmerge f z d e = foldl (\<lambda>acc (k, v). dacc f z k v acc) d e"

lemma dadd_dacc: "dadd k n d = dacc (+) 0 k n d"
  by (simp add: dadd_def dacc_def)

lemma dunion_dacc: "dunion k s d = dacc (\<union>) {} k s d"
  by (simp add: dunion_def dacc_def)

lemma update_dacc: "AList.update k v d = dacc (\<lambda>_ b. b) z k v d"
  by (simp add: dacc_def)

lemma dupdate_dmerge: "dupdate d e = dmerge (\<lambda>_ b. b) z d e"
  by (simp add: dupdate_def dmerge_def update_dacc [of _ _ _ z])

lemma dict_ok_dacc [simp, intro]: "dict_ok d \<Longrightarrow> dict_ok (dacc f z k v d)"
  by (simp add: dacc_def)

lemma dget_dacc: "dget (dacc f z k v d) j x = (if j = k then f (dget d k z) v else dget d j x)"
  by (simp add: dacc_def dget_update)

lemma dom_dacc [simp]: "fst ` set (dacc f z k v d) = insert k (fst ` set d)"
  by (simp add: dacc_def dom_update)

lemma dmerge_Nil [simp]: "dmerge f z d [] = d"
  by (simp add: dmerge_def)

lemma dmerge_Cons: "dmerge f z d ((k, v) # e) = dmerge f z (dacc f z k v d) e"
  by (simp add: dmerge_def)

lemma dmerge_append: "dmerge f z d (e @ e') = dmerge f z (dmerge f z d e) e'"
  by (simp add: dmerge_def)

lemma dict_ok_dmerge [simp, intro]: "dict_ok d \<Longrightarrow> dict_ok (dmerge f z d e)"
  by (induction e arbitrary: d) (auto simp: dmerge_Cons)

lemma update_commute:
  "k \<noteq> k' \<Longrightarrow> k \<in> fst ` set d \<Longrightarrow>
     AList.update k v (AList.update k' v' d) = AList.update k' v' (AList.update k v d)"
  by (induction d) auto

lemma dacc_commute:
  assumes "k \<noteq> k'" and "k \<in> fst ` set d"
  shows "dacc f z k v (dacc f z k' v' d) = dacc f z k' v' (dacc f z k v d)"
  using assms by (auto simp: dacc_def dget_update intro: update_commute)

lemma dmerge_dacc_outside:
  "k \<notin> fst ` set e \<Longrightarrow> k \<in> fst ` set d \<Longrightarrow>
     dmerge f z (dacc f z k v d) e = dacc f z k v (dmerge f z d e)"
proof (induction e arbitrary: d)
  case Nil
  then show ?case by simp
next
  case (Cons p e)
  obtain k' v' where p: "p = (k', v')" by (cases p)
  with Cons have "dmerge f z (dacc f z k v (dacc f z k' v' d)) e = dacc f z k v (dmerge f z (dacc f z k' v' d) e)"
    by (intro Cons.IH) auto
  moreover have "dacc f z k' v' (dacc f z k v d) = dacc f z k v (dacc f z k' v' d)"
    using Cons.prems p by (intro dacc_commute [symmetric]) auto
  ultimately show ?case
    by (simp add: dmerge_Cons p)
qed

lemma update_new: "k \<notin> fst ` set d \<Longrightarrow> AList.update k v d = d @ [(k, v)]"
  by (induction d) auto

lemma dict_split:
  assumes "k \<in> fst ` set d" and "dict_ok d"
  obtains c d1 d2 where "d = d1 @ (k, c) # d2" and "k \<notin> fst ` set d1" and "k \<notin> fst ` set d2"
proof -
  from assms(1) obtain c where "(k, c) \<in> set d" by auto
  then obtain d1 d2 where "d = d1 @ (k, c) # d2" by (meson split_list)
  moreover from this assms(2) have "k \<notin> fst ` set d1" "k \<notin> fst ` set d2"
    by (auto simp: dict_ok_def)
  ultimately show ?thesis by (rule that)
qed

lemma update_middle:
  "k \<notin> fst ` set d1 \<Longrightarrow> AList.update k v (d1 @ (k, c) # d2) = d1 @ (k, v) # d2"
  by (induction d1) auto

locale dict_acc =
  fixes f :: "'v \<Rightarrow> 'v \<Rightarrow> 'v" and z :: 'v
  assumes f_assoc: "f (f a b) c = f a (f b c)"
    and f_unit: "f z a = a"
begin

lemma dacc_dacc: "dacc f z k v (dacc f z k u d) = dacc f z k (f u v) d"
  by (simp add: dacc_def dget_update f_assoc)

lemma dmerge_dacc:
  assumes "dict_ok e"
  shows "dmerge f z d (dacc f z k v e) = dacc f z k v (dmerge f z d e)"
proof (cases "k \<in> fst ` set e")
  case False
  then have "dacc f z k v e = e @ [(k, v)]"
    by (simp add: dacc_def update_new f_unit dget_def map_of_eq_None_iff [THEN iffD2])
  then show ?thesis by (simp add: dmerge_append dmerge_Cons)
next
  case True
  from True assms obtain c e1 e2 where
    e: "e = e1 @ (k, c) # e2" and k1: "k \<notin> fst ` set e1" and k2: "k \<notin> fst ` set e2"
    by (rule dict_split)
  have "dget e k z = c"
    using k1 by (simp add: dget_def e map_add_def map_of_eq_None_iff [THEN iffD2])
  then have "dacc f z k v e = e1 @ (k, f c v) # e2"
    using k1 by (simp add: dacc_def e update_middle)
  then have "dmerge f z d (dacc f z k v e) = dmerge f z (dacc f z k (f c v) (dmerge f z d e1)) e2"
    by (simp add: dmerge_append dmerge_Cons)
  also have "\<dots> = dmerge f z (dacc f z k v (dacc f z k c (dmerge f z d e1))) e2"
    by (simp add: dacc_dacc)
  also have "\<dots> = dacc f z k v (dmerge f z (dacc f z k c (dmerge f z d e1)) e2)"
    using k2 by (intro dmerge_dacc_outside) auto
  also have "dmerge f z (dacc f z k c (dmerge f z d e1)) e2 = dmerge f z d e"
    by (simp add: e dmerge_append dmerge_Cons)
  finally show ?thesis .
qed

text \<open>Replaying updates and merging the dictionary they build give the same dictionary.\<close>

lemma dmerge_replay:
  "dmerge f z d (foldl (\<lambda>acc (k, v). dacc f z k v acc) [] ops) =
     foldl (\<lambda>acc (k, v). dacc f z k v acc) d ops"
proof (induction ops rule: rev_induct)
  case Nil
  then show ?case by simp
next
  case (snoc op ops)
  have "dict_ok e \<Longrightarrow> dict_ok (foldl (\<lambda>acc (k, v). dacc f z k v acc) e os)" for e os
    by (induction os arbitrary: e) auto
  from this [of "[]"] have "dict_ok (foldl (\<lambda>acc (k, v). dacc f z k v acc) [] ops)" by simp
  with snoc show ?case by (cases op) (simp add: dmerge_dacc)
qed

end

interpretation cnt: dict_acc "(+)" "0 :: nat"
  by unfold_locales auto

interpretation uni: dict_acc "(\<union>)" "{}"
  by unfold_locales auto

interpretation ovr: dict_acc "\<lambda>_ b. b" z for z
  by unfold_locales auto

end
