(* ===== verification/Offline_Buckets.thy ===== *)
theory Offline_Buckets
  imports Bucket_Hash Capture Dict_Merge
begin

text \<open>
  The offline analyser \<^verbatim>\<open>pcap_buckets.py\<close> above the capture reader: the two phases
  (\<open>learn_phase\<close> collects the connection-ID length each Handshake teaches, \<open>bucket_phase\<close>
  buckets every datagram with the complete length map), the sharding over worker processes and
  the merge of their accumulators, the precision analysis, and the switch dump loader. The
  lemmas show that the result does not depend on the number of workers, what every accumulator
  holds, and what the reported figures mean.
\<close>

unbundle bit_operations_syntax

section \<open>Accumulators and phases\<close>

definition KINDS :: "nat \<Rightarrow> string option" where
  "KINDS = [0 \<mapsto> ''Initial'', 1 \<mapsto> ''0RTT'', 2 \<mapsto> ''Handshake'', 3 \<mapsto> ''Retry'']"

record acc =
  bucket_pkts :: "(nat, nat) dict"
  bucket_cids :: "(nat, string set) dict"
  cid_buckets :: "(string, nat set) dict"
  cid_pkts :: "(string, nat) dict"
  kind_pkts :: "(string, nat) dict"

definition new_acc :: acc where
  "new_acc = \<lparr>bucket_pkts = [], bucket_cids = [], cid_buckets = [], cid_pkts = [], kind_pkts = []\<rparr>"

definition fold_acc :: "acc \<Rightarrow> bytes \<Rightarrow> string \<Rightarrow> acc" where
  "fold_acc a dcid kind =
     (let b = bucket dcid; h = hex dcid in
      a\<lparr>bucket_pkts := dadd b 1 (bucket_pkts a),
        bucket_cids := dunion b {h} (bucket_cids a),
        cid_buckets := dunion h {b} (cid_buckets a),
        cid_pkts := dadd h 1 (cid_pkts a),
        kind_pkts := dadd kind 1 (kind_pkts a)\<rparr>)"

definition learn_row :: "(tuple4, nat) dict \<Rightarrow> row \<Rightarrow> (tuple4, nat) dict" where
  "learn_row learned r =
     (case r of (src, dst, sport, dport, pl) \<Rightarrow>
        if length pl \<ge> 6 \<and> unat (pl ! 0) AND 0xB0 = 0xA0
        then AList.update (src, dst, sport, dport) (unat (pl ! 5)) learned
        else learned)"

definition learn_phase :: "row list \<Rightarrow> (tuple4, nat) dict" where
  "learn_phase it = foldl learn_row [] it"

definition bucket_row :: "(tuple4, nat) dict \<Rightarrow> acc \<times> nat \<Rightarrow> row \<Rightarrow> acc \<times> nat" where
  "bucket_row learned st r =
     (case (st, r) of ((a, skipped), (src, dst, sport, dport, pl)) \<Rightarrow>
        if length pl < 2 then (a, skipped + 1)
        else let first = unat (pl ! 0) in
          if first AND 0x80 \<noteq> 0 then
            (if length pl < 6 then (a, skipped + 1)
             else let ptype = drop_bit 4 (first AND 0x30) in
               (fold_acc a (py_slice pl 6 (6 + unat (pl ! 5)))
                  (case KINDS ptype of None \<Rightarrow> ''Long'' | Some k \<Rightarrow> k), skipped))
          else let L = dget learned (src, dst, sport, dport) 0 in
            (fold_acc a (py_slice pl 1 (1 + L))
               (if L \<noteq> 0 then ''Short'' else ''Short(unlearned)''), skipped))"

definition bucket_phase :: "row list \<Rightarrow> (tuple4, nat) dict \<Rightarrow> acc \<times> nat" where
  "bucket_phase it learned = foldl (bucket_row learned) (new_acc, 0) it"

section \<open>Workers and merge\<close>

definition learn_worker :: "bytes \<Rightarrow> fmt \<Rightarrow> nat \<times> nat \<Rightarrow> (tuple4, nat) dict result" where
  "learn_worker mm f r = (case r of (start, stop) \<Rightarrow> mapE learn_phase (iter_range mm f start stop))"

definition bucket_worker ::
  "bytes \<Rightarrow> fmt \<Rightarrow> (tuple4, nat) dict \<Rightarrow> nat \<times> nat \<Rightarrow> (acc \<times> nat) result" where
  "bucket_worker mm f learned r =
     (case r of (start, stop) \<Rightarrow> mapE (\<lambda>it. bucket_phase it learned) (iter_range mm f start stop))"

definition merge_part :: "acc \<times> nat \<Rightarrow> acc \<times> nat \<Rightarrow> acc \<times> nat" where
  "merge_part st part =
     (case (st, part) of ((a, skipped), (p, w_skip)) \<Rightarrow>
        (a\<lparr>bucket_pkts := foldl (\<lambda>d (b, c). dadd b c d) (bucket_pkts a) (bucket_pkts p),
           bucket_cids := foldl (\<lambda>d (b, s). dunion b s d) (bucket_cids a) (bucket_cids p),
           cid_buckets := foldl (\<lambda>d (h, s). dunion h s d) (cid_buckets a) (cid_buckets p),
           cid_pkts := foldl (\<lambda>d (h, c). dadd h c d) (cid_pkts a) (cid_pkts p),
           kind_pkts := foldl (\<lambda>d (k, c). dadd k c d) (kind_pkts a) (kind_pkts p)\<rparr>,
         skipped + w_skip))"

definition merge_parts :: "(acc \<times> nat) list \<Rightarrow> acc \<times> nat" where
  "merge_parts parts = foldl merge_part (new_acc, 0) parts"

definition choose_jobs :: "int \<Rightarrow> nat option \<Rightarrow> nat" where
  "choose_jobs jobs cpu_count =
     (if jobs > 0 then nat jobs else (case cpu_count of None \<Rightarrow> 1 | Some c \<Rightarrow> if c = 0 then 1 else c))"

text \<open>The two phases of \<^verbatim>\<open>main\<close>, serial or sharded, up to the merged accumulators.\<close>

definition run_phases :: "bytes \<Rightarrow> nat \<Rightarrow> (acc \<times> nat) result" where
  "run_phases mm njobs =
     bindE (detect mm njobs) (\<lambda>(f, splits).
       let rs = ranges splits in
       mapE merge_parts
         (if njobs = 1 \<or> length rs \<le> 1 then
            bindE (iter_range mm f (hd splits) (last splits)) (\<lambda>it.
              let learned = learn_phase it in
              bindE (iter_range mm f (hd splits) (last splits)) (\<lambda>it'.
                Inr [bucket_phase it' learned]))
          else
            bindE (sequenceE (map (learn_worker mm f) rs)) (\<lambda>ms.
              let learned = foldl dupdate [] ms in
              sequenceE (map (bucket_worker mm f learned) rs))))"

section \<open>Precision analysis\<close>

record analysis =
  collisions :: "(nat, string set) dict"
  splits_of :: "(string, nat set) dict"
  n_cids :: nat
  n_bucket :: nat
  total_pkts :: nat
  cids_collided :: nat
  pkts_collided :: nat
  separated :: int
  accuracy :: rat

definition analyse :: "acc \<Rightarrow> analysis" where
  "analyse a =
     (let colls = filter (\<lambda>(b, cs). card cs > 1) (bucket_cids a);
          spl = filter (\<lambda>(h, bs). card bs > 1) (cid_buckets a);
          nc = length (cid_buckets a);
          collided = sum_list (map card (dvalues colls));
          sep = int nc - int collided + int (length colls)
      in \<lparr>collisions = colls,
          splits_of = spl,
          n_cids = nc,
          n_bucket = length (bucket_pkts a),
          total_pkts = sum_list (dvalues (bucket_pkts a)),
          cids_collided = collided,
          pkts_collided = sum_list (map (\<lambda>b. dget (bucket_pkts a) b 0) (dkeys colls)),
          separated = sep,
          accuracy = (if nc \<noteq> 0 then of_int sep / of_nat nc * 100 else 100)\<rparr>)"

text \<open>\<^verbatim>\<open>RESULT: CLEAN SEPARATION\<close>, or the numbers of collisions and splits.\<close>

definition clean_separation :: "analysis \<Rightarrow> bool" where
  "clean_separation s \<longleftrightarrow> collisions s = [] \<and> splits_of s = []"

section \<open>The switch dump\<close>

text \<open>Iterating over a text file: the lines with their line ends.\<close>

fun file_lines :: "string \<Rightarrow> string list" where
  "file_lines [] = []"
| "file_lines (c # cs) =
     (if c = CHR 0x0A then [c] # file_lines cs
      else (case file_lines cs of [] \<Rightarrow> [[c]] | l # ls \<Rightarrow> (c # l) # ls))"

definition lstrip_dash :: "string \<Rightarrow> string" where
  "lstrip_dash s = dropWhile (\<lambda>c. c = CHR ''-'') s"

definition switch_line :: "(int, int) dict \<Rightarrow> string \<Rightarrow> (int, int) dict result" where
  "switch_line counts line =
     (let tok = strip (hd (split_on (CHR '','') line));
          cnt = (if CHR '','' \<in> set line then strip (split_on (CHR '','') line ! 1) else ''0'')
      in if \<not> isdigit (lstrip_dash tok) then Inr counts
         else bindE (if isdigit (lstrip_dash cnt) then py_int cnt else Inr 0) (\<lambda>c.
           bindE (py_int tok) (\<lambda>b. Inr (AList.update b c counts))))"

definition ends_with :: "string \<Rightarrow> string \<Rightarrow> bool" where
  "ends_with s t \<longleftrightarrow> length t \<le> length s \<and> drop (length s - length t) s = t"

definition switch_item :: "(int, int) dict \<Rightarrow> string \<Rightarrow> (int, int) dict result" where
  "switch_item counts x =
     (let x' = strip x in
      if x' = [] then Inr counts
      else bindE (py_int x') (\<lambda>b. Inr (AList.update b 0 counts)))"

text \<open>The file contents are \<open>Some\<close> text when the argument names an existing file.\<close>

definition load_switch_buckets :: "string \<Rightarrow> string option \<Rightarrow> (int, int) dict result" where
  "load_switch_buckets arg contents =
     (case contents of
        Some text \<Rightarrow> foldE switch_line [] (file_lines text)
      | None \<Rightarrow>
          (if CHR ''/'' \<in> set arg \<or> ends_with arg ''.csv''
           then Inl (SysExit (''--switch: file not found: '' @ arg))
           else foldE switch_item [] (split_on (CHR '','') arg)))"

record crosscheck =
  n_switch :: nat
  n_pcap :: nat
  both :: "int set"
  sw_only :: "int set"
  pc_only :: "int set"

definition cross_check :: "(int, int) dict \<Rightarrow> acc \<Rightarrow> crosscheck" where
  "cross_check sw_counts a =
     (let sw = fst ` set sw_counts; pc = int ` fst ` set (bucket_pkts a); bt = sw \<inter> pc
      in \<lparr>n_switch = card sw, n_pcap = card pc, both = bt, sw_only = sw - bt, pc_only = pc - bt\<rparr>)"

section \<open>Sharding does not change the result\<close>

definition acc_ok :: "acc \<Rightarrow> bool" where
  "acc_ok a \<longleftrightarrow> dict_ok (bucket_pkts a) \<and> dict_ok (bucket_cids a) \<and> dict_ok (cid_buckets a)
     \<and> dict_ok (cid_pkts a) \<and> dict_ok (kind_pkts a)"

lemma acc_ok_new [simp]: "acc_ok new_acc"
  by (simp add: acc_ok_def new_acc_def)

lemma acc_ok_fold [simp, intro]: "acc_ok a \<Longrightarrow> acc_ok (fold_acc a d k)"
  by (simp add: acc_ok_def fold_acc_def Let_def)

lemma dmerge_folds:
  "foldl (\<lambda>d (b, c). dadd b c d) = dmerge (+) 0"
  "foldl (\<lambda>d (b, s). dunion b s d) = dmerge (\<union>) {}"
  by (simp_all add: fun_eq_iff dmerge_def dadd_dacc dunion_dacc)

lemma dmerge_dadd: "dict_ok e \<Longrightarrow> dmerge (+) (0::nat) d (dadd k n e) = dadd k n (dmerge (+) 0 d e)"
  by (simp add: dadd_dacc cnt.dmerge_dacc)

lemma dmerge_dunion: "dict_ok e \<Longrightarrow> dmerge (\<union>) {} d (dunion k s e) = dunion k s (dmerge (\<union>) {} d e)"
  by (simp add: dunion_dacc uni.dmerge_dacc)

lemma merge_part_fold:
  "acc_ok p \<Longrightarrow> merge_part st (fold_acc p d k, w) =
     (fold_acc (fst (merge_part st (p, w))) d k, snd (merge_part st (p, w)))"
  by (cases st)
    (simp add: merge_part_def fold_acc_def Let_def acc_ok_def dmerge_folds dmerge_dadd dmerge_dunion)

lemma merge_part_skip:
  "merge_part st (p, Suc w) = (fst (merge_part st (p, w)), Suc (snd (merge_part st (p, w))))"
  by (cases st) (simp add: merge_part_def)

text \<open>What one row contributes: a connection ID with its header kind, or nothing.\<close>

definition classify :: "(tuple4, nat) dict \<Rightarrow> row \<Rightarrow> (bytes \<times> string) option" where
  "classify learned r =
     (case r of (src, dst, sport, dport, pl) \<Rightarrow>
        if length pl < 2 then None
        else if unat (pl ! 0) AND 0x80 \<noteq> 0 then
          (if length pl < 6 then None
           else Some (py_slice pl 6 (6 + unat (pl ! 5)),
             case KINDS (drop_bit 4 (unat (pl ! 0) AND 0x30)) of None \<Rightarrow> ''Long'' | Some k \<Rightarrow> k))
        else let L = dget learned (src, dst, sport, dport) 0 in
          Some (py_slice pl 1 (1 + L), if L \<noteq> 0 then ''Short'' else ''Short(unlearned)''))"

lemma bucket_row_classify:
  "bucket_row learned (a, s) r =
     (case classify learned r of None \<Rightarrow> (a, Suc s) | Some (d, k) \<Rightarrow> (fold_acc a d k, s))"
  by (cases r) (simp add: bucket_row_def classify_def Let_def)

lemma merge_part_bucket_row:
  assumes "acc_ok (fst pw)"
  shows "merge_part st (bucket_row L pw r) = bucket_row L (merge_part st pw) r"
proof -
  obtain p w where pw: "pw = (p, w)" by (cases pw)
  obtain a s where m: "merge_part st (p, w) = (a, s)" by (cases "merge_part st (p, w)")
  show ?thesis
    using assms m by (simp add: pw bucket_row_classify merge_part_fold merge_part_skip
        split: option.splits prod.splits)
qed

lemma acc_ok_bucket_row: "acc_ok (fst pw) \<Longrightarrow> acc_ok (fst (bucket_row L pw r))"
  by (cases pw) (auto simp: bucket_row_classify split: option.splits prod.splits)

lemma acc_ok_foldl_bucket_row: "acc_ok (fst pw) \<Longrightarrow> acc_ok (fst (foldl (bucket_row L) pw rs))"
  by (induction rs arbitrary: pw) (simp_all add: acc_ok_bucket_row)

lemma merge_part_new [simp]: "merge_part st (new_acc, 0) = st"
  by (cases st) (simp add: merge_part_def new_acc_def)

lemma merge_part_bucket_phase: "merge_part st (bucket_phase rs L) = foldl (bucket_row L) st rs"
proof (induction rs rule: rev_induct)
  case Nil
  then show ?case by (simp add: bucket_phase_def)
next
  case (snoc r rs)
  have "acc_ok (fst (bucket_phase rs L))"
    unfolding bucket_phase_def by (rule acc_ok_foldl_bucket_row) simp
  with snoc show ?case
    by (simp add: bucket_phase_def merge_part_bucket_row)
qed

lemma merge_parts_bucket_phase:
  "merge_parts (map (\<lambda>rs. bucket_phase rs L) rss) = bucket_phase (concat rss) L"
proof -
  have "foldl merge_part st (map (\<lambda>rs. bucket_phase rs L) rss) = foldl (bucket_row L) st (concat rss)" for st
    by (induction rss arbitrary: st) (simp_all add: merge_part_bucket_phase)
  then show ?thesis by (simp add: merge_parts_def bucket_phase_def)
qed

lemma dict_ok_learn_row [simp, intro]: "dict_ok d \<Longrightarrow> dict_ok (learn_row d r)"
  by (auto simp: learn_row_def split: prod.splits)

lemma dict_ok_foldl_learn_row: "dict_ok d \<Longrightarrow> dict_ok (foldl learn_row d rs)"
  by (induction rs arbitrary: d) auto

lemma dict_ok_learn_phase [simp]: "dict_ok (learn_phase rs)"
  unfolding learn_phase_def by (rule dict_ok_foldl_learn_row) simp

lemma dupdate_learn_row: "dict_ok e \<Longrightarrow> dupdate d (learn_row e r) = learn_row (dupdate d e) r"
  by (simp add: learn_row_def dupdate_dmerge [where z = 0] update_dacc [where z = 0]
      ovr.dmerge_dacc split: prod.splits)

lemma dupdate_learn_phase: "dupdate d (learn_phase rs) = foldl learn_row d rs"
proof (induction rs rule: rev_induct)
  case Nil
  then show ?case by (simp add: learn_phase_def)
next
  case (snoc r rs)
  then show ?case
    using dupdate_learn_row [OF dict_ok_learn_phase [of rs]] by (simp add: learn_phase_def)
qed

lemma foldl_dupdate_learn_phase: "foldl dupdate [] (map learn_phase rss) = learn_phase (concat rss)"
proof -
  have "foldl dupdate d (map learn_phase rss) = foldl learn_row d (concat rss)" for d
    by (induction rss arbitrary: d) (simp_all add: dupdate_learn_phase)
  then show ?thesis by (simp add: learn_phase_def)
qed

lemma sequenceE_mapE: "sequenceE (map (\<lambda>x. mapE g (h x)) xs) = mapE (map g) (sequenceE (map h xs))"
proof (induction xs)
  case Nil
  then show ?case by simp
next
  case (Cons x xs)
  then show ?case by (cases "h x"; cases "sequenceE (map h xs)") auto
qed

definition serial_phases :: "bytes \<Rightarrow> (acc \<times> nat) result" where
  "serial_phases mm = mapE (\<lambda>it. bucket_phase it (learn_phase it)) (rows mm)"

lemma merge_parts_single: "merge_parts [bucket_phase rs L] = bucket_phase rs L"
  using merge_parts_bucket_phase [of L "[rs]"] by simp

lemma run_phases_shards:
  assumes "detect mm njobs = Inr (f, splits)" and "\<not> (njobs = 1 \<or> length (ranges splits) \<le> 1)"
  shows "run_phases mm njobs = serial_phases mm"
proof -
  let ?it = "sequenceE (map (\<lambda>(s, e). iter_range mm f s e) (ranges splits))"
  have l: "sequenceE (map (learn_worker mm f) (ranges splits)) = mapE (map learn_phase) ?it"
    by (simp add: sequenceE_mapE [symmetric] learn_worker_def [abs_def] case_prod_unfold)
  have b: "sequenceE (map (bucket_worker mm f L) (ranges splits)) = mapE (map (\<lambda>it. bucket_phase it L)) ?it"
    for L
    by (simp add: sequenceE_mapE [symmetric] bucket_worker_def [abs_def] case_prod_unfold)
  have "mapE concat ?it = rows mm" by (rule shards_equal_serial_aux [OF assms(1)])
  then show ?thesis
    using assms
    by (cases ?it) (auto simp: run_phases_def serial_phases_def l b foldl_dupdate_learn_phase
        merge_parts_bucket_phase simp flip: \<open>mapE concat ?it = rows mm\<close>)
qed

lemma run_phases_serial:
  assumes "detect mm njobs = Inr (f, splits)" and "njobs = 1 \<or> length (ranges splits) \<le> 1"
  shows "run_phases mm njobs = serial_phases mm"
proof -
  have "iter_range mm f (hd splits) (last splits) = rows mm"
    using rows_detect [OF assms(1)] by simp
  with assms show ?thesis
    by (cases "rows mm") (simp_all add: run_phases_def serial_phases_def merge_parts_single)
qed

lemma run_phases_rows: "run_phases mm njobs = serial_phases mm"
proof (cases "detect mm njobs")
  case (Inl e)
  then have "mapE fst (detect mm 1) = Inl e"
    using detect_fmt [of mm 1 njobs] by simp
  then have "detect mm 1 = Inl e" by (cases "detect mm 1") auto
  with Inl show ?thesis by (simp add: run_phases_def serial_phases_def rows_def)
next
  case (Inr fs)
  then show ?thesis
    using run_phases_shards run_phases_serial by (cases fs) blast
qed

text \<open>
  C4. The result of the offline analysis does not depend on how the work is divided: for every
  \<^verbatim>\<open>--jobs\<close> value and every number of processors the merged accumulators and the number of
  skipped datagrams (dictionary order included) are those of one serial pass over the rows of
  the capture, and the run raises exactly when the serial pass does.
\<close>

theorem phases_independent_of_jobs:
  "run_phases mm (choose_jobs jobs cpus) = mapE (\<lambda>it. bucket_phase it (learn_phase it)) (rows mm)"
  by (simp add: run_phases_rows serial_phases_def)

section \<open>What the accumulators hold\<close>

definition events :: "(tuple4, nat) dict \<Rightarrow> row list \<Rightarrow> (bytes \<times> string) list" where
  "events learned rs = List.map_filter (classify learned) rs"

definition acc_of :: "(bytes \<times> string) list \<Rightarrow> acc" where
  "acc_of evs = foldl (\<lambda>a (d, k). fold_acc a d k) new_acc evs"

lemma acc_of_Nil [simp]: "acc_of [] = new_acc"
  by (simp add: acc_of_def)

lemma acc_of_snoc: "acc_of (evs @ [e]) = fold_acc (acc_of evs) (fst e) (snd e)"
  by (cases e) (simp add: acc_of_def)

lemma events_Nil [simp]: "events L [] = []"
  by (simp add: events_def)

lemma events_snoc:
  "events L (rs @ [r]) = events L rs @ (case classify L r of None \<Rightarrow> [] | Some e \<Rightarrow> [e])"
  by (induction rs) (auto simp: events_def split: option.splits)

lemma bucket_phase_acc_of:
  "bucket_phase rs L = (acc_of (events L rs), length rs - length (events L rs))
     \<and> length (events L rs) \<le> length rs"
proof (induction rs rule: rev_induct)
  case Nil
  then show ?case by (simp add: bucket_phase_def)
next
  case (snoc r rs)
  then show ?case
    by (auto simp: bucket_phase_def bucket_row_classify events_snoc acc_of_snoc split: option.splits)
qed

lemma acc_ok_acc_of [simp]: "acc_ok (acc_of evs)"
  by (induction evs rule: rev_induct) (auto simp: acc_of_snoc)

lemma fold_acc_sel [simp]:
  "bucket_pkts (fold_acc a d k) = dadd (bucket d) 1 (bucket_pkts a)"
  "bucket_cids (fold_acc a d k) = dunion (bucket d) {hex d} (bucket_cids a)"
  "cid_buckets (fold_acc a d k) = dunion (hex d) {bucket d} (cid_buckets a)"
  "cid_pkts (fold_acc a d k) = dadd (hex d) 1 (cid_pkts a)"
  "kind_pkts (fold_acc a d k) = dadd k 1 (kind_pkts a)"
  by (simp_all add: fold_acc_def Let_def)

lemma new_acc_sel [simp]:
  "bucket_pkts new_acc = []" "bucket_cids new_acc = []" "cid_buckets new_acc = []"
  "cid_pkts new_acc = []" "kind_pkts new_acc = []"
  by (simp_all add: new_acc_def)

lemma acc_of_keys:
  "fst ` set (bucket_pkts (acc_of evs)) = bucket ` fst ` set evs"
  "fst ` set (bucket_cids (acc_of evs)) = bucket ` fst ` set evs"
  "fst ` set (cid_buckets (acc_of evs)) = hex ` fst ` set evs"
  "fst ` set (cid_pkts (acc_of evs)) = hex ` fst ` set evs"
  "fst ` set (kind_pkts (acc_of evs)) = snd ` set evs"
  by (induction evs rule: rev_induct) (simp_all add: acc_of_snoc)

lemma image_insert_filter:
  "f ` {c. (c = a \<or> c \<in> S) \<and> P c} = (if P a then insert (f a) (f ` {c \<in> S. P c}) else f ` {c \<in> S. P c})"
  by auto

lemma acc_of_values:
  "dget (bucket_pkts (acc_of evs)) b 0 = length (filter (\<lambda>e. bucket (fst e) = b) evs)"
  "dget (bucket_cids (acc_of evs)) b {} = hex ` {c \<in> fst ` set evs. bucket c = b}"
  "dget (cid_buckets (acc_of evs)) h {} = bucket ` {c \<in> fst ` set evs. hex c = h}"
  "dget (cid_pkts (acc_of evs)) h 0 = length (filter (\<lambda>e. hex (fst e) = h) evs)"
  "dget (kind_pkts (acc_of evs)) k 0 = length (filter (\<lambda>e. snd e = k) evs)"
proof (induction evs rule: rev_induct)
  case Nil
  { case 1 show ?case by simp }
  { case 2 show ?case by simp }
  { case 3 show ?case by simp }
  { case 4 show ?case by simp }
  { case 5 show ?case by simp }
next
  case (snoc e evs)
  obtain d kd where e: "e = (d, kd)" by (cases e)
  { case 1 show ?case using snoc(1) by (auto simp: e acc_of_snoc dget_dadd) }
  { case 2 show ?case using snoc(2) by (cases "bucket d = b") (simp_all add: e acc_of_snoc dget_dunion image_insert_filter not_sym) }
  { case 3 show ?case using snoc(3) by (cases "hex d = h") (simp_all add: e acc_of_snoc dget_dunion image_insert_filter not_sym) }
  { case 4 show ?case using snoc(4) by (auto simp: e acc_of_snoc dget_dadd) }
  { case 5 show ?case using snoc(5) by (auto simp: e acc_of_snoc dget_dadd) }
qed

lemma acc_of_sums:
  "sum_list (dvalues (bucket_pkts (acc_of evs))) = length evs"
  "sum_list (dvalues (cid_pkts (acc_of evs))) = length evs"
  "sum_list (dvalues (kind_pkts (acc_of evs))) = length evs"
proof (induction evs rule: rev_induct)
  case Nil
  { case 1 show ?case by (simp add: dvalues_def) }
  { case 2 show ?case by (simp add: dvalues_def) }
  { case 3 show ?case by (simp add: dvalues_def) }
next
  case (snoc e evs)
  have ok: "acc_ok (acc_of evs)" by simp
  obtain d k where e: "e = (d, k)" by (cases e)
  { case 1 show ?case using snoc ok by (simp add: e acc_of_snoc acc_ok_def sum_list_dadd) }
  { case 2 show ?case using snoc ok by (simp add: e acc_of_snoc acc_ok_def sum_list_dadd) }
  { case 3 show ?case using snoc ok by (simp add: e acc_of_snoc acc_ok_def sum_list_dadd) }
qed

lemma dict_entry:
  assumes "dict_ok d" and "(k, v) \<in> set d"
  shows "v = dget d k x"
  using assms by (simp add: dict_ok_def dget_def)

lemma acc_ofD: "dict_ok (bucket_pkts (acc_of evs))" "dict_ok (bucket_cids (acc_of evs))"
  "dict_ok (cid_buckets (acc_of evs))"
  using acc_ok_acc_of [of evs] by (simp_all add: acc_ok_def)

lemma length_dict: "dict_ok d \<Longrightarrow> length d = card (fst ` set d)"
  by (metis dict_ok_def distinct_card length_map set_map)

text \<open>
  C12. Conservation: every row is either counted once, under one bucket, one connection ID and
  one header kind, or counted as skipped. The packet totals over buckets, over connection IDs
  and over kinds are all the number of rows less the skipped ones.
\<close>

theorem bucket_phase_conserves_packets:
  "case bucket_phase rs L of (a, skipped) \<Rightarrow>
     sum_list (dvalues (bucket_pkts a)) + skipped = length rs
     \<and> sum_list (dvalues (cid_pkts a)) + skipped = length rs
     \<and> sum_list (dvalues (kind_pkts a)) + skipped = length rs
     \<and> total_pkts (analyse a) + skipped = length rs"
  using bucket_phase_acc_of [of rs L] by (simp add: acc_of_sums analyse_def Let_def)

lemma card_gt_1_single: "\<not> card (f ` {c \<in> S. hex c = h}) > 1"
proof -
  have "f ` {c \<in> S. hex c = h} \<subseteq> {f (the_elem {c. hex c = h})}"
  proof
    fix y assume "y \<in> f ` {c \<in> S. hex c = h}"
    then obtain c where "hex c = h" "y = f c" by auto
    moreover from this have "{c'. hex c' = h} = {c}" by auto
    ultimately show "y \<in> {f (the_elem {c. hex c = h})}" by simp
  qed
  then have "card (f ` {c \<in> S. hex c = h}) \<le> 1"
    using card_mono [of "{f (the_elem {c. hex c = h})}"] by simp
  then show ?thesis by simp
qed

lemma analyser_never_splits_aux: "splits_of (analyse (acc_of evs)) = []"
proof -
  let ?a = "acc_of evs"
  have "card bs \<le> 1" if "(h, bs) \<in> set (cid_buckets ?a)" for h bs
    using dict_entry [OF acc_ofD(3) that, of "{}"] card_gt_1_single
    by (simp add: acc_of_values not_less)
  then have "filter (\<lambda>(h, bs). card bs > 1) (cid_buckets ?a) = []"
    by (force simp: filter_empty_conv not_less)
  then show ?thesis
    by (simp add: analyse_def Let_def)
qed

text \<open>
  The analyser never reports a split: the connection IDs it distinguishes are the byte
  strings it hashed, so each of them is in one bucket whatever the traffic and whatever lengths
  were learned. A connection whose learned length changes shows up as more connection IDs.
\<close>

theorem analyser_never_reports_a_split:
  "splits_of (analyse (fst (bucket_phase rs L))) = []"
  using bucket_phase_acc_of [of rs L] analyser_never_splits_aux by simp

section \<open>What the figures mean\<close>

lemma keys_filter:
  assumes "dict_ok d"
  shows "fst ` set (filter (\<lambda>(k, v). Q v) d) = {k \<in> fst ` set d. Q (dget d k x)}"
  using dict_entry [OF assms, where x = x] by force

lemma sum_list_filter_values:
  assumes "dict_ok d"
  shows "sum_list (map g (dvalues (filter (\<lambda>(k, v). Q v) d))) =
    (\<Sum>k \<in> {k \<in> fst ` set d. Q (dget d k x)}. g (dget d k x))"
proof -
  let ?d = "filter (\<lambda>(k, v). Q v) d"
  have "map g (dvalues ?d) = map (\<lambda>k. g (dget d k x)) (map fst ?d)"
    using dict_entry [OF assms, where x = x] by (auto simp: dvalues_def)
  moreover have "distinct (map fst ?d)"
    using assms by (simp add: dict_ok_def distinct_map_filter)
  ultimately show ?thesis
    by (simp only: sum_list_distinct_conv_sum_set set_map keys_filter [OF assms, where x = x])
qed

lemma length_filter_values:
  assumes "dict_ok d"
  shows "length (filter (\<lambda>(k, v). Q v) d) = card {k \<in> fst ` set d. Q (dget d k x)}"
proof -
  have "dict_ok (filter (\<lambda>(k, v). Q v) d)"
    using assms by (simp add: dict_ok_def distinct_map_filter)
  then show ?thesis
    by (simp only: length_dict keys_filter [OF assms, where x = x])
qed

lemma fibre_partition:
  fixes g :: "'a \<Rightarrow> nat"
  assumes "finite S"
  defines "m \<equiv> \<lambda>b. card {c \<in> S. g c = b}"
  shows "card S = (\<Sum>b \<in> {b \<in> g ` S. m b > 1}. m b) + card {b \<in> g ` S. \<not> m b > 1}"
proof -
  have pos: "m b \<ge> 1" if "b \<in> g ` S" for b
    using that assms(1) by (auto simp: m_def card_gt_0_iff Suc_le_eq)
  have "card S = (\<Sum>b \<in> g ` S. m b)"
    unfolding m_def using sum.image_gen [OF assms(1), of "\<lambda>_. 1 :: nat" g] by simp
  also have "\<dots> = (\<Sum>b \<in> {b \<in> g ` S. m b > 1}. m b) + (\<Sum>b \<in> {b \<in> g ` S. \<not> m b > 1}. m b)"
    using assms(1) by (subst sum.union_disjoint [symmetric]) (auto intro!: sum.cong)
  also have "(\<Sum>b \<in> {b \<in> g ` S. \<not> m b > 1}. m b) = (\<Sum>b \<in> {b \<in> g ` S. \<not> m b > 1}. 1)"
    using pos by (intro sum.cong) (auto simp: le_antisym)
  finally show ?thesis by simp
qed

lemma card_hex_image: "card (hex ` C) = card C"
  by (rule card_image) (simp add: inj_on_def)

lemma separated_acc_of:
  "separated (analyse (acc_of evs)) = int (card (bucket ` fst ` set evs))
    \<and> n_bucket (analyse (acc_of evs)) = card (bucket ` fst ` set evs)
    \<and> n_cids (analyse (acc_of evs)) = card (fst ` set evs)"
proof -
  let ?S = "fst ` set evs" and ?a = "acc_of evs"
  let ?m = "\<lambda>b. card {c \<in> ?S. bucket c = b}"
  let ?many = "{b \<in> bucket ` ?S. ?m b > 1}" and ?one = "{b \<in> bucket ` ?S. \<not> ?m b > 1}"
  have coll: "sum_list (map card (dvalues (filter (\<lambda>(b, cs). card cs > 1) (bucket_cids ?a)))) = (\<Sum>b \<in> ?many. ?m b)"
    by (simp add: sum_list_filter_values [OF acc_ofD(2), where x = "{}"] acc_of_keys acc_of_values card_hex_image)
  have ncoll: "length (filter (\<lambda>(b, cs). card cs > 1) (bucket_cids ?a)) = card ?many"
    by (simp add: length_filter_values [OF acc_ofD(2), where x = "{}"] acc_of_keys acc_of_values card_hex_image)
  have nb: "length (bucket_pkts ?a) = card (bucket ` ?S)"
    by (simp add: length_dict [OF acc_ofD(1)] acc_of_keys)
  have nc: "length (cid_buckets ?a) = card ?S"
    by (simp add: length_dict [OF acc_ofD(3)] acc_of_keys card_hex_image)
  have "card (?many \<union> ?one) = card ?many + card ?one"
    by (rule card_Un_disjoint) auto
  moreover have "?many \<union> ?one = bucket ` ?S" by blast
  ultimately have "card (bucket ` ?S) = card ?many + card ?one" by simp
  moreover have "card ?S = (\<Sum>b \<in> ?many. ?m b) + card ?one"
    by (rule fibre_partition) simp
  moreover have "separated (analyse ?a) = int (card ?S) - int (\<Sum>b \<in> ?many. ?m b) + int (card ?many)"
    by (simp only: analyse_def Let_def analysis.select_convs coll ncoll nc)
  ultimately show ?thesis
    by (simp add: analyse_def Let_def nb nc)
qed

lemma collisions_empty_iff:
  "collisions (analyse (acc_of evs)) = [] \<longleftrightarrow> card (bucket ` fst ` set evs) = card (fst ` set evs)"
proof -
  let ?S = "fst ` set evs"
  have m: "card {c \<in> ?S. bucket c = bucket d} > 1 \<longleftrightarrow> (\<exists>c \<in> ?S. c \<noteq> d \<and> bucket c = bucket d)"
    if "d \<in> ?S" for d
  proof -
    have "card {c \<in> ?S. bucket c = bucket d} = Suc (card ({c \<in> ?S. bucket c = bucket d} - {d}))"
      using that by (intro card.remove) auto
    moreover have "card ({c \<in> ?S. bucket c = bucket d} - {d}) > 0 \<longleftrightarrow> {c \<in> ?S. bucket c = bucket d} - {d} \<noteq> {}"
      by (simp add: card_gt_0_iff)
    ultimately show ?thesis by auto
  qed
  have "collisions (analyse (acc_of evs)) = [] \<longleftrightarrow> {b \<in> bucket ` ?S. card {c \<in> ?S. bucket c = b} > 1} = {}"
  proof -
    have "length (collisions (analyse (acc_of evs))) = card {b \<in> bucket ` ?S. card {c \<in> ?S. bucket c = b} > 1}"
      using length_filter_values [OF acc_ofD(2), where x = "{}" and Q = "\<lambda>cs. card cs > 1", of evs]
      by (simp add: analyse_def Let_def acc_of_keys acc_of_values card_hex_image)
    moreover have "finite {b \<in> bucket ` ?S. card {c \<in> ?S. bucket c = b} > 1}" by simp
    ultimately show ?thesis
      using length_0_conv [of "collisions (analyse (acc_of evs))"]
        card_0_eq [of "{b \<in> bucket ` ?S. card {c \<in> ?S. bucket c = b} > 1}"] by presburger
  qed
  also have "\<dots> \<longleftrightarrow> inj_on bucket ?S"
  proof
    assume e: "{b \<in> bucket ` ?S. card {c \<in> ?S. bucket c = b} > 1} = {}"
    show "inj_on bucket ?S"
    proof (rule inj_onI, rule ccontr)
      fix c d assume cd: "c \<in> ?S" "d \<in> ?S" "bucket c = bucket d" "c \<noteq> d"
      then have "card {c \<in> ?S. bucket c = bucket d} > 1" using m by blast
      with e cd(2) show False by blast
    qed
  next
    assume "inj_on bucket ?S"
    then have "\<not> card {c \<in> ?S. bucket c = bucket d} > 1" if "d \<in> ?S" for d
      using that m [OF that] by (auto simp: inj_on_def)
    then show "{b \<in> bucket ` ?S. card {c \<in> ?S. bucket c = b} > 1} = {}" by blast
  qed
  also have "\<dots> \<longleftrightarrow> card (bucket ` ?S) = card ?S"
    by (rule inj_on_iff_eq_card) simp
  finally show ?thesis .
qed

text \<open>
  C10. The figures of the report: the number of cleanly separated connections that the
  collision arithmetic yields is the number of occupied buckets, the result is called clean
  exactly when there are as many buckets as connection IDs, and with at least one connection
  the accuracy is that ratio in percent, above 0 and at most 100.
\<close>

theorem report_figures:
  fixes rs L
  defines "s \<equiv> analyse (fst (bucket_phase rs L))"
  shows "separated s = int (n_bucket s)
    \<and> (clean_separation s \<longleftrightarrow> n_bucket s = n_cids s)
    \<and> n_bucket s \<le> min (n_cids s) 131072
    \<and> (if n_cids s = 0 then accuracy s = 100
       else accuracy s = of_nat (n_bucket s) / of_nat (n_cids s) * 100 \<and> 0 < accuracy s \<and> accuracy s \<le> 100)"
proof -
  let ?evs = "events L rs"
  have s: "s = analyse (acc_of ?evs)"
    using bucket_phase_acc_of [of rs L] by (simp add: s_def)
  have f: "separated s = int (n_bucket s)" "n_bucket s = card (bucket ` fst ` set ?evs)"
    "n_cids s = card (fst ` set ?evs)"
    using separated_acc_of [of ?evs] by (simp_all add: s)
  have le: "n_bucket s \<le> min (n_cids s) 131072"
    using pcap.card_buckets_le [of "fst ` set ?evs"] by (simp add: f)
  have clean: "clean_separation s \<longleftrightarrow> n_bucket s = n_cids s"
    using analyser_never_splits_aux [of ?evs] collisions_empty_iff [of ?evs]
    by (simp add: clean_separation_def s f [unfolded s])
  have acc: "accuracy s = (if n_cids s \<noteq> 0 then of_int (separated s) / of_nat (n_cids s) * 100 else 100)"
    by (simp add: s_def analyse_def Let_def)
  have pos: "0 < n_bucket s" if "n_cids s \<noteq> 0"
    using that by (simp add: f card_gt_0_iff)
  show ?thesis
    using f(1) le clean acc pos by (auto simp: divide_simps)
qed

end
