(* ===== verification/Switch_Parity.thy ===== *)
theory Switch_Parity
  imports Switch_Runs Offline_Buckets
begin

text \<open>
  The two sides of the experiment on the same traffic: the packet registers of the switch
  (\<open>Data_Plane\<close>) and the per-bucket counts that \<^verbatim>\<open>pcap_buckets.py\<close> computes from a capture of
  the same packets (\<open>Offline_Buckets\<close>). A capture file is written by \<open>pcap_file\<close> after the
  documented format of classic pcap; the lemmas show what its walk yields, how the parser of
  the switch and the frame parser of the analyser see one frame, and which length each of them
  uses for a Short-header packet.
\<close>

unbundle bit_operations_syntax

section \<open>Writing a capture\<close>

fun le_bytes :: "nat \<Rightarrow> nat \<Rightarrow> bytes" where
  "le_bytes 0 n = []"
| "le_bytes (Suc k) n = word_of_nat n # le_bytes k (n div 256)"

definition pcap_record :: "64 word \<times> bytes \<Rightarrow> bytes" where
  "pcap_record r = be_bytes 8 (fst r) @ le_bytes 4 (length (snd r)) @ le_bytes 4 (length (snd r)) @ snd r"

definition pcap_header :: bytes where
  "pcap_header = [0xd4, 0xc3, 0xb2, 0xa1, 2, 0, 4, 0, 0, 0, 0, 0, 0, 0, 0, 0, 255, 255, 0, 0, 1, 0, 0, 0]"

definition pcap_file :: "(64 word \<times> bytes) list \<Rightarrow> bytes" where
  "pcap_file recs = pcap_header @ concat (map pcap_record recs)"

lemma length_le_bytes [simp]: "length (le_bytes k n) = k"
  by (induction k arbitrary: n) simp_all

lemma le_nat_le_bytes: "n < 256 ^ k \<Longrightarrow> le_nat (le_bytes k n) = n"
proof (induction k arbitrary: n)
  case (Suc k)
  then have "n div 256 < 256 ^ k" by (simp add: less_mult_imp_div_less mult.commute)
  with Suc.IH show ?case by (simp add: unat_of_nat)
qed simp

lemma length_pcap_record [simp]: "length (pcap_record r) = 16 + length (snd r)"
  by (simp add: pcap_record_def)

lemma length_pcap_header [simp]: "length pcap_header = 24"
  by (simp add: pcap_header_def)

lemma rec_incl_record:
  assumes "length (snd r) < 2 ^ 32" "mm = pre @ pcap_record r @ post"
  shows "rec_incl Little mm (length pre) = Inr (length (snd r))"
proof -
  have "py_slice mm (length pre + 8) (length pre + 12) = le_bytes 4 (length (snd r))"
    by (simp add: py_slice_def assms(2) pcap_record_def)
  then show ?thesis
    using assms by (simp add: rec_incl_def endian_nat_def le_nat_le_bytes)
qed

text \<open>What each frame yields in place, the bytes of the following records included.\<close>

fun frame_rows :: "bytes \<Rightarrow> (64 word \<times> bytes) list \<Rightarrow> row option list result" where
  "frame_rows pre [] = Inr []"
| "frame_rows pre (r # rs) =
     (let mm = pre @ concat (map pcap_record (r # rs)); d = length pre + 16 in
      bindE (parse_frame mm d (d + length (snd r)) LT_ETHER) (\<lambda>x.
        mapE (Cons x) (frame_rows (pre @ pcap_record r) rs)))"

lemma iter_pcap_file:
  assumes "\<forall>r \<in> set recs. length (snd r) < 2 ^ 32" "mm = pre @ concat (map pcap_record recs)"
  shows "iter_pcap Little 1 mm (length pre) (length mm) =
    mapE (\<lambda>xs. concat (map (\<lambda>x. opt_cons x []) xs)) (frame_rows pre recs)"
  using assms
proof (induction recs arbitrary: pre)
  case Nil
  then show ?case by (simp add: iter_pcap.simps)
next
  case (Cons r recs)
  have mm: "mm = pre @ pcap_record r @ concat (map pcap_record recs)" using Cons.prems by simp
  have incl: "rec_incl Little mm (length pre) = Inr (length (snd r))"
    using rec_incl_record [OF _ mm] Cons.prems by simp
  have IH: "iter_pcap Little 1 mm (length (pre @ pcap_record r)) (length mm) =
      mapE (\<lambda>xs. concat (map (\<lambda>x. opt_cons x []) xs)) (frame_rows (pre @ pcap_record r) recs)"
    using Cons.prems mm by (intro Cons.IH) simp_all
  have opt: "opt_cons x ys = opt_cons x [] @ ys" for x :: "row option" and ys
    by (simp add: opt_cons_def split: option.split)
  have len: "length mm = length pre + 16 + length (snd r) + length (concat (map pcap_record recs))"
    using mm by simp
  have fr: "frame_rows pre (r # recs) =
      bindE (parse_frame mm (length pre + 16) (length pre + 16 + length (snd r)) 1) (\<lambda>x.
        mapE (Cons x) (frame_rows (pre @ pcap_record r) recs))"
    using mm by (simp add: Let_def LT_ETHER_def)
  have "iter_pcap Little 1 mm (length pre) (length mm) =
      bindE (parse_frame mm (length pre + 16) (length pre + 16 + length (snd r)) 1) (\<lambda>x.
        mapE (opt_cons x) (iter_pcap Little 1 mm (length pre + 16 + length (snd r)) (length mm)))"
    using len by (subst iter_pcap.simps) (simp add: incl Let_def)
  then show ?case
    using IH by (simp add: fr mapE_bindE mapE_mapE comp_def add.assoc opt [symmetric] del: frame_rows.simps)
qed

lemma detect_pcap_file: "\<exists>splits. detect (pcap_file recs) 1 = Inr (Pcap Little 1, splits)"
proof -
  let ?mm = "pcap_file recs"
  have t: "take 4 ?mm = [0xd4, 0xc3, 0xb2, 0xa1]" "?mm \<noteq> []" "unpack_I Little ?mm 20 = Inr 1"
    by (simp_all add: pcap_file_def pcap_header_def unpack_I_def endian_nat_def py_slice_def)
  obtain sp where "scan_pcap Little ?mm 1 (of_nat (length ?mm) - 24) 24 (24 + (of_nat (length ?mm) - 24), [24]) = Inr sp"
    using scan_pcap_spec [of 24 ?mm Little 1 24 "(24 + (of_nat (length ?mm) - 24), [24])"
      "of_nat (length ?mm) - 24"] scan_ok_start [of "pcap_next Little ?mm" ?mm 1 24]
    by (auto simp: pcap_file_def)
  with t show ?thesis by (simp add: detect_def Let_def)
qed

lemma rows_pcap_file:
  assumes "\<forall>r \<in> set recs. length (snd r) < 2 ^ 32"
  shows "rows (pcap_file recs) =
    mapE (\<lambda>xs. concat (map (\<lambda>x. opt_cons x []) xs)) (frame_rows pcap_header recs)"
proof -
  obtain splits where d: "detect (pcap_file recs) 1 = Inr (Pcap Little 1, splits)"
    using detect_pcap_file by blast
  have "hd splits = 24 \<and> last splits = length (pcap_file recs)"
    using detect_spec [OF d] by (auto simp: scan_ok_def fmt_start_def)
  then show ?thesis
    using iter_pcap_file [OF assms, of "pcap_file recs" pcap_header] d
    by (simp add: rows_def iter_range_def pcap_file_def)
qed

section \<open>One frame, seen by both sides\<close>

text \<open>An Ethernet frame with a plain IPv4 header (no options, no VLAN tag) and a UDP header.\<close>

definition udp_frame :: "bytes \<Rightarrow> bool" where
  "udp_frame f \<longleftrightarrow> 42 \<le> length f \<and> f ! 12 = 8 \<and> f ! 13 = 0 \<and> f ! 14 = 0x45 \<and> f ! 23 = 17"

definition port443 :: "bytes \<Rightarrow> bool" where
  "port443 f \<longleftrightarrow> f ! 34 = 1 \<and> f ! 35 = 0xbb \<or> f ! 36 = 1 \<and> f ! 37 = 0xbb"

text \<open>
  A QUIC packet that both sides read completely: a long header with a connection ID of at most
  20 bytes and room for the 47 bytes that the switch extracts, or a short header with 21.
\<close>

definition quic_frame :: "bytes \<Rightarrow> bool" where
  "quic_frame f \<longleftrightarrow> udp_frame f \<and> port443 f \<and>
     (if 42 < length f \<and> bit (f ! 42) 7 then 89 \<le> length f \<and> unat (f ! 47) \<le> 20 else 63 \<le> length f)"

text \<open>Traffic that is not QUIC for either side.\<close>

definition foreign_frame :: "bytes \<Rightarrow> bool" where
  "foreign_frame f \<longleftrightarrow>
     14 \<le> length f \<and> [f ! 12, f ! 13] \<notin> {[8, 0], [0x81, 0], [0x88, 0xa8]} \<or>
     34 \<le> length f \<and> f ! 12 = 8 \<and> f ! 13 = 0 \<and> f ! 14 = 0x45 \<and> f ! 23 \<noteq> 17 \<or>
     udp_frame f \<and> \<not> port443 f"

definition tuple_key :: "bytes \<Rightarrow> tuple4" where
  "tuple_key f = (take 4 (drop 26 f), take 4 (drop 30 f),
     be16 (unat (f ! 34)) (unat (f ! 35)), be16 (unat (f ! 36)) (unat (f ! 37)))"

lemma be16_443: "be16 (unat a) (unat b) = 443 \<longleftrightarrow> a = 1 \<and> b = (0xbb :: byte)"
proof -
  have "256 * unat a + unat b = 443 \<longleftrightarrow> unat a = 1 \<and> unat b = 187"
    using unat_byte_less [of b] by presburger
  then show ?thesis by (simp add: be16_eq word_unat_eq_iff)
qed

lemma nth_mid: "mm = pre @ f @ post \<Longrightarrow> i < length f \<Longrightarrow> mm ! (length pre + i) = f ! i"
  by (simp add: nth_append)

lemma slice_mid:
  "mm = pre @ f @ post \<Longrightarrow> j \<le> length f \<Longrightarrow> py_slice mm (length pre + i) (length pre + j) = py_slice f i j"
  by (simp add: py_slice_def)

lemma u16_mid:
  assumes "mm = pre @ f @ post" "i + 1 < length f"
  shows "u16_at mm (length pre + i) = Inr (be16 (unat (f ! i)) (unat (f ! (i + 1))))"
  using assms nth_mid [OF assms(1), of i] nth_mid [OF assms(1), of "i + 1"] by (simp add: add.assoc)

lemma ihl5: "drop_bit 4 (unat (0x45 :: byte)) = 4" "(unat (0x45 :: byte) AND 0x0F) * 4 = 20"
  by simp_all

lemma udp443_mid:
  assumes mm: "mm = pre @ f @ post" and f: "udp_frame f"
  shows "udp443_from_ip mm (length pre + 14) =
    Inr (if port443 f then Some (let (s, d, sp, dp) = tuple_key f in (s, d, sp, dp, take 32 (drop 42 (f @ post)))) else None)"
proof -
  have len: "42 \<le> length f" "length mm = length pre + length f + length post" using f mm by (auto simp: udp_frame_def)
  have b: "byte_at mm (length pre + 14) = Inr 0x45" "byte_at mm (length pre + 23) = Inr 17"
    using f len nth_mid [OF mm, of 14] nth_mid [OF mm, of 23] by (auto simp: udp_frame_def)
  have u: "u16_at mm (length pre + 34) = Inr (be16 (unat (f ! 34)) (unat (f ! 35)))"
    "u16_at mm (length pre + 36) = Inr (be16 (unat (f ! 36)) (unat (f ! 37)))"
    using u16_mid [OF mm, of 34] u16_mid [OF mm, of 36] len by simp_all
  have sl: "py_slice mm (length pre + 26) (length pre + 30) = take 4 (drop 26 f)"
    "py_slice mm (length pre + 30) (length pre + 34) = take 4 (drop 30 f)"
    "py_slice mm (length pre + 42) (length pre + 74) = take 32 (drop 42 (f @ post))"
    using len(1) by (simp_all add: py_slice_def mm)
  have p: "port443 f \<longleftrightarrow> be16 (unat (f ! 34)) (unat (f ! 35)) = 443 \<or> be16 (unat (f ! 36)) (unat (f ! 37)) = 443"
    by (simp add: port443_def be16_443)
  show ?thesis
    using len by (simp add: udp443_from_ip_def Let_def b u p PREFIX_def tuple_key_def add.commute [of "length pre"]
        b [unfolded add.commute [of "length pre"]] u [unfolded add.commute [of "length pre"]]
        sl [unfolded add.commute [of "length pre"]] del: byte_at_Inr u16_at_Inr drop_append take_append)
qed

lemma parse_frame_mid:
  assumes mm: "mm = pre @ f @ post" and f: "14 \<le> length f"
  shows "parse_frame mm (length pre) (length pre + length f) LT_ETHER =
    bindE (strip_vlan mm (length pre + length f) (be16 (unat (f ! 12)) (unat (f ! 13))) (length pre + 14)) (\<lambda>r.
      case r of None \<Rightarrow> Inr None
      | Some (et, l3) \<Rightarrow> if et \<noteq> 0x0800 then Inr None else udp443_from_ip mm l3)"
  using f u16_mid [OF mm, of 12] by (simp add: parse_frame_def)

lemma parse_udp_frame:
  assumes mm: "mm = pre @ f @ post" and f: "udp_frame f"
  shows "parse_frame mm (length pre) (length pre + length f) LT_ETHER =
    Inr (if port443 f then Some (let (s, d, sp, dp) = tuple_key f in (s, d, sp, dp, take 32 (drop 42 (f @ post)))) else None)"
proof -
  have "be16 (unat (f ! 12)) (unat (f ! 13)) = 0x0800" using f by (simp add: udp_frame_def be16_def)
  then show ?thesis
    using parse_frame_mid [OF mm] f udp443_mid [OF assms] by (simp add: udp_frame_def strip_vlan.simps)
qed

lemma be16_inject:
  fixes a b c d :: byte
  shows "be16 (unat a) (unat b) = be16 (unat c) (unat d) \<longleftrightarrow> a = c \<and> b = d"
proof
  assume eq: "be16 (unat a) (unat b) = be16 (unat c) (unat d)"
  have "be16 (unat a) (unat b) div 256 = unat a" "be16 (unat a) (unat b) mod 256 = unat b" for a b :: byte
    by (simp_all add: be16_eq)
  with eq have "unat a = unat c" "unat b = unat d" by metis+
  then show "a = c \<and> b = d" by (simp add: word_unat_eq_iff)
qed simp

lemma ether_types:
  fixes a b :: byte
  shows "be16 (unat a) (unat b) = 0x0800 \<longleftrightarrow> a = 8 \<and> b = 0"
    and "be16 (unat a) (unat b) = 0x8100 \<longleftrightarrow> a = 0x81 \<and> b = 0"
    and "be16 (unat a) (unat b) = 0x88A8 \<longleftrightarrow> a = 0x88 \<and> b = 0xa8"
  using be16_inject [of a b 8 0] be16_inject [of a b "0x81" 0] be16_inject [of a b "0x88" "0xa8"]
  by (simp_all add: be16_eq)

lemma parse_foreign_frame:
  assumes mm: "mm = pre @ f @ post" and f: "foreign_frame f"
  shows "parse_frame mm (length pre) (length pre + length f) LT_ETHER = Inr None"
proof -
  consider (et) "14 \<le> length f" "[f ! 12, f ! 13] \<notin> {[8, 0], [0x81, 0], [0x88, 0xa8]}"
    | (ip) "34 \<le> length f" "f ! 12 = 8" "f ! 13 = 0" "f ! 14 = 0x45" "f ! 23 \<noteq> 17"
    | (port) "udp_frame f" "\<not> port443 f"
    using f by (auto simp: foreign_frame_def)
  then show ?thesis
  proof cases
    case et
    then have "be16 (unat (f ! 12)) (unat (f ! 13)) \<notin> {0x0800, 0x8100, 0x88A8}"
      by (simp add: ether_types)
    with et show ?thesis
      using parse_frame_mid [OF mm] by (simp add: strip_vlan.simps)
  next
    case ip
    have "be16 (unat (f ! 12)) (unat (f ! 13)) = 0x0800" using ip by (simp add: be16_def)
    moreover have "length mm = length pre + length f + length post" using mm by simp
    moreover have "byte_at mm (length pre + 14) = Inr 0x45" "byte_at mm (length pre + 23) = Inr (unat (f ! 23))"
      using ip mm nth_mid [OF mm, of 14] nth_mid [OF mm, of 23] by auto
    moreover have "unat (f ! 23) \<noteq> 17" using ip(5) by (simp add: word_unat_eq_iff)
    ultimately have "udp443_from_ip mm (length pre + 14) = Inr None"
      using ip by (simp add: udp443_from_ip_def Let_def add.commute [of "length pre"] del: byte_at_Inr u16_at_Inr)
    then show ?thesis
      using ip parse_frame_mid [OF mm] by (simp add: strip_vlan.simps be16_eq)
  next
    case port
    then show ?thesis using parse_udp_frame [OF mm] by simp
  qed
qed

subsection \<open>The parser of the switch\<close>

lemma be_word_append:
  "be_word (xs @ ys) = push_bit (8 * length ys) (be_word xs) OR (be_word ys :: 'a::len word)"
proof (induction ys rule: rev_induct)
  case (snoc y ys)
  have "be_word (xs @ ys @ [y]) = push_bit 8 (be_word (xs @ ys)) OR (ucast y :: 'a word)"
    using be_word_snoc [of "xs @ ys" y] by simp
  then show ?case
    by (simp add: snoc be_word_snoc push_bit_or or.assoc)
qed simp

lemma ucast_be_word:
  "8 * length bs \<le> LENGTH('b) \<Longrightarrow> ucast (be_word bs :: 'b::len word) = (be_word bs :: 'a::len word)"
  by (rule bit_word_eqI) (auto simp: bit_simps bit_be_word)

lemma be_word_2_eq_iff:
  "be_word [a, b] = (be_word [c, d] :: 16 word) \<longleftrightarrow> a = c \<and> b = d"
proof
  assume "be_word [a, b] = (be_word [c, d] :: 16 word)"
  then have "be_bytes 2 (be_word [a, b] :: 16 word) = be_bytes 2 (be_word [c, d] :: 16 word)" by simp
  then show "a = c \<and> b = d" by (simp add: be_bytes_be_word)
qed simp

lemma take_2_drop: "Suc i < length f \<Longrightarrow> take 2 (drop i f) = [f ! i, f ! Suc i]"
  by (simp add: numeral_2_eq_2 take_Suc_conv_app_nth hd_drop_conv_nth)

definition udp_headers :: "bytes \<Rightarrow> ingress_headers" where
  "udp_headers f = init_headers
     \<lparr>ethernet := Some (dec_ethernet (take 14 f)), ipv4 := Some (dec_ipv4 (take 20 (drop 14 f))),
      udp := Some (dec_udp (take 8 (drop 34 f)))\<rparr>"

lemma header_fields:
  assumes "42 \<le> length f"
  shows "ether_type (dec_ethernet (take 14 f)) = be_word [f ! 12, f ! 13]"
    and "protocol (dec_ipv4 (take 20 (drop 14 f))) = f ! 23"
    and "src_addr (dec_ipv4 (take 20 (drop 14 f))) = be_word (take 4 (drop 26 f))"
    and "dst_addr (dec_ipv4 (take 20 (drop 14 f))) = be_word (take 4 (drop 30 f))"
    and "src_port (dec_udp (take 8 (drop 34 f))) = be_word [f ! 34, f ! 35]"
    and "dst_port (dec_udp (take 8 (drop 34 f))) = be_word [f ! 36, f ! 37]"
  using assms take_2_drop [of 12 f] take_2_drop [of 34 f] take_2_drop [of 36 f]
  by (simp_all add: dec_ethernet_def dec_ipv4_def dec_udp_def Let_def drop_take)

lemma consts_be_word:
  "ETHERTYPE_IPV4 = be_word [8, 0]" "QUIC_PORT = be_word [1, 0xbb]"
  by (simp_all add: ETHERTYPE_IPV4_def QUIC_PORT_def be_word_def)

lemma IngressParser_udp:
  assumes "udp_frame f"
  shows "IngressParser f =
    (if port443 f then parse_quic_dispatch (udp_headers f, init_metadata, drop 42 f)
     else Some (udp_headers f, init_metadata, drop 42 f))"
proof -
  have len: "42 \<le> length f" using assms by (simp add: udp_frame_def)
  note h = header_fields [OF len]
  have x: "extract_bytes 14 f = Some (take 14 f, drop 14 f)"
    "extract_bytes 20 (drop 14 f) = Some (take 20 (drop 14 f), drop 34 f)"
    "extract_bytes 8 (drop 34 f) = Some (take 8 (drop 34 f), drop 42 f)"
    using len by (simp_all add: extract_bytes_def)
  show ?thesis
    using assms
    by (simp add: IngressParser_def parse_ethernet_def parse_ipv4_def parse_udp_def parse_udp_src_def x h Let_def
        consts_be_word be_word_2_eq_iff udp_frame_def port443_def IP_PROTO_UDP_def udp_headers_def)
qed

lemma tuple_bytes:
  assumes "42 \<le> length f"
  shows "take 12 (drop 26 f) = take 4 (drop 26 f) @ take 4 (drop 30 f) @ [f ! 34, f ! 35] @ [f ! 36, f ! 37]"
proof -
  have "take 12 (drop 26 f) = take (4 + (4 + (2 + 2))) (drop 26 f)" by simp
  also have "\<dots> = take 4 (drop 26 f) @ take 4 (drop 30 f) @ take 2 (drop 34 f) @ take 2 (drop 36 f)"
    by (simp only: take_add drop_drop) simp
  finally show ?thesis
    using assms take_2_drop [of 34 f] take_2_drop [of 36 f] by simp
qed

lemma tuple_of_udp_headers:
  assumes "42 \<le> length f"
    and "ipv4 hdr = ipv4 (udp_headers f)" "udp hdr = udp (udp_headers f)"
  shows "tuple_of hdr = be_word (take 12 (drop 26 f))"
proof -
  have "be_word (take 12 (drop 26 f)) =
      push_bit 64 (be_word (take 4 (drop 26 f))) OR push_bit 32 (be_word (take 4 (drop 30 f))) OR
      push_bit 16 (be_word [f ! 34, f ! 35]) OR (be_word [f ! 36, f ! 37] :: 96 word)"
    using assms(1) by (simp only: tuple_bytes be_word_append) (simp add: push_bit_or or.assoc)
  then show ?thesis
    using header_fields [OF assms(1)] assms
    by (simp add: tuple_of_def udp_headers_def ucast_be_word)
qed

lemma form_bit:
  fixes b :: byte
  shows "b AND 0x80 = 0 \<longleftrightarrow> \<not> bit b 7" and "b AND 0x80 = 0x80 \<longleftrightarrow> bit b 7"
proof -
  have e: "b AND 0x80 = (if bit b 7 then 0x80 else 0)"
    by (rule byte_eqI) (simp_all add: bit_simps)
  show "b AND 0x80 = 0 \<longleftrightarrow> \<not> bit b 7" "b AND 0x80 = 0x80 \<longleftrightarrow> bit b 7"
    by (simp_all add: e)
qed

lemma handshake_type:
  fixes b :: byte
  shows "(ucast (drop_bit 4 b) :: 2 word) = 2 \<longleftrightarrow> bit b 5 \<and> \<not> bit b 4"
proof -
  have "w = 2 \<longleftrightarrow> \<not> bit w 0 \<and> bit w 1" for w :: "2 word"
  proof -
    have "bit (2 :: 2 word) 1" "\<not> bit (2 :: 2 word) 0" by simp_all
    moreover have "w = v \<longleftrightarrow> bit w 0 = bit v 0 \<and> bit w 1 = bit v 1" for v :: "2 word"
      using bit_word_eqI [of w v] by (auto simp: less_2_cases_iff)
    ultimately show ?thesis by blast
  qed
  then show ?thesis by (auto simp: bit_simps)
qed

lemma dispatch_long:
  assumes "quic_frame f" "42 < length f" "bit (f ! 42) 7"
  shows "IngressParser f = Some (udp_headers f\<lparr>quic_long := Some (dec_quic_long (take 47 (drop 42 f)))\<rparr>,
    init_metadata\<lparr>dcid_len := f ! 47\<rparr>, drop 89 f)"
proof -
  have "drop 42 f = f ! 42 # drop 43 f"
    using assms(2) Cons_nth_drop_Suc [of 42 f] by simp
  then show ?thesis
    using assms
    by (simp add: IngressParser_udp quic_frame_def parse_quic_dispatch_def parse_quic_long_def form_bit extract_bytes_def Let_def)
      (auto simp: dec_quic_long_def)
qed

lemma view_long:
  assumes "quic_frame f" "frame p = f" "42 < length f" "bit (f ! 42) 7"
  shows "packet_view p = Some \<lparr>v_tuple = be_word (take 12 (drop 26 f)),
    v_kind = (if bit (f ! 42) 5 \<and> \<not> bit (f ! 42) 4 then Handshake else Other_Long),
    v_len = f ! 47, v_dcid = be_word (take 20 (drop 48 f))\<rparr>"
proof -
  have len: "89 \<le> length f" using assms by (simp add: quic_frame_def)
  let ?h = "dec_quic_long (take 47 (drop 42 f))"
  have q: "long_packet_type ?h = ucast (drop_bit 4 (f ! 42))" "long_dcid_len ?h = f ! 47"
    "long_dcid ?h = be_word (take 20 (drop 48 f))"
    using len by (simp_all add: dec_quic_long_def drop_take min_def)
  have t: "tuple_of (udp_headers f\<lparr>quic_long := Some ?h\<rparr>) = be_word (take 12 (drop 26 f))"
    using len by (intro tuple_of_udp_headers) simp_all
  show ?thesis
    using dispatch_long [OF assms(1,3,4)] assms(2)
    by (simp add: packet_view_def quic_view_def q t handshake_type)
qed

lemma view_short:
  assumes "quic_frame f" "frame p = f" "\<not> bit (f ! 42) 7"
  shows "packet_view p = Some \<lparr>v_tuple = be_word (take 12 (drop 26 f)), v_kind = Short,
    v_len = 0, v_dcid = be_word (take 20 (drop 43 f))\<rparr>"
proof -
  have len: "63 \<le> length f" using assms by (simp add: quic_frame_def)
  let ?h = "dec_quic_short (take 21 (drop 42 f))"
  have "drop 42 f = f ! 42 # drop 43 f"
    using len Cons_nth_drop_Suc [of 42 f] by simp
  then have "IngressParser f = Some (udp_headers f\<lparr>quic_short := Some ?h\<rparr>, init_metadata\<lparr>dcid_len := 20\<rparr>, drop 63 f)"
    using assms len
    by (simp add: IngressParser_udp quic_frame_def parse_quic_dispatch_def parse_quic_short_def form_bit extract_bytes_def Let_def)
  moreover have "short_dcid ?h = be_word (take 20 (drop 43 f))"
    using len by (simp add: dec_quic_short_def drop_take)
  moreover have "tuple_of (udp_headers f\<lparr>quic_short := Some ?h\<rparr>) = be_word (take 12 (drop 26 f))"
    using len by (intro tuple_of_udp_headers) simp_all
  ultimately show ?thesis
    using assms(2) by (simp add: packet_view_def quic_view_def udp_headers_def init_headers_def)
qed

lemma view_foreign:
  assumes "foreign_frame f" "frame p = f"
  shows "packet_view p = None"
proof -
  consider (et) "14 \<le> length f" "[f ! 12, f ! 13] \<notin> {[8, 0], [0x81, 0], [0x88, 0xa8]}"
    | (ip) "34 \<le> length f" "f ! 12 = 8" "f ! 13 = 0" "f ! 14 = 0x45" "f ! 23 \<noteq> 17"
    | (port) "udp_frame f" "\<not> port443 f"
    using assms by (auto simp: foreign_frame_def)
  then show ?thesis
  proof cases
    case et
    then have "ether_type (dec_ethernet (take 14 f)) \<noteq> ETHERTYPE_IPV4"
      using take_2_drop [of 12 f]
      by (simp add: dec_ethernet_def drop_take consts_be_word be_word_2_eq_iff)
    with et show ?thesis
      by (simp add: packet_view_def assms(2) IngressParser_def parse_ethernet_def extract_bytes_def Let_def
          init_headers_def quic_view_def)
  next
    case ip
    then have "ether_type (dec_ethernet (take 14 f)) = ETHERTYPE_IPV4"
      and "protocol (dec_ipv4 (take 20 (drop 14 f))) \<noteq> IP_PROTO_UDP"
      using take_2_drop [of 12 f]
      by (simp_all add: dec_ethernet_def dec_ipv4_def Let_def drop_take consts_be_word IP_PROTO_UDP_def)
    with ip show ?thesis
      by (simp add: packet_view_def assms(2) IngressParser_def parse_ethernet_def parse_ipv4_def extract_bytes_def
          Let_def init_headers_def quic_view_def)
  next
    case port
    then show ?thesis
      by (simp add: packet_view_def assms(2) IngressParser_udp udp_headers_def init_headers_def quic_view_def)
  qed
qed

section \<open>One packet, classified by both sides\<close>

text \<open>The connection ID of a frame for a given Short-header length.\<close>

definition is_long :: "bytes \<Rightarrow> bool" where
  "is_long f \<longleftrightarrow> bit (f ! 42) 7"

definition is_hs :: "bytes \<Rightarrow> bool" where
  "is_hs f \<longleftrightarrow> bit (f ! 42) 7 \<and> bit (f ! 42) 5 \<and> \<not> bit (f ! 42) 4"

definition frame_cid :: "nat \<Rightarrow> bytes \<Rightarrow> bytes" where
  "frame_cid L f = (if is_long f then take (unat (f ! 47)) (drop 48 f) else take L (drop 43 f))"

text \<open>The length that the last Handshake frame of a list announced on a 4-tuple.\<close>

definition announced :: "tuple4 \<Rightarrow> bytes list \<Rightarrow> nat" where
  "announced k fs =
     foldl (\<lambda>l f. if quic_frame f \<and> is_hs f \<and> tuple_key f = k then unat (f ! 47) else l) 0 fs"

definition row_of :: "bytes \<Rightarrow> bytes \<Rightarrow> row" where
  "row_of f post = (let (s, d, sp, dp) = tuple_key f in (s, d, sp, dp, take 32 (drop 42 (f @ post))))"

lemma nat_form_bit: "unat (b :: byte) AND 0x80 = 0 \<longleftrightarrow> \<not> bit b 7"
proof -
  have "unat b AND 0x80 = unat (b AND 0x80)" by (simp add: unsigned_and_eq)
  then show ?thesis using form_bit(1) [of b] by (simp add: word_unat_eq_iff)
qed

lemma nat_handshake: "unat (b :: byte) AND 0xB0 = 0xA0 \<longleftrightarrow> bit b 7 \<and> bit b 5 \<and> \<not> bit b 4"
proof -
  have "unat b AND 0xB0 = unat (b AND 0xB0)" by (simp add: unsigned_and_eq)
  moreover have "unat (b AND 0xB0) = 0xA0 \<longleftrightarrow> b AND 0xB0 = 0xA0" by (simp add: word_unat_eq_iff)
  moreover have "b AND 0xB0 = 0xA0 \<longleftrightarrow> bit b 7 \<and> bit b 5 \<and> \<not> bit b 4"
  proof
    assume eq: "b AND 0xB0 = 0xA0"
    have "bit (b AND 0xB0) k = bit (0xA0 :: byte) k" for k using eq by simp
    from this [of 7] this [of 5] this [of 4] show "bit b 7 \<and> bit b 5 \<and> \<not> bit b 4" by (simp add: bit_simps)
  next
    assume "bit b 7 \<and> bit b 5 \<and> \<not> bit b 4"
    then show "b AND 0xB0 = 0xA0" by (intro byte_eqI) (simp_all add: bit_simps)
  qed
  ultimately show ?thesis by simp
qed

lemma quic_frame_len:
  assumes "quic_frame f"
  shows "63 \<le> length f" and "is_long f \<Longrightarrow> 89 \<le> length f \<and> unat (f ! 47) \<le> 20"
  using assms by (auto simp: quic_frame_def is_long_def split: if_splits)

lemma learn_row_of:
  assumes "quic_frame f"
  shows "learn_row d (row_of f post) = (if is_hs f then AList.update (tuple_key f) (unat (f ! 47)) d else d)"
  using quic_frame_len [OF assms]
  by (auto simp: learn_row_def row_of_def tuple_key_def Let_def nat_handshake is_hs_def nth_append)

lemma classify_row_of:
  assumes "quic_frame f" "dget d (tuple_key f) 0 = L" "L \<le> 20"
  shows "\<exists>k. classify d (row_of f post) = Some (frame_cid L f, k)"
  using quic_frame_len [OF assms(1)] assms(2,3)
  by (auto simp: classify_def row_of_def tuple_key_def Let_def nat_form_bit frame_cid_def is_long_def nth_append
      py_slice_def drop_take split: option.split)

section \<open>A whole capture\<close>

fun capture_rows :: "(64 word \<times> bytes) list \<Rightarrow> row list" where
  "capture_rows [] = []"
| "capture_rows (r # rs) =
     (if quic_frame (snd r) then [row_of (snd r) (concat (map pcap_record rs))] else []) @ capture_rows rs"

definition known_frame :: "bytes \<Rightarrow> bool" where
  "known_frame f \<longleftrightarrow> length f < 2 ^ 32 \<and> (quic_frame f \<or> foreign_frame f)"

lemma quic_not_foreign: "quic_frame f \<Longrightarrow> \<not> foreign_frame f"
  by (auto simp: quic_frame_def foreign_frame_def udp_frame_def)

lemma frame_rows_known:
  "\<forall>r \<in> set recs. known_frame (snd r) \<Longrightarrow>
     mapE (\<lambda>xs. concat (map (\<lambda>x. opt_cons x []) xs)) (frame_rows pre recs) = Inr (capture_rows recs)"
proof (induction recs arbitrary: pre)
  case (Cons r recs)
  let ?f = "snd r" and ?post = "concat (map pcap_record recs)"
  let ?pre = "pre @ be_bytes 8 (fst r) @ le_bytes 4 (length ?f) @ le_bytes 4 (length ?f)"
  let ?mm = "pre @ concat (map pcap_record (r # recs))"
  have mm: "?mm = ?pre @ ?f @ ?post" and len: "length ?pre = length pre + 16"
    by (simp_all add: pcap_record_def)
  have "parse_frame ?mm (length ?pre) (length ?pre + length ?f) LT_ETHER =
      Inr (if quic_frame ?f then Some (row_of ?f ?post) else None)"
  proof (cases "quic_frame ?f")
    case True
    then have "udp_frame ?f" "port443 ?f" by (simp_all add: quic_frame_def)
    then show ?thesis using True parse_udp_frame [OF mm] by (simp add: row_of_def)
  next
    case False
    with Cons.prems have "foreign_frame ?f" by (simp add: known_frame_def)
    then show ?thesis using False parse_foreign_frame [OF mm] by simp
  qed
  then have "frame_rows pre (r # recs) = mapE (Cons (if quic_frame ?f then Some (row_of ?f ?post) else None))
      (frame_rows (pre @ pcap_record r) recs)"
    unfolding frame_rows.simps Let_def len [symmetric] by simp
  with Cons show ?case
    by (auto simp: mapE_mapE comp_def opt_cons_def mapE_eq_Inr_iff simp del: frame_rows.simps)
qed simp

lemma capture_rows_file:
  assumes "\<forall>r \<in> set recs. known_frame (snd r)"
  shows "rows (pcap_file recs) = Inr (capture_rows recs)"
  using rows_pcap_file [of recs] frame_rows_known [OF assms] assms by (simp add: known_frame_def)

lemma announced_snoc:
  "announced k (fs @ [f]) = (if quic_frame f \<and> is_hs f \<and> tuple_key f = k then unat (f ! 47) else announced k fs)"
  by (simp add: announced_def)

lemma announced_le: "announced k fs \<le> 20"
proof (induction fs rule: rev_induct)
  case (snoc f fs)
  have "quic_frame f \<Longrightarrow> is_hs f \<Longrightarrow> unat (f ! 47) \<le> 20"
    using quic_frame_len [of f] by (simp add: is_hs_def is_long_def)
  with snoc show ?case by (simp add: announced_snoc)
qed (simp add: announced_def)

lemma foldl_learn_capture:
  "dget (foldl learn_row d (capture_rows recs)) k 0 =
     foldl (\<lambda>l f. if quic_frame f \<and> is_hs f \<and> tuple_key f = k then unat (f ! 47) else l) (dget d k 0) (map snd recs)"
  by (induction recs arbitrary: d) (auto simp: learn_row_of dget_update)

lemma learn_phase_capture: "dget (learn_phase (capture_rows recs)) k 0 = announced k (map snd recs)"
  by (simp add: learn_phase_def foldl_learn_capture announced_def)

lemma events_Cons:
  "events L (r # rs) = (case classify L r of None \<Rightarrow> [] | Some e \<Rightarrow> [e]) @ events L rs"
  by (simp add: events_def split: option.split)

lemma events_capture:
  assumes "\<forall>k. dget d k 0 \<le> 20"
  shows "map fst (events d (capture_rows recs)) =
    map (\<lambda>f. frame_cid (dget d (tuple_key f) 0) f) [f \<leftarrow> map snd recs. quic_frame f]
    \<and> length (events d (capture_rows recs)) = length (capture_rows recs)"
proof (induction recs)
  case (Cons r recs)
  show ?case
  proof (cases "quic_frame (snd r)")
    case True
    then obtain k where "classify d (row_of (snd r) (concat (map pcap_record recs))) =
        Some (frame_cid (dget d (tuple_key (snd r)) 0) (snd r), k)"
      using classify_row_of assms by blast
    with True Cons show ?thesis by (simp add: events_Cons)
  qed (use Cons in simp)
qed simp

section \<open>A whole run\<close>

text \<open>What the switch hashes, packet by packet: lengths are those announced so far.\<close>

fun online_cids :: "(tuple4 \<Rightarrow> nat) \<Rightarrow> bytes list \<Rightarrow> bytes list" where
  "online_cids R [] = []"
| "online_cids R (f # fs) =
     (if quic_frame f then
        frame_cid (R (tuple_key f)) f # online_cids (if is_hs f then R(tuple_key f := unat (f ! 47)) else R) fs
      else online_cids R fs)"

text \<open>
  The hash of the target for the bucket index: the low 17 bits of the CRC32 of the 20 bytes,
  with the parameters of \<^verbatim>\<open>zlib\<close>.
\<close>

definition crc_parity :: "hashes \<Rightarrow> bool" where
  "crc_parity hs \<longleftrightarrow> (\<forall>d. dcid_hash hs d = word_of_nat (bucket (be_bytes 20 d)))"

definition tuple_word :: "bytes \<Rightarrow> 96 word" where
  "tuple_word f = be_word (take 12 (drop 26 f))"

lemma tuple_word_eq_iff:
  assumes "42 \<le> length f" "42 \<le> length g"
  shows "tuple_word f = tuple_word g \<longleftrightarrow> tuple_key f = tuple_key g"
proof -
  have "be_bytes 12 (tuple_word x) = take 12 (drop 26 x)" if "42 \<le> length x" for x
    using that by (simp add: tuple_word_def be_bytes_be_word)
  then have "tuple_word f = tuple_word g \<longleftrightarrow> take 12 (drop 26 f) = take 12 (drop 26 g)"
    using assms by (metis tuple_word_def)
  also have "\<dots> \<longleftrightarrow> tuple_key f = tuple_key g"
    unfolding tuple_bytes [OF assms(1)] tuple_bytes [OF assms(2)]
    using assms by (auto simp: tuple_key_def be16_inject)
  finally show ?thesis .
qed

lemma masked_bucket:
  assumes "crc_parity hs" "length b = 20" "L \<le> 20"
  shows "dcid_hash hs (mask_tbl (word_of_nat L) (be_word b)) = word_of_nat (bucket (take L b))"
proof -
  have "take L b @ replicate (20 - L) 0 = pad20 (take L b)"
    using assms(2,3) by (simp add: pad20_def)
  then have "be_bytes 20 (mask_tbl (word_of_nat L) (be_word b)) = pad20 (take L b)"
    using assms(2,3) by (simp add: mask_tbl_be_word be_bytes_be_word)
  then show ?thesis using assms(1) by (simp add: crc_parity_def)
qed

definition tracks :: "hashes \<Rightarrow> switch \<Rightarrow> (tuple4 \<Rightarrow> nat) \<Rightarrow> bytes list \<Rightarrow> bool" where
  "tracks hs sw R fs \<longleftrightarrow> cfg_force_len sw = 0 \<and>
     (\<forall>f \<in> set fs. quic_frame f \<longrightarrow> R (tuple_key f) \<le> 20 \<and>
        dcid_len_reg sw (flow_hash hs (tuple_word f)) = word_of_nat (R (tuple_key f)))"

text \<open>The view of a QUIC frame.\<close>

definition frame_view :: "bytes \<Rightarrow> view" where
  "frame_view f =
     (if is_long f then
        \<lparr>v_tuple = tuple_word f, v_kind = (if is_hs f then Handshake else Other_Long),
         v_len = f ! 47, v_dcid = be_word (take 20 (drop 48 f))\<rparr>
      else \<lparr>v_tuple = tuple_word f, v_kind = Short, v_len = 0, v_dcid = be_word (take 20 (drop 43 f))\<rparr>)"

lemma packet_view_known:
  assumes "known_frame (frame p)"
  shows "packet_view p = (if quic_frame (frame p) then Some (frame_view (frame p)) else None)"
  using assms view_foreign [OF _ refl, of p] view_long [OF _ refl, of p] view_short [OF _ refl, of p]
    quic_frame_len [of "frame p"]
  by (auto simp: known_frame_def frame_view_def is_long_def is_hs_def tuple_word_def)

lemma view_bucket_online:
  assumes "crc_parity hs" "quic_frame f" "tracks hs sw R (f # fs)"
  shows "view_bucket hs sw (frame_view f) = word_of_nat (bucket (frame_cid (R (tuple_key f)) f))"
proof -
  have len: "63 \<le> length f" "is_long f \<Longrightarrow> 89 \<le> length f \<and> unat (f ! 47) \<le> 20"
    using quic_frame_len [OF assms(2)] .
  show ?thesis
  proof (cases "is_long f")
    case True
    then have "view_len hs sw (frame_view f) = word_of_nat (unat (f ! 47))"
      using assms(3) by (simp add: view_len_def tracks_def frame_view_def)
    with True show ?thesis
      using len masked_bucket [OF assms(1), of "take 20 (drop 48 f)" "unat (f ! 47)"]
      by (auto simp: view_bucket_def frame_cid_def frame_view_def min_def)
  next
    case False
    then have "view_len hs sw (frame_view f) = word_of_nat (R (tuple_key f))" and "R (tuple_key f) \<le> 20"
      using assms by (simp_all add: view_len_def tracks_def frame_view_def)
    with False show ?thesis
      using len masked_bucket [OF assms(1), of "take 20 (drop 43 f)" "R (tuple_key f)"]
      by (simp add: view_bucket_def frame_cid_def frame_view_def min.absorb1 min.absorb2)
  qed
qed

lemma tracks_observe:
  assumes "tracks hs sw R (f # fs)" "quic_frame f"
    and "inj_on (flow_hash hs) (tuple_word ` {g \<in> set (f # fs). quic_frame g})"
  shows "tracks hs (observe hs (n, frame_view f) sw)
    (if is_hs f then R(tuple_key f := unat (f ! 47)) else R) fs"
proof -
  have key: "flow_hash hs (tuple_word g) = flow_hash hs (tuple_word f) \<longleftrightarrow> tuple_key g = tuple_key f"
    if "g \<in> set fs" "quic_frame g" for g
  proof -
    have "flow_hash hs (tuple_word g) = flow_hash hs (tuple_word f) \<longleftrightarrow> tuple_word g = tuple_word f"
      using that assms(2) by (intro inj_on_eq_iff [OF assms(3)]) auto
    then show ?thesis
      using tuple_word_eq_iff [of g f] quic_frame_len(1) [OF that(2)] quic_frame_len(1) [OF assms(2)] by simp
  qed
  have hs: "is_hs f \<Longrightarrow> is_long f" by (simp add: is_hs_def is_long_def)
  show ?thesis
    using assms(1) key hs quic_frame_len(2) [OF assms(2)]
    by (auto simp: tracks_def learn_def frame_view_def)
qed

lemma buckets_online:
  assumes "crc_parity hs" "\<forall>p \<in> set ps. known_frame (frame p)" "tracks hs sw R (map frame ps)"
    and "inj_on (flow_hash hs) (tuple_word ` {g \<in> set (map frame ps). quic_frame g})"
  shows "map snd (buckets hs (views ps) sw) = map (word_of_nat \<circ> bucket) (online_cids R (map frame ps))"
  using assms(2-4)
proof (induction ps arbitrary: sw R)
  case (Cons p ps)
  let ?f = "frame p"
  have inj: "inj_on (flow_hash hs) (tuple_word ` {g \<in> set (map frame ps). quic_frame g})"
    using Cons.prems(3) by (rule inj_on_subset) auto
  show ?case
  proof (cases "quic_frame ?f")
    case True
    have "tracks hs (observe hs (wire_len p, frame_view ?f) sw)
        (if is_hs ?f then R(tuple_key ?f := unat (?f ! 47)) else R) (map frame ps)"
      using tracks_observe [OF _ True, of hs sw R "map frame ps"] Cons.prems by simp
    from Cons.IH [OF _ this inj] Cons.prems True show ?thesis
      using view_bucket_online [OF assms(1) True, of sw R "map frame ps"]
      by (simp add: packet_view_known)
  next
    case False
    have "tracks hs sw R (map frame ps)" using Cons.prems(2) by (simp add: tracks_def)
    from Cons.IH [OF _ this inj] Cons.prems False show ?thesis
      by (simp add: packet_view_known)
  qed
qed simp

section \<open>Both sides agree\<close>

text \<open>
  Handshakes come first: no Handshake packet after a Short-header packet changes the length
  announced on its 4-tuple.
\<close>

definition settled :: "bytes list \<Rightarrow> bool" where
  "settled fs \<longleftrightarrow>
     (\<forall>i < length fs. quic_frame (fs ! i) \<and> \<not> is_long (fs ! i) \<longrightarrow>
        announced (tuple_key (fs ! i)) (take i fs) = announced (tuple_key (fs ! i)) fs)"

lemma online_settled:
  assumes "settled (pre @ fs)"
  shows "online_cids (\<lambda>k. announced k pre) fs =
    map (\<lambda>f. frame_cid (announced (tuple_key f) (pre @ fs)) f) [f \<leftarrow> fs. quic_frame f]"
  using assms
proof (induction fs arbitrary: pre)
  case (Cons f fs)
  have R: "(if is_hs f then (\<lambda>k. announced k pre)(tuple_key f := unat (f ! 47)) else (\<lambda>k. announced k pre)) =
      (\<lambda>k. announced k (pre @ [f]))" if "quic_frame f"
    using that by (auto simp: fun_eq_iff announced_snoc)
  have R': "(\<lambda>k. announced k pre) = (\<lambda>k. announced k (pre @ [f]))" if "\<not> quic_frame f"
    using that by (simp add: announced_snoc)
  have cid: "frame_cid (announced (tuple_key f) pre) f = frame_cid (announced (tuple_key f) (pre @ f # fs)) f"
    if "quic_frame f"
  proof (cases "is_long f")
    case False
    then show ?thesis
      using Cons.prems that unfolding settled_def
      by (auto dest!: spec [of _ "length pre"])
  qed (simp add: frame_cid_def)
  show ?case
    using Cons.IH [of "pre @ [f]"] Cons.prems R R' cid by simp
qed simp

lemma word_17_eq_iff: "m < 2 ^ 17 \<Longrightarrow> word_of_nat m = (b :: 17 word) \<longleftrightarrow> m = unat b"
  by (auto simp: word_unat_eq_iff unat_of_nat)

lemma offline_switch_agree:
  assumes "crc_parity hs"
    and "\<forall>p \<in> set ps. known_frame (frame p)" "length ps < 2 ^ 32"
    and "inj_on (flow_hash hs) (tuple_word ` {g \<in> set (map frame ps). quic_frame g})"
    and "settled (map frame ps)" "map snd recs = map frame ps"
  shows "\<exists>a. run_phases (pcap_file recs) (choose_jobs jobs cpus) = Inr (a, 0) \<and>
    (\<forall>b. unat (quic_pkt_count (snd (run_pipe hs ps empty_switch)) b) = dget (bucket_pkts a) (unat b) 0) \<and>
    fst ` set (bucket_pkts a) = unat ` {b. quic_pkt_count (snd (run_pipe hs ps empty_switch)) b \<noteq> 0}"
proof -
  let ?fs = "map frame ps" and ?rs = "capture_rows recs" and ?es = "views ps"
  let ?evs = "events (learn_phase ?rs) ?rs" and ?a = "acc_of (events (learn_phase ?rs) ?rs)"
  have known: "\<forall>r \<in> set recs. known_frame (snd r)"
    using assms(2,6) by (metis (no_types, lifting) image_eqI image_iff list.set_map)
  have ev: "map fst ?evs = map (\<lambda>f. frame_cid (announced (tuple_key f) ?fs) f) [f \<leftarrow> ?fs. quic_frame f]"
    and len: "length ?evs = length ?rs"
    using events_capture [of "learn_phase ?rs" recs] assms(6) by (simp_all add: learn_phase_capture announced_le)
  have cids: "map fst ?evs = online_cids (\<lambda>k. 0) ?fs"
    using online_settled [of "[]" ?fs] assms(5) ev by (simp add: announced_def)
  have run: "run_phases (pcap_file recs) (choose_jobs jobs cpus) = Inr (?a, 0)"
    using bucket_phase_acc_of [of ?rs "learn_phase ?rs"] len
    by (simp add: run_phases_rows serial_phases_def capture_rows_file [OF known])
  have "tracks hs empty_switch (\<lambda>k. 0) ?fs" by (simp add: tracks_def)
  from buckets_online [OF assms(1,2) this assms(4)]
  have bs: "map snd (buckets hs ?es empty_switch) = map (word_of_nat \<circ> bucket) (map fst ?evs)"
    by (simp only: cids)
  have "length ?es < 2 ^ 32" using assms(3) length_views [of ps] by linarith
  then have cnt: "unat (quic_pkt_count (snd (run_pipe hs ps empty_switch)) b) = dget (bucket_pkts ?a) (unat b) 0" for b
    using run_count_unat [OF empty_switch_simps(1), where es = ?es and b = b and hs = hs]
    by (simp add: run_pipe_state acc_of_values bs filter_map comp_def word_17_eq_iff [OF bucket_less] del: map_map)
  have "fst ` set (bucket_pkts ?a) = unat ` {b :: 17 word. \<exists>e \<in> set ?evs. bucket (fst e) = unat b}"
  proof -
    have "\<exists>b :: 17 word. bucket c = unat b" for c
      using bucket_less [of c] by (intro exI [of _ "word_of_nat (bucket c)"]) (simp add: unat_of_nat)
    then show ?thesis by (force simp: acc_of_keys image_iff)
  qed
  also have "\<dots> = unat ` {b. quic_pkt_count (snd (run_pipe hs ps empty_switch)) b \<noteq> 0}"
  proof -
    have "(\<exists>e \<in> set ?evs. bucket (fst e) = unat b) \<longleftrightarrow> quic_pkt_count (snd (run_pipe hs ps empty_switch)) b \<noteq> 0" for b
    proof -
      have "quic_pkt_count (snd (run_pipe hs ps empty_switch)) b \<noteq> 0 \<longleftrightarrow> dget (bucket_pkts ?a) (unat b) 0 \<noteq> 0"
        using cnt [of b] by (simp add: word_unat_eq_iff)
      then show ?thesis by (auto simp: acc_of_values filter_empty_conv)
    qed
    then show ?thesis by simp
  qed
  finally show ?thesis using run cnt by blast
qed

end
