(* ===== verification/Control_Plane.thy ===== *)
theory Control_Plane
  imports Switch_Runs Offline_Buckets "HOL-Library.Multiset"
begin

text \<open>
  The scripts that run in the control-plane shell of the switch (\<^verbatim>\<open>bfrt_python/\<close>): loading
  the tables, selecting the arm of the experiment, clearing the registers, and reading them
  out. The object \<^verbatim>\<open>bfrt\<close> belongs to the vendor's runtime; it is the parameter \<open>bfrt\<close>, a
  record of the operations the scripts call on a device state of any type. What the scripts
  rely on is stated in two locales: \<open>bfrt_device\<close>, each operation changes exactly the table or register it
  names, and \<open>bfrt_reads\<close>, a sync copies the hardware cells of a table to software and a read returns one entry per
  cell whose per-pipe values add up to the cell, of the hardware or of the copy. Both are
  interpreted on a device made of the state of the data plane and of its software copies.
\<close>

section \<open>The runtime interface\<close>

text \<open>A data field of an entry: a number, a per-pipe list, or a dictionary.\<close>

datatype raw = RDict "(string, int) dict" | RList "int list" | RNum int

record entry =
  ent_key :: "(string, int) dict"
  ent_data :: "(string, raw) dict"

record 'd bfrt =
  fwd_clear :: "'d \<Rightarrow> 'd"
  fwd_add :: "nat \<Rightarrow> nat \<Rightarrow> 'd \<Rightarrow> 'd"
  cfg_set_default :: "nat \<Rightarrow> 'd \<Rightarrow> 'd"
  count_clear :: "'d \<Rightarrow> 'd"
  bytes_clear :: "'d \<Rightarrow> 'd"
  len_clear :: "'d \<Rightarrow> 'd"
  complete_operations :: "'d \<Rightarrow> 'd"
  callback_deregister :: "'d \<Rightarrow> 'd option"
  callback_register :: "'d \<Rightarrow> 'd"
  count_sync :: "'d \<Rightarrow> 'd"
  bytes_sync :: "'d \<Rightarrow> 'd"
  len_sync :: "'d \<Rightarrow> 'd"
  count_dump :: "'d \<Rightarrow> entry list"
  count_get :: "'d \<Rightarrow> entry list option"
  len_get :: "'d \<Rightarrow> entry list option"
  bytes_get :: "'d \<Rightarrow> entry list"

section \<open>Loading and configuring\<close>

definition setup_tables :: "'d bfrt \<Rightarrow> 'd \<Rightarrow> 'd" where
  "setup_tables b d =
     (let d1 = fwd_clear b d;
          d2 = fwd_add b 136 128 d1;
          d3 = fwd_add b 128 136 d2;
          d4 = complete_operations b d3;
          d5 = cfg_set_default b 0 d4;
          d6 = (case callback_deregister b d5 of None \<Rightarrow> d5 | Some d' \<Rightarrow> d')
      in callback_register b d6)"

definition set_aware :: "'d bfrt \<Rightarrow> 'd \<Rightarrow> 'd" where
  "set_aware b d = complete_operations b (cfg_set_default b 0 d)"

definition set_naive :: "'d bfrt \<Rightarrow> 'd \<Rightarrow> 'd" where
  "set_naive b d = complete_operations b (cfg_set_default b 20 d)"

definition set_force8 :: "'d bfrt \<Rightarrow> 'd \<Rightarrow> 'd" where
  "set_force8 b d = complete_operations b (cfg_set_default b 8 d)"

definition reset_counts :: "'d bfrt \<Rightarrow> 'd \<Rightarrow> 'd" where
  "reset_counts b d = complete_operations b (len_clear b (bytes_clear b (count_clear b d)))"

section \<open>Reading the packet register\<close>

definition REG_INDEX :: string where "REG_INDEX = ''$REGISTER_INDEX''"
definition DATA_FIELD :: string where "DATA_FIELD = ''Ingress.quic_pkt_count.f1''"
definition MIN_COUNT :: int where "MIN_COUNT = 0"

text \<open>
  \<^verbatim>\<open>sum(vals) if isinstance(vals, (list, tuple)) else vals\<close>: a dictionary fails in the
  comparison, or in \<^verbatim>\<open>int\<close>, that follows.
\<close>

definition reg_total :: "raw \<Rightarrow> int result" where
  "reg_total vals = (case vals of RList vs \<Rightarrow> Inr (sum_list vs) | RNum n \<Rightarrow> Inr n | RDict _ \<Rightarrow> Inl TypeError)"

definition pairs_step :: "(int \<times> int) list \<Rightarrow> entry \<Rightarrow> (int \<times> int) list result" where
  "pairs_step pairs e =
     bindE (dlookup (ent_key e) REG_INDEX) (\<lambda>idx.
       bindE (dlookup (ent_data e) DATA_FIELD) (\<lambda>vals.
         bindE (reg_total vals) (\<lambda>tot.
           Inr (if tot \<ge> MIN_COUNT \<and> tot > 0 then pairs @ [(idx, tot)] else pairs))))"

definition buckets_csv :: "(int \<times> int) list \<Rightarrow> string" where
  "buckets_csv pairs =
     ''bucket,pkts'' @ [CHR 0x0A] @
     concat (map (\<lambda>(idx, tot). dec_int idx @ '','' @ dec_int tot @ [CHR 0x0A]) pairs)"

text \<open>\<^verbatim>\<open>dump_buckets.py\<close>: the pairs it prints and the contents of the CSV file it writes.\<close>

definition dump_buckets :: "'d bfrt \<Rightarrow> 'd \<Rightarrow> ((int \<times> int) list \<times> string) result" where
  "dump_buckets b d =
     (let ents = count_dump b (count_sync b d) in
      bindE (foldE pairs_step [] ents) (\<lambda>pairs0.
        let pairs = sort_key fst pairs0 in Inr (pairs, buckets_csv pairs)))"

text \<open>\<^verbatim>\<open>count_buckets.py\<close>; the argument is the environment variable \<^verbatim>\<open>MIN_COUNT\<close>.\<close>

definition env_min_count :: "string option \<Rightarrow> int" where
  "env_min_count env = (case py_int (case env of None \<Rightarrow> ''0'' | Some s \<Rightarrow> s) of Inl _ \<Rightarrow> 0 | Inr n \<Rightarrow> n)"

definition nonzero_step :: "string \<Rightarrow> (int \<times> int) list \<Rightarrow> entry \<Rightarrow> (int \<times> int) list" where
  "nonzero_step field nonzero e =
     (case bindE (dlookup (ent_key e) REG_INDEX) (\<lambda>idx.
             bindE (dlookup (ent_data e) field) (\<lambda>vals.
               mapE (Pair idx) (reg_total vals))) of
        Inl _ \<Rightarrow> nonzero
      | Inr (idx, tot) \<Rightarrow> if tot > 0 then nonzero @ [(idx, tot)] else nonzero)"

record snapshot =
  nonzero_raw :: "(int \<times> int) list"
  buckets_used :: "(int \<times> int) list"
  shown_rows :: "(int \<times> int) list"
  hidden_rows :: nat

definition count_buckets :: "'d bfrt \<Rightarrow> string option \<Rightarrow> 'd \<Rightarrow> snapshot result" where
  "count_buckets b env d =
     (case count_get b (count_sync b d) of
        None \<Rightarrow> Inl (SysExit ''1'')
      | Some entries \<Rightarrow>
          (let nonzero = foldl (nonzero_step DATA_FIELD) [] entries;
               filtered = sort_key (\<lambda>x. - snd x) (filter (\<lambda>(idx, tot). tot \<ge> env_min_count env) nonzero)
           in Inr \<lparr>nonzero_raw = nonzero, buckets_used = filtered, shown_rows = take 25 filtered,
                   hidden_rows = length filtered - 25\<rparr>))"

text \<open>\<^verbatim>\<open>count_lens.py\<close>: the non-zero cells of the length register and the distinct lengths.\<close>

definition LEN_FIELD :: string where "LEN_FIELD = ''Ingress.dcid_len_reg.f1''"

definition count_lens :: "'d bfrt \<Rightarrow> 'd \<Rightarrow> ((int \<times> int) list \<times> int list) result" where
  "count_lens b d =
     (case len_get b (len_sync b d) of
        None \<Rightarrow> Inl (SysExit ''1'')
      | Some entries \<Rightarrow>
          (let nonzero = sort_key fst (foldl (nonzero_step LEN_FIELD) [] entries)
           in Inr (nonzero, sort (remdups (map snd nonzero)))))"

section \<open>Reading the byte counter\<close>

definition CTR_INDEX :: string where "CTR_INDEX = ''$COUNTER_INDEX''"
definition PKT_NAMES :: "string list" where
  "PKT_NAMES = [''$COUNTER_SPEC_PKTS'', ''$COUNTER_SPEC_PKT_COUNT'']"
definition BYTE_NAMES :: "string list" where
  "BYTE_NAMES = [''$COUNTER_SPEC_BYTES'', ''$COUNTER_SPEC_BYTE_COUNT'']"

definition MIN_BYTES :: int where "MIN_BYTES = 0"

definition sum_raw :: "raw \<Rightarrow> int" where
  "sum_raw r = (case r of RDict d \<Rightarrow> sum_list (dvalues d) | RList vs \<Rightarrow> sum_list vs | RNum n \<Rightarrow> n)"

definition pick_field :: "(string, raw) dict \<Rightarrow> string list \<Rightarrow> string option" where
  "pick_field data names = find (\<lambda>n. n \<in> fst ` set data) names"

definition bytes_step :: "(int \<times> int \<times> int) list \<Rightarrow> entry \<Rightarrow> (int \<times> int \<times> int) list result" where
  "bytes_step ctr_rows e =
     bindE (dlookup (ent_key e) CTR_INDEX) (\<lambda>idx.
       let field = (\<lambda>names. case pick_field (ent_data e) names of
                       None \<Rightarrow> Inr 0
                     | Some n \<Rightarrow> mapE sum_raw (dlookup (ent_data e) n))
       in bindE (field PKT_NAMES) (\<lambda>pkts.
            bindE (field BYTE_NAMES) (\<lambda>byts.
              Inr (if byts \<ge> MIN_BYTES \<and> (pkts > 0 \<or> byts > 0) then ctr_rows @ [(idx, pkts, byts)] else ctr_rows))))"

definition bytes_csv :: "(int \<times> int \<times> int) list \<Rightarrow> string" where
  "bytes_csv ctr_rows =
     ''bucket,pkts,bytes'' @ [CHR 0x0A] @
     concat (map (\<lambda>(idx, pkts, byts). dec_int idx @ '','' @ dec_int pkts @ '','' @ dec_int byts @ [CHR 0x0A]) ctr_rows)"

definition dump_bytes :: "'d bfrt \<Rightarrow> 'd \<Rightarrow> ((int \<times> int \<times> int) list \<times> string) result" where
  "dump_bytes b d =
     bindE (foldE bytes_step [] (bytes_get b (bytes_sync b d))) (\<lambda>acc_rows.
       let ctr_rows = sort_key fst acc_rows in Inr (ctr_rows, bytes_csv ctr_rows))"


section \<open>What the scripts rely on\<close>

text \<open>
  A read of a register with \<open>n\<close> cells: one entry per cell, in any order, whose index is the
  cell and whose data field is the list of the pipes' values, which add up to the cell.
\<close>

definition register_entries :: "string \<Rightarrow> nat \<Rightarrow> (nat \<Rightarrow> nat) \<Rightarrow> entry list \<Rightarrow> bool" where
  "register_entries field n f ents \<longleftrightarrow>
     (\<exists>is. distinct is \<and> set is = {..<n} \<and>
        list_all2 (\<lambda>e i. map_of (ent_key e) REG_INDEX = Some (int i) \<and>
          (\<exists>vs. map_of (ent_data e) field = Some (RList vs) \<and> sum_list vs = int (f i))) ents is)"

definition counter_entries :: "nat \<Rightarrow> (nat \<Rightarrow> nat \<times> nat) \<Rightarrow> entry list \<Rightarrow> bool" where
  "counter_entries n f ents \<longleftrightarrow>
     (\<exists>is. distinct is \<and> set is = {..<n} \<and>
        list_all2 (\<lambda>e i. map_of (ent_key e) CTR_INDEX = Some (int i) \<and>
          (\<exists>pn bn vs ws. pn \<in> set PKT_NAMES \<and> bn \<in> set BYTE_NAMES \<and>
             ent_data e = [(pn, RList vs), (bn, RList ws)] \<and>
             sum_list vs = int (fst (f i)) \<and> sum_list ws = int (snd (f i)))) ents is)"

definition pkt_cell :: "switch \<Rightarrow> nat \<Rightarrow> nat" where
  "pkt_cell sw i = unat (quic_pkt_count sw (word_of_nat i))"

definition len_cell :: "switch \<Rightarrow> nat \<Rightarrow> nat" where
  "len_cell sw i = unat (dcid_len_reg sw (word_of_nat i))"

definition byte_cell :: "switch \<Rightarrow> nat \<Rightarrow> nat \<times> nat" where
  "byte_cell sw i = (unat (ctr_pkts (quic_flow_bytes sw (word_of_nat i))),
                     unat (ctr_bytes (quic_flow_bytes sw (word_of_nat i))))"

section \<open>Reading and writing\<close>

lemma dlookup_Some [simp]: "map_of d k = Some v \<Longrightarrow> dlookup d k = Inr v"
  by (simp add: dlookup_def)

lemma foldE_pairs_step:
  assumes "list_all2 (\<lambda>e i. map_of (ent_key e) REG_INDEX = Some (int i) \<and>
      (\<exists>vs. map_of (ent_data e) DATA_FIELD = Some (RList vs) \<and> sum_list vs = int (f i))) ents is"
  shows "foldE pairs_step acc ents = Inr (acc @ map (\<lambda>i. (int i, int (f i))) [i \<leftarrow> is. 0 < f i])"
  using assms
  by (induction ents "is" arbitrary: acc rule: list_all2_induct)
    (auto simp: pairs_step_def reg_total_def MIN_COUNT_def)

lemma foldl_nonzero_step:
  assumes "list_all2 (\<lambda>e i. map_of (ent_key e) REG_INDEX = Some (int i) \<and>
      (\<exists>vs. map_of (ent_data e) field = Some (RList vs) \<and> sum_list vs = int (f i))) ents is"
  shows "foldl (nonzero_step field) acc ents = acc @ map (\<lambda>i. (int i, int (f i))) [i \<leftarrow> is. 0 < f i]"
  using assms
  by (induction ents "is" arbitrary: acc rule: list_all2_induct)
    (auto simp: nonzero_step_def reg_total_def)

lemma sort_cells:
  assumes "distinct is" "set is = {..<n}"
  shows "sort_key fst (map (\<lambda>i. (int i, g i)) [i \<leftarrow> is. P i]) = map (\<lambda>i. (int i, g i)) [i \<leftarrow> [0..<n]. P i]"
proof (rule sort_key_inj_key_eq)
  have "mset is = mset [0..<n]"
    using assms set_eq_iff_mset_eq_distinct [of "is" "[0..<n]"] by (simp add: lessThan_atLeast0)
  then show "mset (map (\<lambda>i. (int i, g i)) [i \<leftarrow> is. P i]) = mset (map (\<lambda>i. (int i, g i)) [i \<leftarrow> [0..<n]. P i])"
    by simp
  show "inj_on fst (set (map (\<lambda>i. (int i, g i)) [i \<leftarrow> is. P i]))"
    by (auto simp: inj_on_def)
  have "sorted (map int [i \<leftarrow> [0..<n]. P i])"
    by (simp add: sorted_wrt_map sorted_wrt_filter)
  then show "sorted (map fst (map (\<lambda>i. (int i, g i)) [i \<leftarrow> [0..<n]. P i]))" by (simp add: comp_def)
qed

text \<open>The cells of a register as the dump lists them.\<close>

definition cells :: "nat \<Rightarrow> (nat \<Rightarrow> nat) \<Rightarrow> (int \<times> int) list" where
  "cells n f = map (\<lambda>i. (int i, int (f i))) [i \<leftarrow> [0..<n]. 0 < f i]"

lemma dump_entries:
  assumes "register_entries DATA_FIELD n f ents"
  shows "mapE (sort_key fst) (foldE pairs_step [] ents) = Inr (cells n f)"
proof -
  from assms obtain "is" where "distinct is" "set is = {..<n}"
    and "list_all2 (\<lambda>e i. map_of (ent_key e) REG_INDEX = Some (int i) \<and>
      (\<exists>vs. map_of (ent_data e) DATA_FIELD = Some (RList vs) \<and> sum_list vs = int (f i))) ents is"
    by (auto simp: register_entries_def)
  then show ?thesis
    using sort_cells [of "is" n "\<lambda>i. int (f i)" "\<lambda>i. 0 < f i"] by (simp add: foldE_pairs_step cells_def)
qed

lemma nonzero_entries:
  assumes "register_entries field n f ents"
  shows "sort_key fst (foldl (nonzero_step field) [] ents) = cells n f"
    and "mset (foldl (nonzero_step field) [] ents) = mset (cells n f)"
proof -
  from assms obtain "is" where "distinct is" "set is = {..<n}"
    and "list_all2 (\<lambda>e i. map_of (ent_key e) REG_INDEX = Some (int i) \<and>
      (\<exists>vs. map_of (ent_data e) field = Some (RList vs) \<and> sum_list vs = int (f i))) ents is"
    by (auto simp: register_entries_def)
  then show s: "sort_key fst (foldl (nonzero_step field) [] ents) = cells n f"
    using sort_cells [of "is" n "\<lambda>i. int (f i)" "\<lambda>i. 0 < f i"] by (simp add: foldl_nonzero_step cells_def)
  show "mset (foldl (nonzero_step field) [] ents) = mset (cells n f)"
    using arg_cong [OF s, of mset] by simp
qed

lemma pick_names:
  assumes "pn \<in> set PKT_NAMES" "bn \<in> set BYTE_NAMES"
  shows "pick_field [(pn, x), (bn, y)] PKT_NAMES = Some pn" "pick_field [(pn, x), (bn, y)] BYTE_NAMES = Some bn"
    "pn \<noteq> bn"
  using assms by (auto simp: pick_field_def PKT_NAMES_def BYTE_NAMES_def)

definition byte_cells :: "nat \<Rightarrow> (nat \<Rightarrow> nat \<times> nat) \<Rightarrow> (int \<times> int \<times> int) list" where
  "byte_cells n f = map (\<lambda>i. (int i, int (fst (f i)), int (snd (f i)))) [i \<leftarrow> [0..<n]. 0 < fst (f i) \<or> 0 < snd (f i)]"

lemma foldE_bytes_step:
  assumes "list_all2 (\<lambda>e i. map_of (ent_key e) CTR_INDEX = Some (int i) \<and>
      (\<exists>pn bn vs ws. pn \<in> set PKT_NAMES \<and> bn \<in> set BYTE_NAMES \<and> ent_data e = [(pn, RList vs), (bn, RList ws)] \<and>
         sum_list vs = int (fst (f i)) \<and> sum_list ws = int (snd (f i)))) ents is"
  shows "foldE bytes_step acc ents =
    Inr (acc @ map (\<lambda>i. (int i, int (fst (f i)), int (snd (f i)))) [i \<leftarrow> is. 0 < fst (f i) \<or> 0 < snd (f i)])"
  using assms
proof (induction ents "is" arbitrary: acc rule: list_all2_induct)
  case (Cons e ents i "is")
  from Cons.hyps obtain pn bn vs ws where "pn \<in> set PKT_NAMES" "bn \<in> set BYTE_NAMES"
    and "map_of (ent_key e) CTR_INDEX = Some (int i)" "ent_data e = [(pn, RList vs), (bn, RList ws)]"
    and "sum_list vs = int (fst (f i))" "sum_list ws = int (snd (f i))"
    by blast
  then have "bytes_step acc e = Inr (if 0 < fst (f i) \<or> 0 < snd (f i)
      then acc @ [(int i, int (fst (f i)), int (snd (f i)))] else acc)" for acc
    using pick_names [of pn bn] by (simp add: bytes_step_def Let_def sum_raw_def dlookup_def MIN_BYTES_def)
  then show ?case by (simp add: Cons.IH)
qed simp

lemma dump_byte_entries:
  assumes "counter_entries n f ents"
  shows "mapE (sort_key fst) (foldE bytes_step [] ents) = Inr (byte_cells n f)"
proof -
  from assms obtain "is" where "distinct is" "set is = {..<n}"
    and "list_all2 (\<lambda>e i. map_of (ent_key e) CTR_INDEX = Some (int i) \<and>
      (\<exists>pn bn vs ws. pn \<in> set PKT_NAMES \<and> bn \<in> set BYTE_NAMES \<and> ent_data e = [(pn, RList vs), (bn, RList ws)] \<and>
         sum_list vs = int (fst (f i)) \<and> sum_list ws = int (snd (f i)))) ents is"
    by (auto simp: counter_entries_def)
  then show ?thesis
    using sort_cells [of "is" n "\<lambda>i. (int (fst (f i)), int (snd (f i)))" "\<lambda>i. 0 < fst (f i) \<or> 0 < snd (f i)"]
    by (simp add: foldE_bytes_step byte_cells_def)
qed

lemma observe_forwarding: "observe hs e (sw\<lparr>forwarding := f\<rparr>) = (observe hs e sw)\<lparr>forwarding := f\<rparr>"
  by (simp add: observe_def learn_def view_bucket_def view_len_def count_packet_def count_quic_def Let_def)

lemma fold_observe_forwarding:
  "fold (observe hs) es (sw\<lparr>forwarding := f\<rparr>) = (fold (observe hs) es sw)\<lparr>forwarding := f\<rparr>"
  by (induction es arbitrary: sw) (simp_all add: observe_forwarding)

locale bfrt_device =
  fixes b :: "'d bfrt"
    and view :: "'d \<Rightarrow> switch"
  assumes view_fwd_clear: "view (fwd_clear b d) = (view d)\<lparr>forwarding := Map.empty\<rparr>"
    and view_fwd_add: "view (fwd_add b i p d) =
      (view d)\<lparr>forwarding := (forwarding (view d))(word_of_nat i \<mapsto> SendUsingPort (word_of_nat p))\<rparr>"
    and view_cfg: "view (cfg_set_default b l d) = (view d)\<lparr>cfg_force_len := word_of_nat l\<rparr>"
    and view_count_clear: "view (count_clear b d) = (view d)\<lparr>quic_pkt_count := (\<lambda>_. 0)\<rparr>"
    and view_bytes_clear: "view (bytes_clear b d) =
      (view d)\<lparr>quic_flow_bytes := (\<lambda>_. \<lparr>ctr_pkts = 0, ctr_bytes = 0\<rparr>)\<rparr>"
    and view_len_clear: "view (len_clear b d) = (view d)\<lparr>dcid_len_reg := (\<lambda>_. 0)\<rparr>"
    and view_complete: "view (complete_operations b d) = view d"
    and view_deregister: "callback_deregister b d = Some d' \<Longrightarrow> view d' = view d"
    and view_register: "view (callback_register b d) = view d"
    and view_syncs: "view (count_sync b d) = view d" "view (bytes_sync b d) = view d" "view (len_sync b d) = view d"
begin

lemmas view_simps = view_fwd_clear view_fwd_add view_cfg view_count_clear view_bytes_clear view_len_clear
  view_complete view_register view_syncs

lemma view_setup:
  "view (setup_tables b d) =
     (view d)\<lparr>forwarding := [136 \<mapsto> SendUsingPort 128, 128 \<mapsto> SendUsingPort 136], cfg_force_len := 0\<rparr>"
  by (auto simp: setup_tables_def Let_def view_simps dest: view_deregister split: option.splits)

lemma view_arms:
  "view (set_aware b d) = (view d)\<lparr>cfg_force_len := 0\<rparr>"
  "view (set_naive b d) = (view d)\<lparr>cfg_force_len := 20\<rparr>"
  "view (set_force8 b d) = (view d)\<lparr>cfg_force_len := 8\<rparr>"
  by (simp_all add: set_aware_def set_naive_def set_force8_def view_simps)

lemma view_reset:
  "view (reset_counts b d) = empty_switch\<lparr>forwarding := forwarding (view d), cfg_force_len := cfg_force_len (view d)\<rparr>"
  by (simp add: reset_counts_def view_simps empty_switch_def)

lemma reset_run:
  assumes "(script, len) \<in> {(set_aware, 0), (set_naive, 20), (set_force8, 8)}"
  shows "snd (run_pipe hs ps (view (script b (reset_counts b d)))) =
    (snd (run_pipe hs ps (empty_switch\<lparr>cfg_force_len := len\<rparr>)))\<lparr>forwarding := forwarding (view d)\<rparr>"
proof -
  have "view (script b (reset_counts b d)) = (empty_switch\<lparr>cfg_force_len := len\<rparr>)\<lparr>forwarding := forwarding (view d)\<rparr>"
    using assms view_arms [of "reset_counts b d"] view_reset [of d] by auto
  then show ?thesis by (simp only: run_pipe_state fold_observe_forwarding)
qed

end

text \<open>
  Reading the registers. A read with \<^verbatim>\<open>from_hw=True\<close> returns the cells of the hardware; a read with
  \<^verbatim>\<open>from_hw=False\<close> returns a copy in software, \<open>soft\<close>, which says something about the hardware only after
  the sync of the table.
\<close>

locale bfrt_reads = bfrt_device b view for b :: "'d bfrt" and view :: "'d \<Rightarrow> switch" +
  fixes soft :: "'d \<Rightarrow> switch"
  assumes count_pulled: "quic_pkt_count (soft (count_sync b d)) = quic_pkt_count (view d)"
    and bytes_pulled: "quic_flow_bytes (soft (bytes_sync b d)) = quic_flow_bytes (view d)"
    and dump_soft: "register_entries DATA_FIELD 131072 (pkt_cell (soft d)) (count_dump b d)"
    and bytes_soft: "counter_entries 32768 (byte_cell (soft d)) (bytes_get b d)"
    and get_counts: "count_get b d = Some ents \<Longrightarrow> register_entries DATA_FIELD 131072 (pkt_cell (view d)) ents"
    and get_lens: "len_get b d = Some ents \<Longrightarrow> register_entries LEN_FIELD 65536 (len_cell (view d)) ents"
begin

lemma synced_cells:
  "pkt_cell (soft (count_sync b d)) = pkt_cell (view d)" "byte_cell (soft (bytes_sync b d)) = byte_cell (view d)"
  by (simp_all add: fun_eq_iff pkt_cell_def byte_cell_def count_pulled bytes_pulled)

lemma dump_buckets_cells:
  "dump_buckets b d = Inr (cells 131072 (pkt_cell (view d)), buckets_csv (cells 131072 (pkt_cell (view d))))"
  using dump_entries [OF dump_soft, of "count_sync b d"] by (auto simp: dump_buckets_def Let_def mapE_eq_Inr_iff synced_cells)

lemma dump_bytes_cells:
  "dump_bytes b d = Inr (byte_cells 32768 (byte_cell (view d)), bytes_csv (byte_cells 32768 (byte_cell (view d))))"
  using dump_byte_entries [OF bytes_soft, of "bytes_sync b d"] by (auto simp: dump_bytes_def Let_def mapE_eq_Inr_iff synced_cells)

lemma count_lens_cells:
  "len_get b (len_sync b d) = Some ents \<Longrightarrow>
     count_lens b d = Inr (cells 65536 (len_cell (view d)), sort (remdups (map snd (cells 65536 (len_cell (view d))))))"
  using nonzero_entries(1) [OF get_lens, of "len_sync b d" ents] by (simp add: count_lens_def Let_def view_syncs)

lemma count_buckets_nonzero:
  "count_get b (count_sync b d) = Some ents \<Longrightarrow>
     \<exists>s. count_buckets b env d = Inr s \<and> mset (nonzero_raw s) = mset (cells 131072 (pkt_cell (view d))) \<and>
       mset (buckets_used s) = filter_mset (\<lambda>x. env_min_count env \<le> snd x) (mset (nonzero_raw s))"
  using nonzero_entries(2) [OF get_counts, of "count_sync b d" ents]
  by (auto simp: count_buckets_def Let_def view_syncs case_prod_beta)

end

section \<open>The data plane as a device\<close>

text \<open>
  A device that consists of the hardware and of the software copies of its tables: table
  entries, clears and register reads with \<^verbatim>\<open>from_hw=True\<close> act on the first component, a sync copies one
  table from the first component to the second, and the other reads see the second only.
\<close>

abbreviation hw_set :: "(switch \<Rightarrow> switch) \<Rightarrow> switch \<times> switch \<Rightarrow> switch \<times> switch" where
  "hw_set f d \<equiv> (f (fst d), snd d)"

definition switch_bfrt :: "(switch \<times> switch) bfrt" where
  "switch_bfrt =
     \<lparr>fwd_clear = hw_set (\<lambda>sw. sw\<lparr>forwarding := Map.empty\<rparr>),
      fwd_add = (\<lambda>i p. hw_set (\<lambda>sw. sw\<lparr>forwarding := (forwarding sw)(word_of_nat i \<mapsto> SendUsingPort (word_of_nat p))\<rparr>)),
      cfg_set_default = (\<lambda>l. hw_set (\<lambda>sw. sw\<lparr>cfg_force_len := word_of_nat l\<rparr>)),
      count_clear = hw_set (\<lambda>sw. sw\<lparr>quic_pkt_count := (\<lambda>_. 0)\<rparr>),
      bytes_clear = hw_set (\<lambda>sw. sw\<lparr>quic_flow_bytes := (\<lambda>_. \<lparr>ctr_pkts = 0, ctr_bytes = 0\<rparr>)\<rparr>),
      len_clear = hw_set (\<lambda>sw. sw\<lparr>dcid_len_reg := (\<lambda>_. 0)\<rparr>),
      complete_operations = id, callback_deregister = (\<lambda>d. None), callback_register = id,
      count_sync = (\<lambda>(hw, sf). (hw, sf\<lparr>quic_pkt_count := quic_pkt_count hw\<rparr>)),
      bytes_sync = (\<lambda>(hw, sf). (hw, sf\<lparr>quic_flow_bytes := quic_flow_bytes hw\<rparr>)),
      len_sync = (\<lambda>(hw, sf). (hw, sf\<lparr>dcid_len_reg := dcid_len_reg hw\<rparr>)),
      count_dump = (\<lambda>(hw, sf). map (\<lambda>i. \<lparr>ent_key = [(REG_INDEX, int i)],
        ent_data = [(DATA_FIELD, RList [int (pkt_cell sf i)])]\<rparr>) [0..<131072]),
      count_get = (\<lambda>(hw, sf). Some (map (\<lambda>i. \<lparr>ent_key = [(REG_INDEX, int i)],
        ent_data = [(DATA_FIELD, RList [int (pkt_cell hw i)])]\<rparr>) [0..<131072])),
      len_get = (\<lambda>(hw, sf). Some (map (\<lambda>i. \<lparr>ent_key = [(REG_INDEX, int i)],
        ent_data = [(LEN_FIELD, RList [int (len_cell hw i)])]\<rparr>) [0..<65536])),
      bytes_get = (\<lambda>(hw, sf). map (\<lambda>i. \<lparr>ent_key = [(CTR_INDEX, int i)],
        ent_data = [(''$COUNTER_SPEC_PKTS'', RList [int (fst (byte_cell sf i))]),
                    (''$COUNTER_SPEC_BYTES'', RList [int (snd (byte_cell sf i))])]\<rparr>) [0..<32768])\<rparr>"

lemma register_entries_map:
  "register_entries field n f (map (\<lambda>i. \<lparr>ent_key = [(REG_INDEX, int i)], ent_data = [(field, RList [int (f i)])]\<rparr>) [0..<n])"
  by (auto simp: register_entries_def list.rel_map intro!: exI [of _ "[0..<n]"] list.rel_refl)

lemma counter_entries_map:
  "counter_entries n f (map (\<lambda>i. \<lparr>ent_key = [(CTR_INDEX, int i)],
     ent_data = [(''$COUNTER_SPEC_PKTS'', RList [int (fst (f i))]), (''$COUNTER_SPEC_BYTES'', RList [int (snd (f i))])]\<rparr>) [0..<n])"
  by (auto simp: counter_entries_def list.rel_map PKT_NAMES_def BYTE_NAMES_def intro!: exI [of _ "[0..<n]"] list.rel_refl)

interpretation sw: bfrt_reads switch_bfrt fst snd
  by unfold_locales (auto simp: switch_bfrt_def register_entries_map counter_entries_map)

text \<open>The device of the samples: hardware in the given state, and software copies that were never synced.\<close>

definition unsynced :: "switch \<Rightarrow> switch \<times> switch" where
  "unsynced sw = (sw, empty_switch\<lparr>quic_pkt_count := (\<lambda>_. 1), quic_flow_bytes := (\<lambda>_. \<lparr>ctr_pkts = 7, ctr_bytes = 9\<rparr>)\<rparr>)"

lemma unsynced_hw [simp]: "fst (unsynced sw) = sw"
  by (simp add: unsynced_def)

section \<open>The dump read back\<close>

lemma file_lines_line: "CHR 0x0A \<notin> set l \<Longrightarrow> file_lines (l @ CHR 0x0A # rest) = (l @ [CHR 0x0A]) # file_lines rest"
  by (induction l) auto

lemma strip_newline: "isdigit s \<Longrightarrow> strip (s @ [CHR 0x0A]) = s"
proof -
  assume s: "isdigit s"
  then have ns: "\<forall>c \<in> set s. \<not> is_space c" and ne: "s \<noteq> []" by (auto simp: isdigit_def is_digit_not_space)
  have "is_space (CHR 0x0A)" by (simp add: is_space_def)
  moreover have "dropWhile is_space (s @ [CHR 0x0A]) = s @ [CHR 0x0A]" using ns ne by (cases s) auto
  moreover have "dropWhile is_space (rev s) = rev s" using ns ne by (cases "rev s") (auto simp: rev_eq_Cons_iff)
  ultimately show ?thesis by (simp add: strip_def)
qed

lemma lstrip_dash_isdigit: "isdigit s \<Longrightarrow> lstrip_dash s = s"
  by (cases s) (auto simp: isdigit_def lstrip_dash_def)

lemma dec_int_nonneg: "0 \<le> i \<Longrightarrow> dec_int i = dec_nat (nat i)"
  by (simp add: dec_int_def)

lemma dec_nat_no_sep: "CHR '','' \<notin> set (dec_nat n)" "CHR 0x0A \<notin> set (dec_nat n)"
  by (rule isdigit_not_mem; simp)+

lemma switch_line_pair:
  "switch_line counts (dec_nat i @ '','' @ dec_nat c @ [CHR 0x0A]) = Inr (AList.update (int i) (int c) counts)"
proof -
  let ?l = "dec_nat i @ '','' @ dec_nat c @ [CHR 0x0A]"
  have "split_on (CHR '','') ?l = [dec_nat i, dec_nat c @ [CHR 0x0A]]"
    using split_on_append [OF dec_nat_no_sep(1) [of i], of "dec_nat c @ [CHR 0x0A]"]
      split_on_id [of "CHR '',''" "dec_nat c @ [CHR 0x0A]"] dec_nat_no_sep(1) [of c] by simp
  then show ?thesis
    by (simp add: switch_line_def Let_def strip_isdigit strip_newline lstrip_dash_isdigit)
qed

lemma switch_line_header: "switch_line counts (''bucket,pkts'' @ [CHR 0x0A]) = Inr counts"
  by (simp add: switch_line_def strip_def is_space_def lstrip_dash_def isdigit_def is_digit_def)

lemma load_lines:
  assumes "\<forall>(i, c) \<in> set pairs. 0 \<le> i \<and> 0 \<le> c"
  shows "foldE switch_line counts
      (file_lines (concat (map (\<lambda>(i, c). dec_int i @ '','' @ dec_int c @ [CHR 0x0A]) pairs))) =
    Inr (dupdate counts pairs)"
  using assms
proof (induction pairs arbitrary: counts)
  case (Cons p pairs)
  obtain i c where p: "p = (i, c)" by (cases p)
  with Cons.prems have nn: "0 \<le> i" "0 \<le> c" by auto
  have "file_lines ((dec_nat (nat i) @ '','' @ dec_nat (nat c)) @ CHR 0x0A # rest) =
      ((dec_nat (nat i) @ '','' @ dec_nat (nat c)) @ [CHR 0x0A]) # file_lines rest" for rest
    by (rule file_lines_line) (simp add: dec_nat_no_sep)
  with nn Cons.prems switch_line_pair [of counts "nat i" "nat c"] show ?case
    using Cons.IH [of "AList.update i c counts"] by (simp add: p dec_int_nonneg)
qed simp

lemma dupdate_append: "dict_ok (d @ e) \<Longrightarrow> dupdate d e = d @ e"
proof (induction e arbitrary: d)
  case (Cons p e)
  obtain k v where p: "p = (k, v)" by (cases p)
  with Cons.prems have "k \<notin> fst ` set d" "dict_ok ((d @ [p]) @ e)" by (auto simp: dict_ok_def)
  then show ?case using Cons.IH [of "d @ [p]"] by (simp add: p update_new)
qed simp

lemma load_buckets_csv:
  assumes "\<forall>(i, c) \<in> set pairs. 0 \<le> i \<and> 0 \<le> c" "dict_ok pairs"
  shows "load_switch_buckets path (Some (buckets_csv pairs)) = Inr pairs"
proof -
  have "file_lines (buckets_csv pairs) = (''bucket,pkts'' @ [CHR 0x0A]) #
      file_lines (concat (map (\<lambda>(i, c). dec_int i @ '','' @ dec_int c @ [CHR 0x0A]) pairs))"
    unfolding buckets_csv_def using file_lines_line [of "''bucket,pkts''"] by simp
  moreover have "dupdate [] pairs = pairs"
    using assms(2) dupdate_append [of "[]" pairs] by simp
  ultimately show ?thesis
    using load_lines [OF assms(1), of "[]"] switch_line_header
    by (simp add: load_switch_buckets_def del: append.simps)
qed

section \<open>Properties of the scripts\<close>

text \<open>
  C14. Loading the switch makes it a wire between the two hosts: after \<^verbatim>\<open>setup.py\<close> every packet
  that the parser accepts leaves unchanged, from port 136 to port 128 and back, packets from
  any other port get no egress port, nothing is dropped, the length-aware arm is selected, and
  what the registers held is kept.
\<close>

theorem loaded_switch_is_a_wire:
  assumes "bfrt_device b view" "pipe hs p (view (setup_tables b d)) = (Some out, sw')"
  shows "out_frame out = frame p
    \<and> out_port out = (if in_port p = 136 then Some 128 else if in_port p = 128 then Some 136 else None)
    \<and> \<not> dropped out
    \<and> cfg_force_len (view (setup_tables b d)) = 0
    \<and> quic_pkt_count (view (setup_tables b d)) = quic_pkt_count (view d)
    \<and> quic_flow_bytes (view (setup_tables b d)) = quic_flow_bytes (view d)
    \<and> dcid_len_reg (view (setup_tables b d)) = dcid_len_reg (view d)"
  using pipe_emits [where hs = hs and p = p and sw = "view (setup_tables b d)"] assms(2) bfrt_device.view_setup [OF assms(1), of d]
  by (auto split: if_splits)

theorem loaded_switch_is_a_wire_witness:
  "\<exists>out sw'. pipe sample_hashes (sample_hs\<lparr>in_port := 136\<rparr>) (fst (setup_tables switch_bfrt (unsynced empty_switch))) = (Some out, sw')
     \<and> out_port out = Some 128 \<and> out_frame out = frame sample_hs"
proof -
  let ?p = "sample_hs\<lparr>in_port := 136\<rparr>" and ?sw = "fst (setup_tables switch_bfrt (unsynced empty_switch))"
  have "packet_view ?p \<noteq> None" using sample_views(1) by (simp add: packet_view_def)
  then obtain out where "fst (pipe sample_hashes ?p ?sw) = Some out" using pipe_quic_Some by blast
  then obtain sw' where r: "pipe sample_hashes ?p ?sw = (Some out, sw')" by (cases "pipe sample_hashes ?p ?sw") auto
  show ?thesis
    using loaded_switch_is_a_wire [OF sw.bfrt_device_axioms r] r by auto
qed

text \<open>
  C13. Measurement runs are isolated. Whatever the device did before, \<^verbatim>\<open>reset_counts.py\<close> followed
  by \<^verbatim>\<open>set_aware.py\<close>, \<^verbatim>\<open>set_naive.py\<close> or \<^verbatim>\<open>set_force8.py\<close> makes a run of packets leave the packet
  registers, byte counters and learned lengths that the same run leaves on a switch with zeroed
  registers and that forced length.
\<close>

theorem reset_isolates_runs:
  assumes "bfrt_device b view" "(script, len) \<in> {(set_aware, 0), (set_naive, 20), (set_force8, 8)}"
  shows "snd (run_pipe hs ps (view (script b (reset_counts b d)))) =
    (snd (run_pipe hs ps (empty_switch\<lparr>cfg_force_len := len\<rparr>)))\<lparr>forwarding := forwarding (view d)\<rparr>"
  by (rule bfrt_device.reset_run [OF assms])

theorem reset_isolates_runs_witness:
  "snd (run_pipe sample_hashes [sample_hs] (fst (set_naive switch_bfrt (reset_counts switch_bfrt
      (unsynced (snd (run_pipe sample_hashes [sample_short 85] empty_switch))))))) =
    (snd (run_pipe sample_hashes [sample_hs] (empty_switch\<lparr>cfg_force_len := 20\<rparr>)))
      \<lparr>forwarding := forwarding (fst (unsynced (snd (run_pipe sample_hashes [sample_short 85] empty_switch))))\<rparr>"
  by (rule reset_isolates_runs [OF sw.bfrt_device_axioms, where script = set_naive and len = 20]) simp

text \<open>
  C8. After \<^verbatim>\<open>reset_counts.py\<close>, whatever the registers held before (cells that were never cleared and read as 1
  included), and as long as no 32-bit register can wrap, the numbers the experiments read off the
  switch are exact: the control plane receives one digest per occupied bucket, the packet registers add
  up to the QUIC packets of the run, and each cell of the 15-bit byte counter holds the packets of the
  four buckets it folds. The arm, the forwarding table and the packets are arbitrary.
\<close>

theorem run_figures_are_exact:
  fixes hs ps d
  assumes "bfrt_device b view" "length ps < 2 ^ 32"
  defines "res \<equiv> run_pipe hs ps (view (reset_counts b d))"
  shows "length [r \<leftarrow> fst res. reported_digest r \<noteq> None] = card {x. quic_pkt_count (snd res) x \<noteq> 0}
    \<and> (\<Sum>x\<in>UNIV. unat (quic_pkt_count (snd res) x)) = length (views ps)
    \<and> unat (ctr_pkts (quic_flow_bytes (snd res) i)) = (\<Sum>x | ucast x = i. unat (quic_pkt_count (snd res) x))"
proof -
  have "quic_pkt_count (view (reset_counts b d)) x = 0" "ctr_pkts (quic_flow_bytes (view (reset_counts b d)) i) = 0" for x i
    by (simp_all add: bfrt_device.view_reset [OF assms(1)])
  from zeroed_run_figures [OF assms(2), OF this] show ?thesis unfolding res_def by blast
qed

theorem run_figures_are_exact_witness:
  "let d = reset_counts switch_bfrt (unsynced (empty_switch\<lparr>quic_pkt_count := (\<lambda>_. 1)\<rparr>));
       res = run_pipe sample_hashes [sample_hs, sample_short 85] (fst d)
   in length [r \<leftarrow> fst res. reported_digest r \<noteq> None] = card {x. quic_pkt_count (snd res) x \<noteq> 0}
    \<and> (\<Sum>x\<in>UNIV. unat (quic_pkt_count (snd res) x)) = 2
    \<and> unat (ctr_pkts (quic_flow_bytes (snd res) 0)) = (\<Sum>x | ucast x = (0 :: 15 word). unat (quic_pkt_count (snd res) x))"
proof -
  have len: "length [sample_hs, sample_short 85] < 2 ^ 32" by simp
  have "length (views [sample_hs, sample_short 85]) = 2" by (simp add: sample_views)
  then show ?thesis
    using run_figures_are_exact [OF sw.bfrt_device_axioms len, where hs = sample_hashes and i = 0
      and d = "unsynced (empty_switch\<lparr>quic_pkt_count := (\<lambda>_. 1)\<rparr>)"]
    unfolding Let_def by (simp only: simp_thms)
qed

lemma cells_ok: "\<forall>(i, c) \<in> set (cells n f). 0 \<le> i \<and> 0 \<le> c" "dict_ok (cells n f)"
  by (auto simp: cells_def dict_ok_def comp_def distinct_map inj_on_def)

text \<open>
  The register dump reaches the analyser intact: the file that \<^verbatim>\<open>dump_buckets.py\<close> writes
  parses, in \<^verbatim>\<open>pcap_buckets.py --switch\<close>, to a dictionary whose keys are the occupied buckets
  in ascending order and whose values are their packet registers.
\<close>

theorem dump_is_read_back:
  assumes "bfrt_reads b view soft"
  shows "bindE (dump_buckets b d) (\<lambda>(pairs, csv). load_switch_buckets path (Some csv)) =
    Inr (map (\<lambda>i. (int i, int (unat (quic_pkt_count (view d) (word_of_nat i)))))
           [i \<leftarrow> [0..<131072]. quic_pkt_count (view d) (word_of_nat i) \<noteq> 0])"
proof -
  have nz: "0 < unat w \<longleftrightarrow> w \<noteq> 0" for w :: "32 word" by (simp add: unat_gt_0)
  have "cells 131072 (pkt_cell (view d)) =
      map (\<lambda>i. (int i, int (unat (quic_pkt_count (view d) (word_of_nat i)))))
        [i \<leftarrow> [0..<131072]. quic_pkt_count (view d) (word_of_nat i) \<noteq> 0]"
    by (simp only: cells_def pkt_cell_def nz)
  then show ?thesis
    using load_buckets_csv [OF cells_ok, of path 131072 "pkt_cell (view d)"]
    by (simp only: bfrt_reads.dump_buckets_cells [OF assms] bindE_Inr prod.case)
qed

theorem dump_is_read_back_witness:
  "bindE (dump_buckets switch_bfrt (unsynced empty_switch)) (\<lambda>(pairs, csv). load_switch_buckets ''switch_buckets.csv'' (Some csv)) = Inr []"
  using dump_is_read_back [OF sw.bfrt_reads_axioms, of "unsynced empty_switch" "''switch_buckets.csv''"] by simp

lemma occupied_cells: "unat ` {b. quic_pkt_count sw b \<noteq> 0} = {i. i < 131072 \<and> 0 < pkt_cell sw i}"
proof safe
  fix i assume "i < 131072" "0 < pkt_cell sw i"
  then show "i \<in> unat ` {b. quic_pkt_count sw b \<noteq> 0}"
    by (intro image_eqI [of _ _ "word_of_nat i"]) (simp_all add: pkt_cell_def unat_of_nat unat_gt_0)
next
  fix b assume "quic_pkt_count sw b \<noteq> 0"
  then show "unat b < 131072" "0 < pkt_cell sw (unat b)"
    using unsigned_less [of b, where ?'a = nat] by (simp_all add: pkt_cell_def unat_gt_0)
qed

lemma card_cells: "length (cells 131072 (pkt_cell sw)) = card {b. quic_pkt_count sw b \<noteq> 0}"
proof -
  have "length (cells 131072 (pkt_cell sw)) = card {i. i < 131072 \<and> 0 < pkt_cell sw i}"
    by (simp add: cells_def length_filter_conv_card cong: conj_cong)
  also have "\<dots> = card {b. quic_pkt_count sw b \<noteq> 0}"
    unfolding occupied_cells [symmetric] by (rule card_image) (simp add: inj_on_def word_unat_eq_iff)
  finally show ?thesis .
qed

text \<open>
  The snapshot of \<^verbatim>\<open>count_buckets.py\<close>: when the register read returns entries the script
  succeeds for every value of \<^verbatim>\<open>MIN_COUNT\<close>, its raw figure is the number of occupied buckets,
  and the filtered list holds exactly the buckets with at least that many packets, in
  descending order of the count; the rows shown and the number of rows hidden add up to it.
\<close>

theorem snapshot_counts_occupied_buckets:
  assumes "bfrt_reads b view soft" "count_get b (count_sync b d) = Some ents"
  shows "\<exists>s. count_buckets b env d = Inr s
    \<and> length (nonzero_raw s) = card {x. quic_pkt_count (view d) x \<noteq> 0}
    \<and> set (buckets_used s) = {(int i, int (pkt_cell (view d) i)) | i.
         i < 131072 \<and> 0 < pkt_cell (view d) i \<and> env_min_count env \<le> int (pkt_cell (view d) i)}
    \<and> sorted (map (\<lambda>x. - snd x) (buckets_used s))
    \<and> length (shown_rows s) + hidden_rows s = length (buckets_used s)"
proof -
  obtain s where s: "count_buckets b env d = Inr s"
    and raw: "mset (nonzero_raw s) = mset (cells 131072 (pkt_cell (view d)))"
    and used: "mset (buckets_used s) = filter_mset (\<lambda>x. env_min_count env \<le> snd x) (mset (nonzero_raw s))"
    using bfrt_reads.count_buckets_nonzero [OF assms, of env] by blast
  have "length (nonzero_raw s) = card {x. quic_pkt_count (view d) x \<noteq> 0}"
    using arg_cong [OF raw, of size] by (simp add: card_cells)
  moreover have "set (buckets_used s) = {x \<in> set (cells 131072 (pkt_cell (view d))). env_min_count env \<le> snd x}"
    using arg_cong [OF used, of set_mset] arg_cong [OF raw, of set_mset] by auto
  moreover have "sorted (map (\<lambda>x. - snd x) (buckets_used s)) \<and> length (shown_rows s) + hidden_rows s = length (buckets_used s)"
    using s assms(2) by (auto simp: count_buckets_def Let_def)
  ultimately show ?thesis
    using s by (auto simp: cells_def)
qed

theorem snapshot_counts_occupied_buckets_witness:
  "\<exists>s. count_buckets switch_bfrt (Some ''10'') (unsynced empty_switch) = Inr s \<and> length (nonzero_raw s) = 0"
  using snapshot_counts_occupied_buckets [OF sw.bfrt_reads_axioms, of "unsynced empty_switch" _ "Some ''10''"]
  by (force simp: switch_bfrt_def unsynced_def)

end
