(* ===== verification/Py_Text.thy ===== *)
theory Py_Text
  imports Prelude Complex_Main "HOL-Library.Log_Nat" "HOL-Library.Multiset"
begin

text \<open>
  What the text-processing tools use of Python's standard library beyond the prelude: line
  splitting, the pieces of regular expressions, the reader of the \<^verbatim>\<open>csv\<close> module in its default
  dialect, conversion of hexadecimal and decimal numerals, and doubles: the rounding of a rational
  number to the nearest double (ties to even, the normal range without overflow), float addition,
  bounds for sums of floats in any order, and the format \<^verbatim>\<open>{:.kf}\<close>. All text is ASCII.
\<close>

section \<open>Lines and patterns\<close>

definition is_linebreak :: "char \<Rightarrow> bool" where
  "is_linebreak c \<longleftrightarrow> (let n = of_char c :: nat in (10 \<le> n \<and> n \<le> 13) \<or> (28 \<le> n \<and> n \<le> 30))"

text \<open>\<^verbatim>\<open>s.splitlines()\<close>: a carriage return and a line feed together end one line.\<close>

fun splitlines :: "string \<Rightarrow> string list" where
  "splitlines [] = []"
| "splitlines (c # cs) =
     (if c = CHR 0x0D \<and> cs \<noteq> [] \<and> hd cs = CHR 0x0A then [] # splitlines (tl cs)
      else if is_linebreak c then [] # splitlines cs
      else (case splitlines cs of [] \<Rightarrow> [[c]] | l # ls \<Rightarrow> (c # l) # ls))"

definition strip_prefix :: "string \<Rightarrow> string \<Rightarrow> string option" where
  "strip_prefix p s = (if take (length p) s = p then Some (drop (length p) s) else None)"

text \<open>A class repeated at least once, greedily: the matched part and the rest.\<close>

definition many1 :: "(char \<Rightarrow> bool) \<Rightarrow> string \<Rightarrow> (string \<times> string) option" where
  "many1 P s = (if takeWhile P s = [] then None else Some (takeWhile P s, dropWhile P s))"

text \<open>\<^verbatim>\<open>re.search\<close>: the leftmost position where the pattern matches.\<close>

fun search :: "(string \<Rightarrow> 'a option) \<Rightarrow> string \<Rightarrow> 'a option" where
  "search m [] = m []"
| "search m (c # cs) = (case m (c # cs) of Some x \<Rightarrow> Some x | None \<Rightarrow> search m cs)"

definition is_word :: "char \<Rightarrow> bool" where
  "is_word c \<longleftrightarrow> (let n = of_char c :: nat in is_digit c \<or> (65 \<le> n \<and> n \<le> 90) \<or> (97 \<le> n \<and> n \<le> 122) \<or> n = 95)"

text \<open>\<^verbatim>\<open>max(xs, key=f)\<close>: the first maximal element.\<close>

fun py_max :: "('a \<Rightarrow> nat) \<Rightarrow> 'a list \<Rightarrow> 'a result" where
  "py_max f [] = Inl ValueError"
| "py_max f (x # xs) = Inr (foldl (\<lambda>m y. if f m < f y then y else m) x xs)"

section \<open>Numerals\<close>

definition is_hex :: "char \<Rightarrow> bool" where
  "is_hex c \<longleftrightarrow> hex_val c \<noteq> None"

definition nat_of_hex :: "string \<Rightarrow> nat" where
  "nat_of_hex s = foldl (\<lambda>acc c. 16 * acc + the (hex_val c)) 0 s"

text \<open>
  The value of a numeral of digits and points, as \<^verbatim>\<open>float\<close> reads it before rounding: at most
  one point, and at least one digit.
\<close>

definition decimal_value :: "string \<Rightarrow> rat option" where
  "decimal_value s =
     (case split_on (CHR ''.'') s of
        [a] \<Rightarrow> if isdigit a then Some (of_nat (nat_of_digits a)) else None
      | [a, b] \<Rightarrow>
          (if (a = [] \<or> isdigit a) \<and> (b = [] \<or> isdigit b) \<and> \<not> (a = [] \<and> b = [])
           then Some (of_nat (nat_of_digits (a @ b)) / 10 ^ length b) else None)
      | _ \<Rightarrow> None)"

section \<open>Doubles\<close>

text \<open>\<^verbatim>\<open>round(x)\<close>: to the nearest integer, ties to even.\<close>

definition round_even :: "rat \<Rightarrow> int" where
  "round_even x =
     (let f = \<lfloor>x\<rfloor>; d = x - of_int f in
      if d < 1 / 2 then f else if d > 1 / 2 then f + 1 else if even f then f else f + 1)"

text \<open>
  The nearest double of a rational of either sign within the normal range: the exponent is the
  one with \<open>2 ^ e \<le> \<bar>x\<bar> < 2 ^ (e + 1)\<close>, the significand has 53 bits. Python's \<^verbatim>\<open>+ - * /\<close> on
  floats, its conversion of an int and its division of two ints are the exact result rounded
  by this function.
\<close>

definition binary_exponent :: "rat \<Rightarrow> int" where
  "binary_exponent x =
     (case quotient_of x of (p, q) \<Rightarrow>
        let e = bitlen p - bitlen q in if 2 powi e \<le> x then e else e - 1)"

definition round_double :: "rat \<Rightarrow> rat" where
  "round_double x =
     (if x = 0 then 0
      else let u = 2 powi (binary_exponent \<bar>x\<bar> - 52) in of_int (round_even (x / u)) * u)"

text \<open>
  A chain of float additions from a start value, as a loop with \<^verbatim>\<open>+=\<close> makes it, and a sum of
  floats in an order that is not specified: any bracketing of any permutation.
\<close>

definition float_add :: "rat \<Rightarrow> rat \<Rightarrow> rat" where
  "float_add x y = round_double (x + y)"

inductive float_sum :: "rat multiset \<Rightarrow> rat \<Rightarrow> bool" where
  none: "float_sum {#} 0"
| one: "float_sum {#x#} x"
| add: "\<lbrakk>float_sum M x; float_sum N y; M \<noteq> {#}; N \<noteq> {#}\<rbrakk> \<Longrightarrow> float_sum (M + N) (float_add x y)"

text \<open>
  \<^verbatim>\<open>f"{x:.kf}"\<close> of a non-negative double and of a double of either sign, and alignment to the right
  and to the left.
\<close>

definition fixed :: "nat \<Rightarrow> rat \<Rightarrow> string" where
  "fixed k x =
     (let n = nat (round_even (x * 10 ^ k))
      in dec_nat (n div 10 ^ k) @
         (if k = 0 then '''' else ''.'' @ map (\<lambda>j. digit_char (n div 10 ^ j mod 10)) (rev [0..<k])))"

definition fixed_signed :: "nat \<Rightarrow> rat \<Rightarrow> string" where
  "fixed_signed k x = (if x < 0 then ''-'' else '''') @ fixed k \<bar>x\<bar>"

definition pad_left :: "nat \<Rightarrow> string \<Rightarrow> string" where
  "pad_left w s = replicate (w - length s) (CHR '' '') @ s"

definition pad_right :: "nat \<Rightarrow> string \<Rightarrow> string" where
  "pad_right w s = s @ replicate (w - length s) (CHR '' '')"

section \<open>The csv reader\<close>

text \<open>
  The state machine of \<^verbatim>\<open>csv.reader\<close> for the default dialect (comma, double quote, quotes doubled
  inside a quoted field): the field and the record being read, last first, and the records
  done. An empty line is the record \<open>[]\<close>.
\<close>

datatype csv_state = StartRecord | StartField | InField | InQuoted | QuoteInQuoted

definition csv_break :: "char \<Rightarrow> bool" where
  "csv_break c \<longleftrightarrow> c = CHR 0x0A \<or> c = CHR 0x0D"

fun csv_go :: "csv_state \<Rightarrow> string \<Rightarrow> string list \<Rightarrow> string \<Rightarrow> string list list" where
  "csv_go st fld rec [] =
     (case st of StartRecord \<Rightarrow> [] | _ \<Rightarrow> [rev (rev fld # rec)])"
| "csv_go st fld rec (c # cs) =
     (let line_end = (\<lambda>r. r # csv_go StartRecord [] [] (if c = CHR 0x0D \<and> cs \<noteq> [] \<and> hd cs = CHR 0x0A then tl cs else cs));
          field_char = (if csv_break c then line_end (rev (rev fld # rec))
                        else if c = CHR '','' then csv_go StartField [] (rev fld # rec) cs
                        else csv_go InField (c # fld) rec cs)
      in case st of
           StartRecord \<Rightarrow>
             if csv_break c then line_end []
             else if c = CHR 0x22 then csv_go InQuoted [] [] cs else field_char
         | StartField \<Rightarrow> if c = CHR 0x22 then csv_go InQuoted [] rec cs else field_char
         | InField \<Rightarrow> field_char
         | InQuoted \<Rightarrow>
             if c = CHR 0x22 then csv_go QuoteInQuoted fld rec cs else csv_go InQuoted (c # fld) rec cs
         | QuoteInQuoted \<Rightarrow>
             if c = CHR 0x22 then csv_go InQuoted (c # fld) rec cs else field_char)"

definition csv_rows :: "string \<Rightarrow> string list list" where
  "csv_rows text = csv_go StartRecord [] [] text"

text \<open>
  \<^verbatim>\<open>csv.DictReader\<close>: the first record gives the names, later empty records are skipped,
  a missing field is \<^verbatim>\<open>None\<close>; surplus fields go under the key \<^verbatim>\<open>None\<close>, which no tool
  of the repository reads.
\<close>

definition dict_row :: "string list \<Rightarrow> string list \<Rightarrow> (string, string option) dict" where
  "dict_row names row =
     foldl (\<lambda>d (n, v). AList.update n v d) []
       (zip names (map Some row @ replicate (length names - length row) None))"

definition dict_rows :: "string \<Rightarrow> (string, string option) dict list" where
  "dict_rows text =
     (case csv_rows text of
        [] \<Rightarrow> []
      | names # rows \<Rightarrow> map (dict_row names) (filter (\<lambda>r. r \<noteq> []) rows))"

lemma py_max_in: "xs \<noteq> [] \<Longrightarrow> \<exists>x. py_max f xs = Inr x \<and> x \<in> set xs"
proof -
  have "foldl (\<lambda>m y. if f m < f y then y else m) x xs \<in> insert x (set xs)" for x xs
    by (induction xs arbitrary: x) auto
  then show "xs \<noteq> [] \<Longrightarrow> ?thesis" by (cases xs) force+
qed

section \<open>Rounding errors\<close>

lemma round_even_error: "\<bar>of_int (round_even x) - x\<bar> \<le> 1 / 2"
proof -
  have "of_int \<lfloor>x\<rfloor> \<le> x" "x < of_int \<lfloor>x\<rfloor> + 1" by linarith+
  then show ?thesis by (auto simp: round_even_def Let_def abs_le_iff)
qed

lemma round_even_near: "\<bar>x - of_int n\<bar> < 1 / 2 \<Longrightarrow> round_even x = n"
proof -
  assume a: "\<bar>x - of_int n\<bar> < 1 / 2"
  have "\<lfloor>x\<rfloor> = n \<or> \<lfloor>x\<rfloor> = n - 1" using a by linarith
  moreover have "of_int \<lfloor>x\<rfloor> \<le> x" "x < of_int \<lfloor>x\<rfloor> + 1" by linarith+
  ultimately show ?thesis using a by (auto simp: round_even_def Let_def)
qed

lemma binary_exponent_le:
  assumes "0 < x"
  shows "2 powi binary_exponent x \<le> x"
proof -
  obtain p q where pq: "quotient_of x = (p, q)" by (cases "quotient_of x")
  have q: "0 < q" using quotient_of_denom_pos [OF pq] .
  have x: "x = of_int p / of_int q" using quotient_of_div [OF pq] .
  with assms q have p: "0 < p" by (simp add: zero_less_divide_iff)
  have bp: "(2 :: rat) powi (bitlen p - 1) \<le> of_int p"
  proof -
    have "1 \<le> bitlen p" using p by (auto simp: bitlen_alt_def)
    moreover have "of_int (2 ^ nat (bitlen p - 1)) \<le> (of_int p :: rat)" using bitlen_bounds [OF p] by (simp only: of_int_le_iff)
    ultimately show ?thesis by (simp add: power_int_def)
  qed
  have bq: "of_int q \<le> (2 :: rat) powi bitlen q"
  proof -
    have "(of_int q :: rat) \<le> of_int (2 ^ nat (bitlen q))" using bitlen_bounds [OF q] by (simp only: of_int_le_iff less_imp_le)
    then show ?thesis by (simp add: power_int_def bitlen_nonneg)
  qed
  have "(2 :: rat) powi (bitlen p - bitlen q - 1) = 2 powi (bitlen p - 1) / 2 powi bitlen q"
    by (simp add: power_int_diff)
  also have "\<dots> \<le> of_int p / of_int q"
    using bp bq q p by (intro frac_le) auto
  finally have "(2 :: rat) powi (bitlen p - bitlen q - 1) \<le> x" unfolding x .
  then show ?thesis by (simp add: binary_exponent_def pq Let_def)
qed

lemma round_even_minus: "round_even (- x) = - round_even x"
proof (cases "x = of_int \<lfloor>x\<rfloor>")
  case True
  then obtain n where "x = of_int n" by blast
  then show ?thesis by (simp add: round_even_def Let_def)
next
  case False
  moreover have "of_int \<lfloor>x\<rfloor> \<le> x" "x < of_int \<lfloor>x\<rfloor> + 1" by linarith+
  ultimately have "\<lfloor>- x\<rfloor> = - \<lfloor>x\<rfloor> - 1" by linarith
  then show ?thesis by (auto simp: round_even_def Let_def)
qed

lemma round_even_int [simp]: "round_even (of_int n) = n"
  by (simp add: round_even_def)

lemma round_double_0 [simp]: "round_double 0 = 0"
  by (simp add: round_double_def)

lemma round_double_minus [simp]: "round_double (- x) = - round_double x"
  by (simp add: round_double_def Let_def round_even_minus)

lemma round_double_error: "\<bar>round_double x - x\<bar> \<le> \<bar>x\<bar> / 2 ^ 53"
proof (cases "x = 0")
  case False
  then have x: "0 < \<bar>x\<bar>" by simp
  define u where "u = (2 :: rat) powi (binary_exponent \<bar>x\<bar> - 52)"
  have u: "0 < u" by (simp add: u_def)
  have "\<bar>of_int (round_even (x / u)) * u - x\<bar> = \<bar>of_int (round_even (x / u)) - x / u\<bar> * u"
  proof -
    have "of_int (round_even (x / u)) * u - x = (of_int (round_even (x / u)) - x / u) * u"
      using u by (simp add: left_diff_distrib)
    then show ?thesis using u by (simp add: abs_mult)
  qed
  also have "\<dots> \<le> 1 / 2 * u" using round_even_error [of "x / u"] u by (intro mult_right_mono) auto
  also have "\<dots> = 2 powi binary_exponent \<bar>x\<bar> / 2 ^ 53"
    by (simp add: u_def power_int_diff)
  also have "\<dots> \<le> \<bar>x\<bar> / 2 ^ 53" using binary_exponent_le [OF x] by (simp add: divide_right_mono)
  finally show ?thesis using False by (simp add: round_double_def u_def Let_def)
qed simp

lemma round_double_nonneg: "0 \<le> x \<Longrightarrow> 0 \<le> round_double x"
proof -
  assume "0 \<le> x"
  moreover have "x / 2 ^ 53 \<le> x" using \<open>0 \<le> x\<close> by simp
  ultimately show ?thesis using round_double_error [of x] by linarith
qed

lemma round_double_pos: "0 < x \<Longrightarrow> 0 < round_double x"
proof -
  assume "0 < x"
  moreover have "x / 2 ^ 53 < x" using \<open>0 < x\<close> by simp
  ultimately show ?thesis using round_double_error [of x] by linarith
qed

text \<open>Integers of at most 53 bits are doubles.\<close>

lemma round_double_of_int: "\<bar>n\<bar> < 2 ^ 53 \<Longrightarrow> round_double (of_int n) = of_int n"
proof (cases "n = 0")
  case False
  assume n: "\<bar>n\<bar> < 2 ^ 53"
  define e where "e = binary_exponent \<bar>of_int n :: rat\<bar>"
  have "2 powi e \<le> (of_int \<bar>n\<bar> :: rat)" using binary_exponent_le [of "\<bar>of_int n :: rat\<bar>"] False by (simp add: e_def)
  also have "\<dots> < of_int (2 ^ 53)" using n by (simp only: of_int_less_iff)
  finally have "(2 :: rat) powi e < 2 powi 53" by (simp add: power_int_def)
  then have "e < 53" using power_int_increasing [of 53 e "2 :: rat"] by force
  then have "(2 :: rat) powi (e - 52) = 1 / 2 ^ nat (52 - e)"
    by (simp add: power_int_def field_simps)
  moreover have "round_even (of_int n * 2 ^ nat (52 - e)) = n * 2 ^ nat (52 - e)"
    using round_even_int [of "n * 2 ^ nat (52 - e)"] by (simp del: round_even_int)
  ultimately show ?thesis by (simp add: round_double_def e_def [symmetric])
qed simp

section \<open>Sums of doubles\<close>

text \<open>
  A sum of \<open>n\<close> doubles in whatever order is within \<open>(1 + 2^-53) ^ n - 1\<close> times the sum of the
  absolute values of the exact sum.
\<close>

definition ulps :: "nat \<Rightarrow> rat" where
  "ulps n = (1 + 1 / 2 ^ 53) ^ n - 1"

lemma ulps_0 [simp]: "ulps 0 = 0"
  by (simp add: ulps_def)

lemma ulps_nonneg: "0 \<le> ulps n"
  by (simp add: ulps_def)

lemma ulps_mono: "m \<le> n \<Longrightarrow> ulps m \<le> ulps n"
  by (simp add: ulps_def power_increasing)

lemma ulps_Suc: "ulps (Suc n) = ulps n * (1 + 1 / 2 ^ 53) + 1 / 2 ^ 53"
  by (simp add: ulps_def algebra_simps)

lemma round_double_ulps: "\<bar>x - y\<bar> \<le> ulps n * z \<Longrightarrow> \<bar>y\<bar> \<le> z \<Longrightarrow> \<bar>round_double x - y\<bar> \<le> ulps (Suc n) * z"
proof -
  assume a: "\<bar>x - y\<bar> \<le> ulps n * z" and z: "\<bar>y\<bar> \<le> z"
  have "\<bar>round_double x - y\<bar> \<le> \<bar>x\<bar> / 2 ^ 53 + \<bar>x - y\<bar>" using round_double_error [of x] by linarith
  also have "\<bar>x\<bar> \<le> z + \<bar>x - y\<bar>" using z by linarith
  also have "(z + \<bar>x - y\<bar>) / 2 ^ 53 + \<bar>x - y\<bar> = \<bar>x - y\<bar> * (1 + 1 / 2 ^ 53) + z / 2 ^ 53" by (simp add: field_simps)
  also have "\<dots> \<le> (ulps n * z) * (1 + 1 / 2 ^ 53) + z / 2 ^ 53" using a by (intro add_right_mono mult_right_mono) simp_all
  also have "\<dots> = ulps (Suc n) * z" by (simp add: ulps_Suc algebra_simps)
  finally show ?thesis by (simp add: divide_right_mono)
qed

lemma float_sum_error:
  "float_sum M s \<Longrightarrow> \<bar>s - sum_mset M\<bar> \<le> ulps (size M) * (\<Sum>x \<in># M. \<bar>x\<bar>)"
proof (induction rule: float_sum.induct)
  case (add M x N y)
  let ?a = "\<lambda>M. \<Sum>x \<in># M. \<bar>x :: rat\<bar>"
  have abs: "\<bar>sum_mset M\<bar> \<le> ?a M" "0 \<le> ?a M" for M :: "rat multiset"
    by (induction M) (auto simp: abs_le_iff)
  have sz: "size M \<le> size (M + N) - 1" "size N \<le> size (M + N) - 1" "Suc (size (M + N) - 1) = size (M + N)"
    using add.hyps(3,4) by (auto simp: Suc_le_eq nonempty_has_size)
  have "\<bar>(x + y) - sum_mset (M + N)\<bar> \<le> \<bar>x - sum_mset M\<bar> + \<bar>y - sum_mset N\<bar>" by simp
  also have "\<dots> \<le> ulps (size M) * ?a M + ulps (size N) * ?a N" using add.IH by linarith
  also have "\<dots> \<le> ulps (size (M + N) - 1) * ?a M + ulps (size (M + N) - 1) * ?a N"
    using sz abs(2) by (intro add_mono mult_right_mono ulps_mono)
  also have "\<dots> = ulps (size (M + N) - 1) * ?a (M + N)" by (simp add: algebra_simps)
  finally have "\<bar>round_double (x + y) - sum_mset (M + N)\<bar> \<le> ulps (Suc (size (M + N) - 1)) * ?a (M + N)"
    using round_double_ulps abs(1) by blast
  then show ?case unfolding float_add_def sz(3) .
qed (simp_all add: ulps_nonneg)

lemma foldl_float_add_error:
  "\<bar>foldl float_add a xs - (a + sum_list xs)\<bar> \<le> ulps (length xs) * (\<bar>a\<bar> + (\<Sum>x \<leftarrow> xs. \<bar>x\<bar>))"
proof (induction xs rule: rev_induct)
  case (snoc x xs)
  let ?z = "\<bar>a\<bar> + (\<Sum>x \<leftarrow> xs @ [x]. \<bar>x\<bar>)"
  have "\<bar>sum_list xs\<bar> \<le> (\<Sum>x \<leftarrow> xs. \<bar>x\<bar>)" by (rule sum_list_abs)
  then have z: "\<bar>a + sum_list (xs @ [x])\<bar> \<le> ?z" by simp
  have "\<bar>(foldl float_add a xs + x) - (a + sum_list (xs @ [x]))\<bar> \<le> ulps (length xs) * (\<bar>a\<bar> + (\<Sum>x \<leftarrow> xs. \<bar>x\<bar>))"
    using snoc by simp
  also have "\<dots> \<le> ulps (length xs) * ?z" by (intro mult_left_mono ulps_nonneg) simp
  finally have "\<bar>round_double (foldl float_add a xs + x) - (a + sum_list (xs @ [x]))\<bar> \<le> ulps (Suc (length xs)) * ?z"
    using round_double_ulps z by blast
  then show ?case by (simp add: float_add_def [of _ x])
qed simp

lemma sum_list_abs_mult_le:
  fixes f g :: "'a \<Rightarrow> rat"
  assumes "\<forall>k \<in> set ks. \<bar>f k\<bar> \<le> c * g k"
  shows "\<bar>sum_list (map f ks)\<bar> \<le> c * sum_list (map g ks)"
  using assms by (induction ks) (auto simp: distrib_left abs_le_iff)

text \<open>Two levels of float additions: subtotals of at most \<open>n\<close> doubles, added up.\<close>

lemma nested_float_add_error:
  fixes xs :: "'k \<Rightarrow> rat list"
  assumes "\<forall>k \<in> set ks. length (xs k) \<le> n"
  defines "s \<equiv> \<lambda>k. foldl float_add 0 (xs k)" and "a \<equiv> \<lambda>k. \<Sum>x \<leftarrow> xs k. \<bar>x\<bar>"
  shows "\<bar>foldl float_add 0 (map s ks) - (\<Sum>k \<leftarrow> ks. sum_list (xs k))\<bar> \<le> ulps (n + length ks) * sum_list (map a ks)"
proof -
  have a: "0 \<le> a k" for k unfolding a_def by (rule sum_list_nonneg) auto
  have e: "\<bar>s k - sum_list (xs k)\<bar> \<le> ulps n * a k" if "k \<in> set ks" for k
  proof -
    have "\<bar>s k - sum_list (xs k)\<bar> \<le> ulps (length (xs k)) * a k"
      using foldl_float_add_error [of 0 "xs k"] by (simp add: s_def a_def)
    also have "\<dots> \<le> ulps n * a k" using assms(1) that by (intro mult_right_mono ulps_mono a) simp
    finally show ?thesis .
  qed
  have "\<bar>\<bar>s k\<bar>\<bar> \<le> (1 + ulps n) * a k" if "k \<in> set ks" for k
    using e [OF that] sum_list_abs [of "xs k"] by (simp add: a_def distrib_right)
  then have "\<bar>\<Sum>k \<leftarrow> ks. \<bar>s k\<bar>\<bar> \<le> (1 + ulps n) * sum_list (map a ks)" by (intro sum_list_abs_mult_le) blast
  then have "ulps (length ks) * (\<Sum>k \<leftarrow> ks. \<bar>s k\<bar>) \<le> ulps (length ks) * ((1 + ulps n) * sum_list (map a ks))"
    by (intro mult_left_mono ulps_nonneg) linarith
  then have t: "\<bar>foldl float_add 0 (map s ks) - sum_list (map s ks)\<bar> \<le> ulps (length ks) * (1 + ulps n) * sum_list (map a ks)"
    using foldl_float_add_error [of 0 "map s ks"] by (simp add: comp_def mult.assoc)
  have "\<bar>\<Sum>k \<leftarrow> ks. s k - sum_list (xs k)\<bar> \<le> ulps n * sum_list (map a ks)"
    using e by (intro sum_list_abs_mult_le) blast
  moreover have "ulps (n + length ks) = ulps (length ks) * (1 + ulps n) + ulps n"
    by (simp add: ulps_def power_add algebra_simps)
  ultimately show ?thesis using t by (simp add: sum_list_subtractf distrib_right)
qed

text \<open>A count divided by an interval, all as doubles, times the interval.\<close>

lemma abs_prod_error:
  fixes a :: rat
  assumes "\<bar>b - 1\<bar> \<le> e" "0 \<le> e"
  shows "\<bar>a * b - a\<bar> \<le> \<bar>a\<bar> * e"
proof -
  have "\<bar>a * b - a\<bar> = \<bar>a\<bar> * \<bar>b - 1\<bar>" by (simp flip: abs_mult add: right_diff_distrib)
  then show ?thesis using assms by (simp add: mult_left_mono)
qed

lemma float_rate_error:
  assumes "0 < t"
  shows "\<bar>round_double (round_double x / round_double t) * t - x\<bar> \<le> \<bar>x\<bar> / 2 ^ 50"
proof -
  define u where "u = (1 / 2 ^ 53 :: rat)"
  define y where "y = round_double x"
  define d where "d = round_double t"
  define r where "r = round_double (y / d)"
  have u: "0 < u" "u \<le> 1 / 1000" by (simp_all add: u_def)
  have d: "0 < d" "\<bar>d - t\<bar> \<le> t * u" using round_double_pos [OF assms] round_double_error [of t] assms by (simp_all add: d_def u_def)
  have y: "\<bar>y - x\<bar> \<le> \<bar>x\<bar> * u" using round_double_error [of x] by (simp add: y_def u_def)
  have r: "\<bar>r - y / d\<bar> \<le> \<bar>y / d\<bar> * u" using round_double_error [of "y / d"] by (simp add: r_def u_def)
  have "t * (1 - u) \<le> d" using d(2) by (simp add: abs_le_iff algebra_simps)
  then have "t * (1 - u) * (1 + 2 * u) \<le> d * (1 + 2 * u)" using u by (intro mult_right_mono) auto
  moreover have "1 \<le> (1 - u) * (1 + 2 * u)"
  proof -
    have "0 \<le> u * (1 - 2 * u)" using u by simp
    then show ?thesis by (simp add: algebra_simps)
  qed
  then have "t \<le> t * (1 - u) * (1 + 2 * u)" using assms by (simp add: mult.assoc)
  ultimately have "t \<le> d * (1 + 2 * u)" by linarith
  then have td: "t / d \<le> 1 + 2 * u" "0 < t / d"
    using d(1) assms by (simp_all add: divide_le_eq mult.commute)
  have "r * t - y * (t / d) = (r - y / d) * t" by (simp add: left_diff_distrib)
  then have "\<bar>r * t - y * (t / d)\<bar> = \<bar>r - y / d\<bar> * t" using assms by (simp only: abs_mult abs_of_pos)
  also have "\<dots> \<le> \<bar>y / d\<bar> * u * t" using r assms by (intro mult_right_mono) auto
  also have "\<dots> = \<bar>y\<bar> * u * (t / d)" using d(1) by simp
  also have "\<dots> \<le> \<bar>y\<bar> * u * (1 + 2 * u)" using td u by (intro mult_left_mono) auto
  finally have 1: "\<bar>r * t - y * (t / d)\<bar> \<le> \<bar>y\<bar> * (u * (1 + 2 * u))" by (simp add: mult.assoc)
  have "t / d - 1 = - ((d - t) / d)" using d(1) by (simp add: field_simps)
  then have "\<bar>t / d - 1\<bar> = \<bar>d - t\<bar> / d" using d(1) by simp
  also have "\<dots> \<le> t * u / d" using d by (intro divide_right_mono) auto
  also have "\<dots> \<le> (1 + 2 * u) * u" using td(1) u by (simp add: mult_right_mono flip: times_divide_eq_left)
  finally have 2: "\<bar>y * (t / d) - y\<bar> \<le> \<bar>y\<bar> * ((1 + 2 * u) * u)" using u by (intro abs_prod_error) auto
  have "\<bar>y\<bar> \<le> \<bar>x\<bar> * (1 + u)" using y by (simp add: abs_le_iff algebra_simps) linarith
  then have "\<bar>y\<bar> * (2 * u * (1 + 2 * u)) \<le> \<bar>x\<bar> * (1 + u) * (2 * u * (1 + 2 * u))" using u by (intro mult_right_mono) auto
  then have "\<bar>r * t - x\<bar> \<le> \<bar>x\<bar> * (1 + u) * (2 * u * (1 + 2 * u)) + \<bar>x\<bar> * u"
    using 1 2 y by (simp add: algebra_simps) linarith
  also have "\<dots> = \<bar>x\<bar> * ((1 + u) * (2 * u * (1 + 2 * u)) + u)" by (simp add: algebra_simps)
  also have "\<dots> \<le> \<bar>x\<bar> * (1 / 2 ^ 50)" by (intro mult_left_mono) (simp_all add: u_def)
  finally show ?thesis by (simp add: r_def y_def d_def)
qed

section \<open>Reading plain csv text\<close>

text \<open>Characters of an unquoted field.\<close>

definition plain :: "string \<Rightarrow> bool" where
  "plain s \<longleftrightarrow> s \<noteq> [] \<and> (\<forall>c \<in> set s. c \<noteq> CHR '','' \<and> c \<noteq> CHR 0x22 \<and> \<not> csv_break c)"

lemma csv_go_char:
  assumes "c \<noteq> CHR '',''" "c \<noteq> CHR 0x22" "\<not> csv_break c"
  shows "csv_go InField fld rec (c # cs) = csv_go InField (c # fld) rec cs"
    and "csv_go StartField fld rec (c # cs) = csv_go InField (c # fld) rec cs"
    and "csv_go StartRecord fld rec (c # cs) = csv_go InField (c # fld) rec cs"
  using assms by (simp_all add: Let_def)

lemma csv_go_ends:
  "csv_go InField fld rec (CHR '','' # cs) = csv_go StartField [] (rev fld # rec) cs"
  "csv_go InField fld rec (CHR 0x0A # cs) = rev (rev fld # rec) # csv_go StartRecord [] [] cs"
  by (simp_all add: Let_def csv_break_def)

lemma csv_go_chars:
  "\<forall>c \<in> set s. c \<noteq> CHR '','' \<and> c \<noteq> CHR 0x22 \<and> \<not> csv_break c \<Longrightarrow>
     csv_go InField fld rec (s @ cs) = csv_go InField (rev s @ fld) rec cs"
  by (induction s arbitrary: fld) (simp_all add: csv_go_char del: csv_go.simps)

lemma csv_go_field:
  assumes "plain s"
  shows "csv_go StartField [] rec (s @ cs) = csv_go InField (rev s) rec cs"
    and "csv_go StartRecord [] rec (s @ cs) = csv_go InField (rev s) rec cs"
  using assms by (cases s; simp add: plain_def csv_go_char csv_go_chars del: csv_go.simps)+

lemma csv_go_line3:
  assumes "plain a" "plain b" "plain c"
  shows "csv_go StartRecord [] [] (a @ CHR '','' # b @ CHR '','' # c @ CHR 0x0A # cs) = [a, b, c] # csv_go StartRecord [] [] cs"
  using assms by (simp add: csv_go_field csv_go_ends del: csv_go.simps)

lemma csv_rows_lines3:
  assumes "\<forall>(a, b, c) \<in> set ls. plain a \<and> plain b \<and> plain c"
  shows "csv_rows (concat (map (\<lambda>(a, b, c). a @ CHR '','' # b @ CHR '','' # c @ [CHR 0x0A]) ls)) = map (\<lambda>(a, b, c). [a, b, c]) ls"
  using assms
proof (induction ls)
  case (Cons l ls)
  obtain a b c where "l = (a, b, c)" by (cases l)
  with Cons show ?case by (simp add: csv_rows_def csv_go_line3 del: csv_go.simps)
qed (simp add: csv_rows_def)

lemma plain_isdigit: "isdigit s \<Longrightarrow> plain s"
  by (auto simp: isdigit_def plain_def csv_break_def is_digit_def)

lemma plain_dec_int: "plain (dec_int i)"
proof (cases "i < 0")
  case True
  have "plain (dec_nat (nat (- i)))" by (simp add: plain_isdigit)
  with True show ?thesis by (auto simp: dec_int_def plain_def csv_break_def)
qed (simp add: dec_int_def plain_isdigit)

end
