(* ===== verification/Byte_Accounting.thy ===== *)
theory Byte_Accounting
  imports Py_Text Control_Plane
begin

text \<open>
  The offline comparison of byte volumes (\<^verbatim>\<open>analyze_bytes.py\<close>): the client log is parsed into
  delivered bytes per flow, the flows are folded into the index space of the switch's byte
  counter, the counter dump is loaded, and the report joins and ranks the two. The iteration
  order of a Python set is the parameter \<open>it\<close>. Warnings are kept as data; printing is not
  modelled.
\<close>

section \<open>The client log\<close>

text \<open>\<^verbatim>\<open>Flow\s+(\d+):\s+\<close>, the common beginning of both patterns.\<close>

definition match_flow :: "string \<Rightarrow> (string \<times> string) option" where
  "match_flow s =
     (case strip_prefix ''Flow'' s of
        None \<Rightarrow> None
      | Some s1 \<Rightarrow>
          (case many1 is_space s1 of
             None \<Rightarrow> None
           | Some (_, s2) \<Rightarrow>
               (case many1 is_digit s2 of
                  None \<Rightarrow> None
                | Some (fid, s3) \<Rightarrow>
                    (case strip_prefix '':'' s3 of
                       None \<Rightarrow> None
                     | Some s4 \<Rightarrow> map_option (\<lambda>(_, s5). (fid, s5)) (many1 is_space s4)))))"

definition match_bucket :: "string \<Rightarrow> string option" where
  "match_bucket s =
     (case strip_prefix ''bucket=0x'' s of None \<Rightarrow> None | Some t \<Rightarrow> map_option fst (many1 is_hex t))"

definition match_connected :: "string \<Rightarrow> (string \<times> string) option" where
  "match_connected s =
     (case match_flow s of
        None \<Rightarrow> None
      | Some (fid, r) \<Rightarrow>
          (case strip_prefix ''connected'' r of
             None \<Rightarrow> None
           | Some r' \<Rightarrow>
               if r' \<noteq> [] \<and> is_word (hd r') then None
               else map_option (Pair fid) (search match_bucket r')))"

definition match_delivered :: "string \<Rightarrow> (string \<times> string) option" where
  "match_delivered s =
     (case match_flow s of
        None \<Rightarrow> None
      | Some (fid, r) \<Rightarrow>
          (case many1 (\<lambda>c. is_digit c \<or> c = CHR ''.'') r of
             None \<Rightarrow> None
           | Some (mb, r1) \<Rightarrow>
               (case many1 is_space r1 of
                  None \<Rightarrow> None
                | Some (_, r2) \<Rightarrow> map_option (\<lambda>_. (fid, mb)) (strip_prefix ''MB delivered'' r2))))"

definition RE_CONNECTED :: "string \<Rightarrow> (string \<times> string) option" where
  "RE_CONNECTED line = search match_connected line"

definition RE_DELIVERED :: "string \<Rightarrow> (string \<times> string) option" where
  "RE_DELIVERED line = search match_delivered line"

text \<open>\<^verbatim>\<open>int(round(float(s) * 1e6))\<close>.\<close>

definition delivered_bytes :: "string \<Rightarrow> int result" where
  "delivered_bytes s =
     (case decimal_value s of
        None \<Rightarrow> Inl ValueError
      | Some v \<Rightarrow> Inr (round_even (round_double (round_double v * 10 ^ 6))))"

type_synonym log_state = "(nat, int) dict \<times> (nat, int) dict"

definition log_line :: "log_state \<Rightarrow> string \<Rightarrow> log_state result" where
  "log_line st line =
     (case st of (flow_bucket, flow_bytes) \<Rightarrow>
        (case RE_CONNECTED line of
           Some (fid, b) \<Rightarrow> Inr (AList.update (nat_of_digits fid) (int (nat_of_hex b)) flow_bucket, flow_bytes)
         | None \<Rightarrow>
             (case RE_DELIVERED line of
                Some (fid, mb) \<Rightarrow>
                  mapE (\<lambda>n. (flow_bucket, AList.update (nat_of_digits fid) n flow_bytes)) (delivered_bytes mb)
              | None \<Rightarrow> Inr st)))"

datatype warning = NoBucket nat int | NoBytes nat int | Folds int "int list"

type_synonym flow = "nat \<times> int \<times> int \<times> int"

definition log_flow ::
  "int \<Rightarrow> (nat, int) dict \<Rightarrow> (nat, int) dict \<Rightarrow> (int, int) dict \<times> flow list \<times> warning list \<Rightarrow> nat \<Rightarrow>
   (int, int) dict \<times> flow list \<times> warning list" where
  "log_flow counter_mask flow_bucket flow_bytes st fid =
     (case st of (bucket_bytes, flows, ws) \<Rightarrow>
        (case (map_of flow_bucket fid, map_of flow_bytes fid) of
           (None, Some byts) \<Rightarrow> (bucket_bytes, flows, ws @ [NoBucket fid byts])
         | (None, None) \<Rightarrow> st
         | (Some b, None) \<Rightarrow> (bucket_bytes, flows, ws @ [NoBytes fid b])
         | (Some b, Some byts) \<Rightarrow>
             let ctr_idx = and b counter_mask in
             (dadd ctr_idx byts bucket_bytes, flows @ [(fid, ctr_idx, b, byts)], ws)))"

definition fold_warnings :: "flow list \<Rightarrow> warning list" where
  "fold_warnings flows =
     (let seen = foldl (\<lambda>d (_, ctr_idx, b, _). dunion ctr_idx {b} d) [] flows
      in map (\<lambda>(i, bs). Folds i (sorted_list_of_set bs)) (filter (\<lambda>(i, bs). card bs > 1) seen))"

definition parse_client_log ::
  "string \<Rightarrow> int \<Rightarrow> ((int, int) dict \<times> flow list \<times> warning list) result" where
  "parse_client_log text counter_mask =
     mapE (\<lambda>(flow_bucket, flow_bytes).
         let fids = sort (remdups (dkeys flow_bucket @ dkeys flow_bytes));
             (bucket_bytes, flows, ws) = foldl (log_flow counter_mask flow_bucket flow_bytes) ([], [], []) fids
         in (bucket_bytes, flows, ws @ fold_warnings flows))
       (foldE log_line ([], []) (splitlines text))"

section \<open>The switch dump\<close>

text \<open>\<^verbatim>\<open>int(row.get(name, 0) or 0)\<close>.\<close>

definition int_or_zero :: "(string, string option) dict \<Rightarrow> string \<Rightarrow> int result" where
  "int_or_zero row name =
     (case map_of row name of
        None \<Rightarrow> Inr 0
      | Some None \<Rightarrow> Inr 0
      | Some (Some s) \<Rightarrow> if s = [] then Inr 0 else py_int s)"

definition switch_row ::
  "(int, int \<times> int) dict \<Rightarrow> (string, string option) dict \<Rightarrow> (int, int \<times> int) dict result" where
  "switch_row out row =
     (case map_of row ''bucket'' of
        None \<Rightarrow> Inr out
      | Some None \<Rightarrow> Inl TypeError
      | Some (Some s) \<Rightarrow>
          (case py_int s of
             Inl _ \<Rightarrow> Inr out
           | Inr b \<Rightarrow>
               bindE (int_or_zero row ''pkts'') (\<lambda>pkts.
                 bindE (int_or_zero row ''bytes'') (\<lambda>byts.
                   Inr (AList.update b (pkts, byts) out)))))"

definition load_switch_csv :: "string \<Rightarrow> (int, int \<times> int) dict result" where
  "load_switch_csv text = foldE switch_row [] (dict_rows text)"

section \<open>The report\<close>

text \<open>A relative error, a double; \<open>Infinite\<close> is \<^verbatim>\<open>float("inf")\<close>.\<close>

datatype relerr = Finite rat | Infinite

instantiation relerr :: linorder
begin

fun less_eq_relerr :: "relerr \<Rightarrow> relerr \<Rightarrow> bool" where
  "less_eq_relerr (Finite a) (Finite b) = (a \<le> b)"
| "less_eq_relerr _ Infinite = True"
| "less_eq_relerr Infinite (Finite _) = False"

definition less_relerr :: "relerr \<Rightarrow> relerr \<Rightarrow> bool" where
  "less_relerr a b \<longleftrightarrow> a \<le> b \<and> \<not> b \<le> a"

instance
proof
  fix x y z :: relerr
  show "x < y \<longleftrightarrow> x \<le> y \<and> \<not> y \<le> x" by (rule less_relerr_def)
  show "x \<le> x" by (cases x) auto
  show "x \<le> y \<Longrightarrow> y \<le> z \<Longrightarrow> x \<le> z" by (cases x; cases y; cases z) auto
  show "x \<le> y \<Longrightarrow> y \<le> x \<Longrightarrow> x = y" by (cases x; cases y) auto
  show "x \<le> y \<or> y \<le> x" by (cases x; cases y) auto
qed

end

definition abs_err :: "relerr \<Rightarrow> relerr" where
  "abs_err r = (case r of Finite x \<Rightarrow> Finite \<bar>x\<bar> | Infinite \<Rightarrow> Infinite)"

text \<open>\<^verbatim>\<open>sum(abs_errs) / len(abs_errs)\<close>; the additions are those of CPython before version 3.12.\<close>

definition mean_err :: "relerr list \<Rightarrow> relerr" where
  "mean_err es =
     (if Infinite \<in> set es then Infinite
      else Finite (round_double
        (foldl float_add 0 (map (\<lambda>e. case e of Finite x \<Rightarrow> x | Infinite \<Rightarrow> 0) es) / of_nat (length es))))"

definition heaviest :: "(int \<Rightarrow> int) \<Rightarrow> int list \<Rightarrow> int list" where
  "heaviest vol ks = sort_key (\<lambda>b. - vol b) ks"

definition rank_map :: "(int, int) dict \<Rightarrow> (int, nat) dict" where
  "rank_map d =
     (let ordered = heaviest (\<lambda>b. dget d b 0) (dkeys d) in zip ordered [1..<Suc (length ordered)])"

text \<open>\<^verbatim>\<open>xs[:k]\<close>, negative \<open>k\<close> included.\<close>

definition py_take :: "int \<Rightarrow> 'a list \<Rightarrow> 'a list" where
  "py_take k xs = (if 0 \<le> k then take (nat k) xs else take (length xs - nat (- k)) xs)"

record diff_row =
  row_bucket :: int
  row_app :: int
  row_switch :: int
  row_delta :: int
  row_rel :: relerr
  row_pkts :: int

record report =
  diff_rows :: "diff_row list"
  mean_median :: "(relerr \<times> relerr) option"
  missed :: "int list"
  unexplained :: "int list"
  marks :: "string list"
  overlap :: nat
  top_size :: nat
  exact :: nat
  displacement :: "rat option"

definition diff_of :: "(int, int) dict \<Rightarrow> (int, int \<times> int) dict \<Rightarrow> int \<Rightarrow> diff_row" where
  "diff_of app switch b =
     (let app_b = dget app b 0; (sw_pkts, sw_b) = dget switch b (0, 0); delta = sw_b - app_b
      in \<lparr>row_bucket = b, row_app = app_b, row_switch = sw_b, row_delta = delta,
          row_rel = (if app_b \<noteq> 0 then Finite (round_double (of_int delta / of_int app_b)) else Infinite), row_pkts = sw_pkts\<rparr>)"

definition mark :: "int list \<Rightarrow> int list \<Rightarrow> (int, nat) dict \<Rightarrow> nat \<Rightarrow> string" where
  "mark app_top sw_top sw_rank i =
     (let a = (if i < length app_top then Some (app_top ! i) else None);
          s = (if i < length sw_top then Some (sw_top ! i) else None)
      in if a \<noteq> None \<and> a = s then ''ok''
         else if a \<noteq> None \<and> the a \<in> fst ` set sw_rank then ''rank-off''
         else ''MISS'')"

definition print_report ::
  "(int set \<Rightarrow> int list) \<Rightarrow> (int, int) dict \<Rightarrow> (int, int \<times> int) dict \<Rightarrow> int \<Rightarrow> report" where
  "print_report it app switch topk =
     (let app_vol = (\<lambda>b. dget app b 0);
          sw_bytes = map (\<lambda>(b, v). (b, snd v)) switch;
          sw_vol = (\<lambda>b. dget sw_bytes b 0);
          app_buckets = set (dkeys app);
          sw_buckets = set (dkeys switch);
          rows = map (diff_of app switch) (heaviest app_vol (it (app_buckets \<inter> sw_buckets)));
          errs = sort (map (abs_err \<circ> row_rel) rows);
          app_rank = rank_map app;
          sw_rank = rank_map sw_bytes;
          app_top = py_take topk (heaviest app_vol (dkeys app));
          sw_top = py_take topk (heaviest sw_vol (dkeys switch));
          common = filter (\<lambda>b. b \<in> fst ` set sw_rank) (it (set app_top))
      in \<lparr>diff_rows = rows,
          mean_median = (if errs = [] then None else Some (mean_err errs, errs ! (length errs div 2))),
          missed = take 20 (heaviest app_vol (it (app_buckets - sw_buckets))),
          unexplained = take 20 (heaviest sw_vol (it (sw_buckets - app_buckets))),
          marks = map (mark app_top sw_top sw_rank) [0..<nat topk],
          overlap = card (set app_top \<inter> set sw_top),
          top_size = length app_top,
          exact = length (filter (\<lambda>i. app_top ! i = sw_top ! i) [0..<min (length app_top) (length sw_top)]),
          displacement =
            (if common = [] then None
             else Some (round_double
               (of_int (sum_list (map (\<lambda>b. \<bar>int (dget app_rank b 0) - int (dget sw_rank b 0)\<bar>) common))
                / of_nat (length common))))\<rparr>)"

text \<open>
  \<^verbatim>\<open>main\<close> up to the report: the contents of the log, the name of the switch dump and, where that file exists, its contents.
\<close>

definition counter_mask :: "nat \<Rightarrow> int" where
  "counter_mask counter_bits = push_bit counter_bits 1 - 1"

definition analyze_bytes ::
  "(int set \<Rightarrow> int list) \<Rightarrow> string \<Rightarrow> string \<Rightarrow> string option \<Rightarrow> nat \<Rightarrow> int \<Rightarrow> (flow list \<times> warning list \<times> report) result" where
  "analyze_bytes it log_text path csv_text counter_bits topk =
     bindE (parse_client_log log_text (counter_mask counter_bits)) (\<lambda>(app, flows, ws).
       if flows = [] then
         Inl (SysExit (''ERROR: no '' @ [CHR 0x27] @ ''Flow N: connected ... bucket=0x...'' @ [CHR 0x27] @ '' / '' @
           [CHR 0x27] @ ''MB delivered'' @ [CHR 0x27] @ '' pairs found in the client log.''))
       else (case csv_text of
               None \<Rightarrow>
                 Inl (SysExit (''ERROR: switch CSV not found: '' @ path @
                   ''  (run bfrt_python/dump_bytes.py on the switch first)''))
             | Some text \<Rightarrow>
                 bindE (load_switch_csv text) (\<lambda>switch. Inr (flows, ws, print_report it app switch topk))))"

section \<open>Accounting of the log\<close>

definition both_lines :: "int \<Rightarrow> (nat, int) dict \<Rightarrow> (nat, int) dict \<Rightarrow> nat \<Rightarrow> flow list" where
  "both_lines m fb fy fid =
     (case (map_of fb fid, map_of fy fid) of (Some b, Some n) \<Rightarrow> [(fid, and b m, b, n)] | _ \<Rightarrow> [])"

definition flow_idx :: "flow \<Rightarrow> int" where "flow_idx f = fst (snd f)"
definition flow_vol :: "flow \<Rightarrow> int" where "flow_vol f = snd (snd (snd f))"

lemma log_flow_cases:
  "\<exists>w. log_flow m fb fy (bb, fl, ws) fid =
     (foldl (\<lambda>d f. dadd (flow_idx f) (flow_vol f) d) bb (both_lines m fb fy fid), fl @ both_lines m fb fy fid, ws @ w)"
  by (auto simp: log_flow_def both_lines_def flow_idx_def flow_vol_def Let_def split: option.split)

lemma foldl_log_flow:
  "\<exists>w. foldl (log_flow m fb fy) (bb, fl, ws) fids =
     (foldl (\<lambda>d f. dadd (flow_idx f) (flow_vol f) d) bb (concat (map (both_lines m fb fy) fids)),
      fl @ concat (map (both_lines m fb fy) fids), ws @ w)"
proof (induction fids arbitrary: bb fl ws)
  case (Cons fid fids)
  obtain w where w: "log_flow m fb fy (bb, fl, ws) fid =
      (foldl (\<lambda>d f. dadd (flow_idx f) (flow_vol f) d) bb (both_lines m fb fy fid), fl @ both_lines m fb fy fid, ws @ w)"
    using log_flow_cases by blast
  show ?case
    using Cons.IH [of "foldl (\<lambda>d f. dadd (flow_idx f) (flow_vol f) d) bb (both_lines m fb fy fid)"
      "fl @ both_lines m fb fy fid" "ws @ w"] by (auto simp: w)
qed simp

lemma foldl_dadd_ok:
  fixes d :: "(int, int) dict"
  shows "dict_ok d \<Longrightarrow> dict_ok (foldl (\<lambda>d f. dadd (flow_idx f) (flow_vol f) d) d fl)"
  by (induction fl arbitrary: d) auto

lemma foldl_dadd_get:
  fixes d :: "(int, int) dict"
  shows "dget (foldl (\<lambda>d f. dadd (flow_idx f) (flow_vol f) d) d fl) i 0 =
    dget d i 0 + sum_list (map flow_vol [f \<leftarrow> fl. flow_idx f = i])"
  by (induction fl arbitrary: d) (simp_all add: dget_dadd)

lemma foldl_dadd_sum:
  fixes d :: "(int, int) dict"
  shows "dict_ok d \<Longrightarrow> sum_list (dvalues (foldl (\<lambda>d f. dadd (flow_idx f) (flow_vol f) d) d fl)) =
    sum_list (dvalues d) + sum_list (map flow_vol fl)"
  by (induction fl arbitrary: d) (simp_all add: sum_list_dadd)

lemma foldl_dadd_keys:
  fixes d :: "(int, int) dict"
  shows "fst ` set (foldl (\<lambda>d f. dadd (flow_idx f) (flow_vol f) d) d fl) = fst ` set d \<union> flow_idx ` set fl"
  by (induction fl arbitrary: d) auto

lemma parse_client_log_flows:
  assumes "parse_client_log text m = Inr (bb, fl, ws)"
  obtains fb fy where "foldE log_line ([], []) (splitlines text) = Inr (fb, fy)"
    and "fl = concat (map (both_lines m fb fy) (sort (remdups (dkeys fb @ dkeys fy))))"
    and "bb = foldl (\<lambda>d f. dadd (flow_idx f) (flow_vol f) d) [] fl"
proof -
  from assms obtain fb fy where st: "foldE log_line ([], []) (splitlines text) = Inr (fb, fy)"
    by (auto simp: parse_client_log_def mapE_eq_Inr_iff)
  let ?fids = "sort (remdups (dkeys fb @ dkeys fy))"
  obtain w where "foldl (log_flow m fb fy) ([], [], []) ?fids =
      (foldl (\<lambda>d f. dadd (flow_idx f) (flow_vol f) d) [] (concat (map (both_lines m fb fy) ?fids)),
       concat (map (both_lines m fb fy) ?fids), w)"
    using foldl_log_flow [of m fb fy "[]" "[]" "[]" ?fids] by auto
  with assms st have "fl = concat (map (both_lines m fb fy) ?fids)"
    and "bb = foldl (\<lambda>d f. dadd (flow_idx f) (flow_vol f) d) [] (concat (map (both_lines m fb fy) ?fids))"
    by (auto simp: parse_client_log_def Let_def)
  with that st show thesis by blast
qed

lemma concat_both_lines: "f \<in> set (concat (map (both_lines m fb fy) fids)) \<longleftrightarrow>
   (\<exists>fid b n. fid \<in> set fids \<and> map_of fb fid = Some b \<and> map_of fy fid = Some n \<and> f = (fid, and b m, b, n))"
  by (auto simp: both_lines_def split: option.splits)

lemma both_lines_order:
  "sorted fids \<Longrightarrow> distinct fids \<Longrightarrow> sorted (map fst (concat (map (both_lines m fb fy) fids))) \<and>
     distinct (map fst (concat (map (both_lines m fb fy) fids)))"
proof (induction fids)
  case (Cons fid fids)
  have "fid < f" if "f \<in> fst ` set (concat (map (both_lines m fb fy) fids))" for f
    using that Cons.prems by (auto simp: concat_both_lines order_less_le simp del: set_concat)
  moreover have "both_lines m fb fy fid = [] \<or> (\<exists>t. both_lines m fb fy fid = [(fid, t)])"
    by (simp add: both_lines_def split: option.split)
  ultimately show ?case
    using Cons by (fastforce simp: less_imp_le simp del: set_concat)
qed simp

section \<open>Exactness of the delivered volume\<close>

lemma double_product_exact:
  fixes v :: rat
  assumes "0 \<le> v" "v * 10 ^ 6 = of_int n" "n \<le> 2 ^ 50"
  shows "round_even (round_double (round_double v * 10 ^ 6)) = n"
proof -
  define w where "w = round_double v"
  define y where "y = round_double (w * 10 ^ 6)"
  have n: "(of_int n :: rat) \<le> 2 ^ 50"
  proof -
    have "of_int n \<le> (of_int (2 ^ 50) :: rat)" by (rule of_int_le_iff [THEN iffD2, OF assms(3)])
    then show ?thesis by (simp only: of_int_power of_int_numeral)
  qed
  have w: "\<bar>w - v\<bar> \<le> v / 2 ^ 53" "0 \<le> w"
    using round_double_error [of v] round_double_nonneg [OF assms(1)] assms(1) by (simp_all add: w_def)
  have "\<bar>w * 10 ^ 6 - v * 10 ^ 6\<bar> = \<bar>w - v\<bar> * \<bar>10 ^ 6\<bar>"
    by (simp only: left_diff_distrib [symmetric] abs_mult)
  then have "\<bar>w * 10 ^ 6 - v * 10 ^ 6\<bar> = \<bar>w - v\<bar> * 10 ^ 6" by (simp only: abs_power2 abs_numeral power_abs)
  also have "\<bar>w - v\<bar> * 10 ^ 6 \<le> v / 2 ^ 53 * 10 ^ 6" using w(1) by (intro mult_right_mono) auto
  also have "\<dots> = of_int n / 2 ^ 53" using assms(2) by simp
  also have "\<dots> \<le> 1 / 8" using n by simp
  finally have 1: "\<bar>w * 10 ^ 6 - of_int n\<bar> \<le> 1 / 8" by (simp only: assms(2))
  then have "w * 10 ^ 6 \<le> 2 ^ 50 + 1 / 8" using n by (simp only: abs_le_iff) linarith
  moreover have "\<bar>y - w * 10 ^ 6\<bar> \<le> w * 10 ^ 6 / 2 ^ 53"
    using round_double_error [of "w * 10 ^ 6"] w(2) by (simp add: y_def)
  ultimately have "\<bar>y - w * 10 ^ 6\<bar> \<le> (2 ^ 50 + 1 / 8) / 2 ^ 53"
    by (meson divide_right_mono order_trans zero_le_numeral zero_le_power)
  then have "\<bar>y - w * 10 ^ 6\<bar> \<le> 1 / 4" by simp
  with 1 have "\<bar>y - of_int n\<bar> < 1 / 2" by linarith
  then show ?thesis using round_even_near by (simp add: y_def w_def)
qed

text \<open>What the client prints for \<open>n\<close> hundredths of a megabyte.\<close>

definition two_decimals :: "nat \<Rightarrow> string" where
  "two_decimals n = dec_nat (n div 100) @ ''.'' @ [digit_char (n div 10 mod 10), digit_char (n mod 10)]"

lemma digit_char_digit: "d < 10 \<Longrightarrow> is_digit (digit_char d) \<and> digit_val (digit_char d) = d"
  by simp

lemma decimal_value_two_decimals: "decimal_value (two_decimals n) = Some (of_nat n / 100)"
proof -
  let ?b = "[digit_char (n div 10 mod 10), digit_char (n mod 10)]"
  have b: "isdigit ?b" using digit_char_digit by (simp add: isdigit_def)
  have p: "\<not> is_digit (CHR ''.'')" by (simp add: is_digit_def)
  have "split_on (CHR ''.'') (two_decimals n) = [dec_nat (n div 100), ?b]"
    using split_on_append [OF isdigit_not_mem [OF isdigit_dec_nat [of "n div 100"] p], of ?b]
      split_on_id [OF isdigit_not_mem [OF b p]] by (simp add: two_decimals_def)
  moreover have "nat_of_digits (dec_nat (n div 100) @ ?b) = n"
  proof -
    have "nat_of_digits (dec_nat (n div 100) @ ?b) = 10 * (10 * (n div 100) + n div 10 mod 10) + n mod 10"
      using nat_of_digits_snoc [of "dec_nat (n div 100) @ [digit_char (n div 10 mod 10)]" "digit_char (n mod 10)"]
        nat_of_digits_snoc [of "dec_nat (n div 100)" "digit_char (n div 10 mod 10)"] digit_char_digit by simp
    also have "10 * (n div 100) + n div 10 mod 10 = n div 10" by (simp add: div_mult2_eq [of n 10 10, simplified])
    finally show ?thesis by simp
  qed
  ultimately show ?thesis using b by (simp add: decimal_value_def)
qed

lemma delivered_bytes_two_decimals:
  assumes "n * 10000 \<le> 2 ^ 50"
  shows "delivered_bytes (two_decimals n) = Inr (int n * 10000)"
proof -
  have "(of_nat n / 100 :: rat) * 10 ^ 6 = of_int (int n * 10000)" by simp
  moreover have "int n * 10000 \<le> 2 ^ 50" using assms by (metis of_nat_le_iff of_nat_mult of_nat_numeral of_nat_power)
  ultimately show ?thesis
    using double_product_exact [of "of_nat n / 100" "int n * 10000"]
    by (simp add: delivered_bytes_def decimal_value_two_decimals)
qed

text \<open>
  The volume that the report attributes to a flow is the printed one: although
  \<^verbatim>\<open>int(round(float(s) * 1e6))\<close> rounds twice to a double, for every number of hundredths of a
  megabyte up to \<open>2 ^ 50\<close> bytes the result is exactly that number times 10,000.
\<close>

theorem delivered_volume_is_exact:
  assumes "n * 10000 \<le> 2 ^ 50"
  shows "delivered_bytes (two_decimals n) = Inr (int n * 10000)"
  using assms by (rule delivered_bytes_two_decimals)

theorem delivered_volume_is_exact_witness: "delivered_bytes (two_decimals 10007) = Inr 100070000"
  using delivered_volume_is_exact [of 10007] by simp

section \<open>The fold into the counter\<close>

text \<open>
  C24. Accounting of the client log. Whatever the log contains, when it parses, the flows that
  enter the comparison are exactly those with both a bucket and a volume, each once and in the
  order of their numbers, folded with the mask; the volume of a counter index is the sum over
  its flows, and no byte is lost or counted twice.
\<close>

theorem client_log_accounting:
  assumes "parse_client_log text m = Inr (bb, fl, ws)"
  shows "dict_ok bb \<and> set (dkeys bb) = flow_idx ` set fl
    \<and> (\<forall>i. dget bb i 0 = sum_list (map flow_vol [f \<leftarrow> fl. flow_idx f = i]))
    \<and> sum_list (dvalues bb) = sum_list (map flow_vol fl)
    \<and> sorted (map fst fl) \<and> distinct (map fst fl)
    \<and> (\<exists>fb fy. foldE log_line ([], []) (splitlines text) = Inr (fb, fy)
         \<and> set fl = {(fid, and b m, b, n) | fid b n. map_of fb fid = Some b \<and> map_of fy fid = Some n})"
proof -
  from assms obtain fb fy where st: "foldE log_line ([], []) (splitlines text) = Inr (fb, fy)"
    and fl: "fl = concat (map (both_lines m fb fy) (sort (remdups (dkeys fb @ dkeys fy))))"
    and bb: "bb = foldl (\<lambda>d f. dadd (flow_idx f) (flow_vol f) d) [] fl"
    by (rule parse_client_log_flows)
  have "set fl = {(fid, and b m, b, n) | fid b n. map_of fb fid = Some b \<and> map_of fy fid = Some n}"
  proof -
    have "fid \<in> set (dkeys fb)" if "map_of fb fid = Some b" for fid b
      using map_of_SomeD [OF that] by (force simp: dkeys_def)
    then show ?thesis unfolding fl by (auto simp: concat_both_lines simp del: set_concat)
  qed
  moreover have "sorted (map fst fl) \<and> distinct (map fst fl)"
    unfolding fl by (rule both_lines_order) simp_all
  ultimately show ?thesis
    using st foldl_dadd_ok [of "[]" fl] foldl_dadd_sum [of "[]" fl] foldl_dadd_keys [of "[]" fl] foldl_dadd_get [of "[]" fl]
    by (simp add: bb dkeys_def dvalues_def)
qed

lemma counter_mask_bits: "bit (counter_mask n) k \<longleftrightarrow> k < n"
  by (simp add: counter_mask_def mask_eq_exp_minus_1 [symmetric] push_bit_eq_mult bit_mask_iff possible_bit_def)

lemma fold_bits:
  fixes b :: "17 word"
  shows "and (uint b) (counter_mask n) = uint (ucast b :: 15 word) \<longleftrightarrow> (\<forall>k. bit b k \<longrightarrow> (k < n \<longleftrightarrow> k < 15))"
proof -
  have A: "bit (uint (ucast b :: 15 word)) k \<longleftrightarrow> k < 15 \<and> bit b k" for k
    by (simp add: bit_uint_iff bit_ucast_iff)
  have B: "bit (and (uint b) (counter_mask n)) k \<longleftrightarrow> bit b k \<and> k < n" for k
    by (auto simp: bit_and_iff bit_uint_iff counter_mask_bits dest: bit_imp_le_length)
  show ?thesis
  proof
    assume "and (uint b) (counter_mask n) = uint (ucast b :: 15 word)"
    then have "bit b k \<and> k < n \<longleftrightarrow> k < 15 \<and> bit b k" for k by (simp only: A [symmetric] B [symmetric])
    then show "\<forall>k. bit b k \<longrightarrow> (k < n \<longleftrightarrow> k < 15)" by blast
  next
    assume "\<forall>k. bit b k \<longrightarrow> (k < n \<longleftrightarrow> k < 15)"
    then show "and (uint b) (counter_mask n) = uint (ucast b :: 15 word)"
      by (intro bit_eqI) (simp only: A B, blast)
  qed
qed

lemma counted_cell:
  "quic_flow_bytes (snd (count_packet 1 b empty_switch)) i \<noteq> quic_flow_bytes empty_switch i \<longleftrightarrow> i = ucast b"
  by (simp add: count_packet_def count_quic_def count_ctr_def empty_switch_def Let_def)

text \<open>
  C26. The one right width. Folding the 17-bit bucket that the client prints with
  \<^verbatim>\<open>--counter-bits n\<close> gives, for every bucket, the index at which the data plane counts its bytes
  if and only if \<open>n\<close> is 15; the default of the script is 10.
\<close>

theorem counter_bits_must_be_15:
  "(\<forall>b i. quic_flow_bytes (snd (count_packet 1 b empty_switch)) i \<noteq> quic_flow_bytes empty_switch i \<longleftrightarrow>
      uint i = and (uint b) (counter_mask n)) \<longleftrightarrow> n = 15"
proof
  assume a: "\<forall>b i. quic_flow_bytes (snd (count_packet 1 b empty_switch)) i \<noteq> quic_flow_bytes empty_switch i \<longleftrightarrow>
      uint i = and (uint b) (counter_mask n)"
  then have "and (uint b) (counter_mask n) = uint (ucast b :: 15 word)" for b :: "17 word"
    unfolding counted_cell by (metis (no_types))
  then have bits: "k < n \<longleftrightarrow> k < 15" if "k < 17" for k
    using fold_bits [of "2 ^ k" n] that bit_exp_iff [of k k, where 'a = "17 word"] by simp
  from bits [of 14] bits [of 15] show "n = 15" by simp
next
  assume "n = 15"
  then have "and (uint b) (counter_mask n) = uint (ucast b :: 15 word)" for b :: "17 word"
    by (simp add: fold_bits)
  then show "\<forall>b i. quic_flow_bytes (snd (count_packet 1 b empty_switch)) i \<noteq> quic_flow_bytes empty_switch i \<longleftrightarrow>
      uint i = and (uint b) (counter_mask n)"
    unfolding counted_cell by (simp add: word_uint_eq_iff)
qed

section \<open>The counter dump read back\<close>

lemma bytes_csv_lines:
  "bytes_csv rs = concat (map (\<lambda>(a, b, c). a @ CHR '','' # b @ CHR '','' # c @ [CHR 0x0A])
     ((''bucket'', ''pkts'', ''bytes'') # map (\<lambda>(i, p, b). (dec_int i, dec_int p, dec_int b)) rs))"
  by (simp add: bytes_csv_def comp_def case_prod_unfold)

lemma csv_rows_bytes_csv:
  "csv_rows (bytes_csv rs) = [''bucket'', ''pkts'', ''bytes''] # map (\<lambda>(i, p, b). [dec_int i, dec_int p, dec_int b]) rs"
proof -
  have "plain ''bucket''" "plain ''pkts''" "plain ''bytes''" by (simp_all add: plain_def csv_break_def)
  then have "\<forall>(a, b, c) \<in> set ((''bucket'', ''pkts'', ''bytes'') # map (\<lambda>(i, p, b). (dec_int i, dec_int p, dec_int b)) rs).
      plain a \<and> plain b \<and> plain c"
    by (auto simp: plain_dec_int)
  from csv_rows_lines3 [OF this] show ?thesis by (simp only: bytes_csv_lines) (simp add: comp_def case_prod_beta)
qed

lemma switch_row_dict:
  "switch_row out (dict_row [''bucket'', ''pkts'', ''bytes''] [dec_int i, dec_int p, dec_int b]) = Inr (AList.update i (p, b) out)"
  using plain_dec_int [of p] plain_dec_int [of b]
  by (simp add: dict_row_def switch_row_def int_or_zero_def py_int_dec_int plain_def)

lemma load_bytes_csv:
  assumes "dict_ok rs"
  shows "load_switch_csv (bytes_csv rs) = Inr rs"
proof -
  have "foldE switch_row out (map (dict_row [''bucket'', ''pkts'', ''bytes''])
      (map (\<lambda>(i, p, b). [dec_int i, dec_int p, dec_int b]) rs)) = Inr (dupdate out rs)" for out
    by (induction rs arbitrary: out) (auto simp: switch_row_dict)
  moreover have "filter (\<lambda>r. r \<noteq> []) (map (\<lambda>(i, p, b). [dec_int i, dec_int p, dec_int b]) rs) =
      map (\<lambda>(i, p, b). [dec_int i, dec_int p, dec_int b]) rs"
    by (rule filter_True) auto
  ultimately have "load_switch_csv (bytes_csv rs) = Inr (dupdate [] rs)"
    by (simp add: load_switch_csv_def dict_rows_def csv_rows_bytes_csv)
  then show ?thesis using dupdate_append [of "[]" rs] assms by simp
qed

lemma byte_cells_ok: "dict_ok (byte_cells n f)"
  by (simp add: byte_cells_def dict_ok_def comp_def distinct_map inj_on_def)

text \<open>
  The counter dump reaches the comparison intact: what \<^verbatim>\<open>analyze_bytes.py\<close> loads from the
  file that \<^verbatim>\<open>dump_bytes.py\<close> wrote are exactly the cells of the byte counter that counted a
  packet or a byte, with both values.
\<close>

theorem byte_dump_is_read_back:
  assumes "bfrt_reads b view soft"
  shows "bindE (dump_bytes b d) (\<lambda>(rs, csv). load_switch_csv csv) =
    Inr (map (\<lambda>i. (int i, int (unat (ctr_pkts (quic_flow_bytes (view d) (word_of_nat i)))),
                          int (unat (ctr_bytes (quic_flow_bytes (view d) (word_of_nat i))))))
           [i \<leftarrow> [0..<32768]. ctr_pkts (quic_flow_bytes (view d) (word_of_nat i)) \<noteq> 0 \<or>
                             ctr_bytes (quic_flow_bytes (view d) (word_of_nat i)) \<noteq> 0])"
proof -
  have nz: "0 < unat w \<longleftrightarrow> w \<noteq> 0" for w :: "64 word" by (simp add: unat_gt_0)
  show ?thesis
    using load_bytes_csv [OF byte_cells_ok, of 32768 "byte_cell (view d)"]
    by (simp only: bfrt_reads.dump_bytes_cells [OF assms] bindE_Inr prod.case)
      (simp only: byte_cells_def byte_cell_def fst_conv snd_conv nz)
qed

theorem byte_dump_is_read_back_witness:
  "bindE (dump_bytes switch_bfrt (unsynced empty_switch)) (\<lambda>(rs, csv). load_switch_csv csv) = Inr []"
  using byte_dump_is_read_back [OF sw.bfrt_reads_axioms, of "unsynced empty_switch"] by simp

section \<open>Ranking\<close>

lemma heaviest_simps [simp]: "set (heaviest v ks) = set ks" "length (heaviest v ks) = length ks"
  "distinct (heaviest v ks) \<longleftrightarrow> distinct ks"
  by (simp_all add: heaviest_def)

lemma heaviest_order:
  assumes "i < j" "j < length ks"
  shows "v (heaviest v ks ! j) \<le> v (heaviest v ks ! i)"
  using sorted_nth_mono [OF sorted_sort_key [of "\<lambda>b. - v b" ks], of i j] assms by (simp add: heaviest_def)

lemma map_of_zip_ranks:
  assumes "distinct xs" "i < length xs"
  shows "map_of (zip xs [1..<Suc (length xs)]) (xs ! i) = Some (Suc i)"
  using map_of_zip_nth [of xs "[1..<Suc (length xs)]" i] assms by (simp del: upt_Suc)

text \<open>
  The rank map is a ranking: with the keys of a dictionary it pairs the numbers 1 to \<open>n\<close>,
  each once, and a bucket with more bytes than another is ranked before it.
\<close>

theorem rank_map_is_a_ranking:
  assumes "dict_ok d"
  shows "bij_betw (\<lambda>b. dget (rank_map d) b 0) (set (dkeys d)) {1..length d}
    \<and> (\<forall>a \<in> set (dkeys d). \<forall>b \<in> set (dkeys d). dget d b 0 < dget d a 0 \<longrightarrow>
         dget (rank_map d) a 0 < dget (rank_map d) b 0)"
proof -
  let ?v = "\<lambda>b. dget d b 0"
  let ?o = "heaviest ?v (dkeys d)" and ?r = "\<lambda>b. dget (rank_map d) b 0"
  have dist: "distinct ?o" and len: "length ?o = length d"
    using assms by (simp_all add: dict_ok_def dkeys_def)
  have r: "?r (?o ! i) = Suc i" if "i < length d" for i
    using map_of_zip_ranks [OF dist, of i] that len by (simp add: rank_map_def dget_def Let_def del: upt_Suc)
  have pos: "\<exists>i < length d. b = ?o ! i" if "b \<in> set (dkeys d)" for b
  proof -
    have "b \<in> set ?o" using that by simp
    then show ?thesis using len by (metis in_set_conv_nth)
  qed
  have bij: "bij_betw ?r (set (dkeys d)) {1..length d}"
  proof (rule bij_betw_imageI)
    show "inj_on ?r (set (dkeys d))"
      by (rule inj_onI) (metis Suc_inject pos r)
    show "?r ` set (dkeys d) = {1..length d}"
    proof safe
      fix b assume "b \<in> set (dkeys d)"
      with pos r show "?r b \<in> {1..length d}" by fastforce
    next
      fix k assume k: "k \<in> {1..length d}"
      then have "?r (?o ! (k - 1)) = k" using r [of "k - 1"] by auto
      moreover have "?o ! (k - 1) \<in> set (dkeys d)"
      proof -
        have "?o ! (k - 1) \<in> set ?o" using k len by (intro nth_mem) auto
        then show ?thesis by simp
      qed
      ultimately show "k \<in> ?r ` set (dkeys d)" by force
    qed
  qed
  moreover have "?r a < ?r b" if ab: "a \<in> set (dkeys d)" "b \<in> set (dkeys d)" "?v b < ?v a" for a b
  proof -
    obtain i j where ij: "i < length d" "a = ?o ! i" "j < length d" "b = ?o ! j" using pos ab by metis
    have "\<not> j < i" using heaviest_order [of j i "dkeys d" ?v] ij ab(3) len by (auto simp: dkeys_def)
    moreover have "i \<noteq> j" using ij ab(3) by auto
    ultimately show ?thesis using ij r by simp
  qed
  ultimately show ?thesis by blast
qed

theorem rank_map_is_a_ranking_witness:
  "bij_betw (\<lambda>b. dget (rank_map [(7, 10), (3, 25)]) b 0) {7, 3} {1..2}
   \<and> dget (rank_map [(7, 10), (3, 25)]) 3 0 < dget (rank_map [(7, 10), (3, 25)]) 7 0"
proof -
  have ok: "dict_ok [(7 :: int, 10 :: int), (3, 25)]" by (simp add: dict_ok_def)
  show ?thesis using rank_map_is_a_ranking [OF ok] by (simp add: dkeys_def dget_def numeral_2_eq_2)
qed

section \<open>The lines of the log\<close>

text \<open>
  What the client prints when a flow has connected and when its transfer has ended; the rest
  of the second line (duration and rate) is any text without line breaks and without an \<open>F\<close>.
\<close>

datatype log_event = Connected nat bytes nat | Delivered nat nat string

definition hex5 :: "nat \<Rightarrow> string" where
  "hex5 b = map (\<lambda>k. hex_digit (b div 16 ^ k mod 16)) [4, 3, 2, 1, 0]"

fun event_line :: "log_event \<Rightarrow> string" where
  "event_line (Connected fid cid b) =
     ''  Flow '' @ dec_nat fid @ '': connected  CID='' @ hex cid @ ''  bucket=0x'' @ hex5 b"
| "event_line (Delivered fid n tail) =
     ''  Flow '' @ dec_nat fid @ '': '' @ two_decimals n @ '' MB delivered'' @ tail"

fun event_ok :: "log_event \<Rightarrow> bool" where
  "event_ok (Connected fid cid b) \<longleftrightarrow> b < 16 ^ 5"
| "event_ok (Delivered fid n tail) \<longleftrightarrow> n * 10000 \<le> 2 ^ 50 \<and> (\<forall>c \<in> set tail. c \<noteq> CHR ''F'' \<and> \<not> is_linebreak c)"

definition log_text :: "log_event list \<Rightarrow> string" where
  "log_text evs = concat (map (\<lambda>e. event_line e @ [CHR 0x0A]) evs)"

fun log_update :: "log_state \<Rightarrow> log_event \<Rightarrow> log_state" where
  "log_update (fb, fy) (Connected fid cid b) = (AList.update fid (int b) fb, fy)"
| "log_update (fb, fy) (Delivered fid n tail) = (fb, AList.update fid (int n * 10000) fy)"

lemma many1_append:
  assumes "xs \<noteq> []" "\<forall>c \<in> set xs. P c" "ys = [] \<or> \<not> P (hd ys)"
  shows "many1 P (xs @ ys) = Some (xs, ys)"
proof -
  have "takeWhile P (xs @ ys) = xs" "dropWhile P (xs @ ys) = ys"
    using assms(2,3) by (cases ys; simp add: takeWhile_append2 dropWhile_append2)+
  with assms(1) show ?thesis by (simp add: many1_def)
qed

lemma isdigit_many1: "isdigit s \<Longrightarrow> ys = [] \<or> \<not> is_digit (hd ys) \<Longrightarrow> many1 is_digit (s @ ys) = Some (s, ys)"
  by (rule many1_append) (auto simp: isdigit_def)

lemma space_class: "is_space (CHR '' '')" "\<not> is_digit (CHR '' '')" "\<not> is_digit (CHR '':'')"
  by (simp_all add: is_space_def is_digit_def)

lemma digit_not_space: "is_digit c \<Longrightarrow> \<not> is_space c"
  by (rule is_digit_not_space)

lemma hd_dec_nat: "is_digit (hd (dec_nat n @ ys))"
  using isdigit_dec_nat [of n] by (cases "dec_nat n") (simp_all add: isdigit_def)

lemma match_flow_line:
  assumes "r \<noteq> []" "\<not> is_space (hd r)"
  shows "match_flow (''Flow '' @ dec_nat fid @ '': '' @ r) = Some (dec_nat fid, r)"
proof -
  have 1: "many1 is_space ('' '' @ dec_nat fid @ '': '' @ r) = Some ('' '', dec_nat fid @ '': '' @ r)"
    using hd_dec_nat [of fid "'': '' @ r"] by (intro many1_append) (auto simp: space_class digit_not_space)
  have 2: "many1 is_digit (dec_nat fid @ '': '' @ r) = Some (dec_nat fid, '': '' @ r)"
    by (intro isdigit_many1) (simp_all add: space_class)
  have 3: "many1 is_space ('' '' @ r) = Some ('' '', r)"
    using assms by (intro many1_append) (auto simp: space_class)
  have "strip_prefix ''Flow'' (''Flow '' @ dec_nat fid @ '': '' @ r) = Some ('' '' @ dec_nat fid @ '': '' @ r)"
    by (simp add: strip_prefix_def)
  moreover have "strip_prefix '':'' ('': '' @ r) = Some ('' '' @ r)" by (simp add: strip_prefix_def)
  ultimately show ?thesis using 1 2 3 by (simp only: match_flow_def option.case prod.case option.map)
qed

lemma match_flow_space: "match_flow (CHR '' '' # s) = None"
  by (simp add: match_flow_def strip_prefix_def)

text \<open>A pattern that begins with a given letter is only looked for where that letter is.\<close>

lemma search_none:
  assumes "\<And>c t. c \<noteq> x \<Longrightarrow> m (c # t) = None" "m [] = None" "x \<notin> set s"
  shows "search m s = None"
  using assms by (induction s) auto

lemma match_letters:
  "c \<noteq> CHR ''F'' \<Longrightarrow> match_connected (c # t) = None" "match_connected [] = None"
  "c \<noteq> CHR ''F'' \<Longrightarrow> match_delivered (c # t) = None" "match_delivered [] = None"
  by (simp_all add: match_connected_def match_delivered_def match_flow_def strip_prefix_def)

lemma search_here: "m s = Some x \<Longrightarrow> search m s = Some x"
  by (cases s) simp_all

lemma search_line_start:
  "search match_connected (''  Flow '' @ s) = search match_connected (''Flow '' @ s)"
  "search match_delivered (''  Flow '' @ s) = search match_delivered (''Flow '' @ s)"
  by (simp_all add: match_letters)

lemma match_bucket_skip:
  assumes "c \<noteq> CHR ''b'' \<or> (t \<noteq> [] \<and> hd t \<noteq> CHR ''u'')"
  shows "match_bucket (c # t) = None"
  using assms by (cases t) (auto simp: match_bucket_def strip_prefix_def)

lemma search_bucket_skip:
  "CHR ''u'' \<notin> set p \<Longrightarrow> p = [] \<or> last p \<noteq> CHR ''b'' \<Longrightarrow> search match_bucket (p @ s) = search match_bucket s"
proof (induction p)
  case (Cons c p)
  have "match_bucket (c # p @ s) = None"
    using Cons.prems by (intro match_bucket_skip) (cases p; auto)
  with Cons show ?case by (auto split: if_splits)
qed simp

lemma set_hex: "c \<in> set (hex bs) \<Longrightarrow> \<exists>d < 16. c = hex_digit d"
proof (induction bs)
  case (Cons b bs)
  have "unat b div 16 < 16" using unat_byte_less [of b] by (simp add: less_mult_imp_div_less)
  moreover have "unat b mod 16 < 16" by simp
  moreover have "c = hex_digit (unat b div 16) \<or> c = hex_digit (unat b mod 16) \<or> c \<in> set (hex bs)"
    using Cons.prems by (simp add: hex_Cons)
  ultimately show ?case using Cons.IH by blast
qed simp

lemma hex_digit_class:
  assumes "d < 16"
  shows "is_hex (hex_digit d)" "hex_digit d \<noteq> CHR ''u''" "hex_digit d \<noteq> CHR ''F''" "\<not> is_linebreak (hex_digit d)"
proof -
  show "is_hex (hex_digit d)" using assms by (simp add: is_hex_def)
  have n: "(of_char (hex_digit d) :: nat) = (if d < 10 then 48 + d else 87 + d)"
    using assms by (simp add: hex_digit_def)
  have "(of_char (CHR ''u'') :: nat) = 117" "(of_char (CHR ''F'') :: nat) = 70" by simp_all
  with n assms show "hex_digit d \<noteq> CHR ''u''" "hex_digit d \<noteq> CHR ''F''" by (auto split: if_splits)
  show "\<not> is_linebreak (hex_digit d)" using n assms by (simp add: is_linebreak_def)
qed

lemma hex5_class: "\<forall>c \<in> set (hex5 b). is_hex c" "hex5 b \<noteq> []" "\<forall>c \<in> set (hex5 b). \<not> is_linebreak c"
  by (simp_all add: hex5_def hex_digit_class)

lemma nat_of_hex_hex5: "b < 16 ^ 5 \<Longrightarrow> nat_of_hex (hex5 b) = b"
proof -
  assume b: "b < 16 ^ 5"
  have "b = 16 * (b div 16) + b mod 16" "b div 16 = 16 * (b div 256) + b div 16 mod 16"
    "b div 256 = 16 * (b div 4096) + b div 256 mod 16" "b div 4096 = 16 * (b div 65536) + b div 4096 mod 16"
    using mult_div_mod_eq [of 16 b] mult_div_mod_eq [of 16 "b div 16"] mult_div_mod_eq [of 16 "b div 256"]
      mult_div_mod_eq [of 16 "b div 4096"] by (simp_all add: div_mult2_eq [symmetric])
  moreover have lt: "b div 65536 < 16" using b by (simp add: less_mult_imp_div_less)
  moreover have "nat_of_hex (hex5 b) = 65536 * (b div 65536) + 4096 * (b div 4096 mod 16) + 256 * (b div 256 mod 16) +
      16 * (b div 16 mod 16) + b mod 16"
    using lt by (simp add: nat_of_hex_def hex5_def)
  ultimately show ?thesis by linarith
qed

lemma connected_line:
  "RE_CONNECTED (event_line (Connected fid cid b)) = Some (dec_nat fid, hex5 b)"
proof -
  let ?s = "''bucket=0x'' @ hex5 b"
  let ?p = "''  CID='' @ hex cid @ ''  ''"
  have u: "CHR ''u'' \<notin> set ?p" using set_hex hex_digit_class(2) by fastforce
  have "search match_bucket (?p @ ?s) = search match_bucket ?s"
    by (rule search_bucket_skip [OF u]) simp
  moreover have "match_bucket ?s = Some (hex5 b)"
    using many1_append [OF hex5_class(2,1), of "[]" b] by (simp add: match_bucket_def strip_prefix_def)
  ultimately have sb: "search match_bucket (?p @ ?s) = Some (hex5 b)" by (simp add: search_here)
  let ?r = "''connected'' @ ?p @ ?s"
  have "match_flow (''Flow '' @ dec_nat fid @ '': '' @ ?r) = Some (dec_nat fid, ?r)"
    by (rule match_flow_line) (simp_all add: is_space_def)
  moreover have "strip_prefix ''connected'' ?r = Some (?p @ ?s)" by (simp add: strip_prefix_def)
  moreover have "\<not> is_word (hd (?p @ ?s))" by (simp add: is_word_def is_digit_def)
  ultimately have "match_connected (''Flow '' @ dec_nat fid @ '': '' @ ?r) = Some (dec_nat fid, hex5 b)"
    using sb by (simp only: match_connected_def option.case prod.case if_False simp_thms option.map)
  then have "search match_connected (''Flow '' @ dec_nat fid @ '': '' @ ?r) = Some (dec_nat fid, hex5 b)"
    by (rule search_here)
  then show ?thesis
    using search_line_start(1) [of "dec_nat fid @ '': '' @ ?r"] by (simp add: RE_CONNECTED_def)
qed

lemma digit_not_F: "is_digit c \<Longrightarrow> c \<noteq> CHR ''F'' \<and> \<not> is_linebreak c"
  by (auto simp: is_digit_def is_linebreak_def Let_def)

lemma dec_nat_chars: "c \<in> set (dec_nat n) \<Longrightarrow> is_digit c"
  using isdigit_dec_nat [of n] by (auto simp: isdigit_def)

lemma two_decimals_chars: "c \<in> set (two_decimals n) \<Longrightarrow> is_digit c \<or> c = CHR ''.''"
  using dec_nat_chars digit_char_digit by (auto simp: two_decimals_def)

lemma delivered_line:
  assumes "event_ok (Delivered fid n tail)"
  shows "RE_DELIVERED (event_line (Delivered fid n tail)) = Some (dec_nat fid, two_decimals n)"
    and "RE_CONNECTED (event_line (Delivered fid n tail)) = None"
proof -
  let ?r = "two_decimals n @ '' MB delivered'' @ tail"
  let ?l = "''Flow '' @ dec_nat fid @ '': '' @ ?r"
  have hd: "is_digit (hd ?r)" and ne: "?r \<noteq> []"
    using hd_dec_nat [of "n div 100"] by (simp_all add: two_decimals_def)
  have mf: "match_flow ?l = Some (dec_nat fid, ?r)"
    using hd ne digit_not_space by (intro match_flow_line) auto
  have "many1 (\<lambda>c. is_digit c \<or> c = CHR ''.'') ?r = Some (two_decimals n, '' MB delivered'' @ tail)"
    using two_decimals_chars by (intro many1_append) (auto simp: two_decimals_def space_class)
  moreover have "many1 is_space ('' MB delivered'' @ tail) = Some ('' '', ''MB delivered'' @ tail)"
    using many1_append [of "'' ''" is_space "''MB delivered'' @ tail"] by (simp add: is_space_def)
  moreover have "strip_prefix ''MB delivered'' (''MB delivered'' @ tail) = Some tail" by (simp add: strip_prefix_def)
  ultimately have "match_delivered ?l = Some (dec_nat fid, two_decimals n)"
    by (simp only: match_delivered_def mf option.case prod.case option.map)
  then have "search match_delivered ?l = Some (dec_nat fid, two_decimals n)" by (rule search_here)
  then show "RE_DELIVERED (event_line (Delivered fid n tail)) = Some (dec_nat fid, two_decimals n)"
    using search_line_start(2) [of "dec_nat fid @ '': '' @ ?r"] by (simp add: RE_DELIVERED_def)
  have "strip_prefix ''connected'' ?r = None"
    using hd ne by (cases ?r) (auto simp: strip_prefix_def is_digit_def)
  then have c: "match_connected ?l = None" by (simp only: match_connected_def mf option.case prod.case)
  have "CHR ''F'' \<notin> set (''low '' @ dec_nat fid @ '': '' @ ?r)"
    using assms two_decimals_chars digit_not_F dec_nat_chars by fastforce
  then have "search match_connected (''low '' @ dec_nat fid @ '': '' @ ?r) = None"
    using match_letters(1,2) by (intro search_none [where x = "CHR ''F''"])
  with c have "search match_connected ?l = None" by simp
  then show "RE_CONNECTED (event_line (Delivered fid n tail)) = None"
    using search_line_start(1) [of "dec_nat fid @ '': '' @ ?r"] by (simp add: RE_CONNECTED_def)
qed

lemma log_line_event:
  assumes "event_ok e"
  shows "log_line st (event_line e) = Inr (log_update st e)"
proof (cases e)
  case (Connected fid cid b)
  with assms show ?thesis
    by (cases st) (simp add: log_line_def connected_line nat_of_hex_hex5 del: event_line.simps)
next
  case (Delivered fid n tail)
  then have "n * 10000 \<le> 2 ^ 50" using assms by simp
  from delivered_bytes_two_decimals [OF this] delivered_line [OF assms [unfolded Delivered]] show ?thesis
    unfolding Delivered by (cases st) (simp add: log_line_def del: event_line.simps)
qed

lemma splitlines_line:
  "\<forall>c \<in> set l. \<not> is_linebreak c \<Longrightarrow> splitlines (l @ CHR 0x0A # rest) = l # splitlines rest"
  by (induction l) (auto simp: is_linebreak_def)

lemma event_line_chars:
  assumes "event_ok e"
  shows "\<forall>c \<in> set (event_line e). \<not> is_linebreak c"
proof -
  have d: "\<forall>c \<in> set (dec_nat k). \<not> is_linebreak c" for k using dec_nat_chars digit_not_F by blast
  have t: "\<forall>c \<in> set (two_decimals k). \<not> is_linebreak c" for k
    using two_decimals_chars [of _ k] digit_not_F by (fastforce simp: is_linebreak_def)
  have h: "\<forall>c \<in> set (hex k). \<not> is_linebreak c" for k using set_hex hex_digit_class(4) by blast
  show ?thesis
  proof (cases e)
    case (Connected fid cid b)
    show ?thesis
      unfolding Connected event_line.simps set_append ball_Un using d h hex5_class(3)
      by (intro conjI; (assumption | simp add: is_linebreak_def))
  next
    case (Delivered fid n tail)
    then have "\<forall>c \<in> set tail. \<not> is_linebreak c" using assms by simp
    then show ?thesis
      unfolding Delivered event_line.simps set_append ball_Un using d t
      by (intro conjI; (assumption | simp add: is_linebreak_def))
  qed
qed

lemma splitlines_log_text: "\<forall>e \<in> set evs. event_ok e \<Longrightarrow> splitlines (log_text evs) = map event_line evs"
  by (induction evs) (auto simp: log_text_def splitlines_line [OF event_line_chars])

lemma log_events_fold:
  assumes "\<forall>e \<in> set evs. event_ok e"
  shows "foldE log_line ([], []) (splitlines (log_text evs)) = Inr (foldl log_update ([], []) evs)"
proof -
  have "foldE log_line st (map event_line evs) = Inr (foldl log_update st evs)" for st
    using assms by (induction evs arbitrary: st) (simp_all add: log_line_event)
  with assms show ?thesis by (simp add: splitlines_log_text)
qed

text \<open>
  C25. The client's log is understood. Every log made of the lines the client prints when a flow
  has connected and when it has ended, in any order and number, is read line by line without
  an error: the bucket and the volume of a flow are those of its last line of either kind.
\<close>

theorem log_lines_are_understood:
  assumes "\<forall>e \<in> set evs. event_ok e"
  shows "foldE log_line ([], []) (splitlines (log_text evs)) = Inr (foldl log_update ([], []) evs)"
  using assms by (rule log_events_fold)

theorem log_lines_are_understood_witness:
  "foldE log_line ([], []) (splitlines (log_text
     [Connected 3 [0xAB, 0x01] 0x1F2E3, Delivered 3 10007 '' in 2.000s  (400.28 Mbps)'']))
   = Inr ([(3, 0x1F2E3)], [(3, 100070000)])"
  using log_lines_are_understood [of "[Connected 3 [0xAB, 0x01] 0x1F2E3, Delivered 3 10007 '' in 2.000s  (400.28 Mbps)'']"]
  by (simp add: is_linebreak_def)

theorem client_log_accounting_witness:
  "let text = log_text [Connected 1 [0xAB] 0x8005, Delivered 1 25 '' in 2.000s'', Connected 0 [0xCD] 5, Delivered 0 50 []]
   in parse_client_log text 0x7FFF =
        Inr ([(5, 750000)], [(0, 5, 5, 500000), (1, 5, 0x8005, 250000)], [Folds 5 [5, 0x8005]])
      \<and> sum_list (map flow_vol [(0, 5, 5, 500000), (1, 5, 0x8005, 250000)]) = 750000"
proof -
  let ?evs = "[Connected 1 [0xAB] 0x8005, Delivered 1 25 '' in 2.000s'', Connected 0 [0xCD] 5, Delivered 0 50 []]"
  have ok: "\<forall>e \<in> set ?evs. event_ok e" by (simp add: is_linebreak_def)
  have "foldE log_line ([], []) (splitlines (log_text ?evs)) = Inr ([(1, 0x8005), (0, 5)], [(1, 250000), (0, 500000)])"
    using log_events_fold [OF ok] by simp
  then have p: "parse_client_log (log_text ?evs) 0x7FFF =
      Inr ([(5, 750000)], [(0, 5, 5, 500000), (1, 5, 0x8005, 250000)], [Folds 5 [5, 0x8005]])"
    by (simp add: parse_client_log_def log_flow_def fold_warnings_def dkeys_def dadd_def dunion_def dget_def)
  show ?thesis unfolding Let_def using client_log_accounting [OF p] p by (simp add: dvalues_def)
qed

section \<open>The report on agreeing sides\<close>

text \<open>A Python set is iterated in some order, each element once.\<close>

definition enumerates :: "('a set \<Rightarrow> 'a list) \<Rightarrow> bool" where
  "enumerates it \<longleftrightarrow> (\<forall>S. finite S \<longrightarrow> set (it S) = S \<and> distinct (it S))"

lemma heaviest_unique:
  assumes "set xs = set ys" "distinct xs" "distinct ys" "inj_on v (set xs)"
  shows "heaviest v xs = heaviest v ys"
proof -
  have "mset xs = mset (heaviest v ys)"
    using assms by (simp add: heaviest_def set_eq_iff_mset_eq_distinct)
  moreover have "inj_on (\<lambda>b. - v b) (set xs)" using assms(4) by (simp add: inj_on_def)
  ultimately show ?thesis
    by (simp add: heaviest_def sort_key_inj_key_eq)
qed

lemma heaviest_Nil [simp]: "heaviest v [] = []"
  by (simp add: heaviest_def)

lemma insort_key_cong: "f x = g x \<Longrightarrow> \<forall>y \<in> set ys. f y = g y \<Longrightarrow> insort_key f x ys = insort_key g x ys"
  by (induction ys) simp_all

lemma heaviest_cong: "(\<And>b. b \<in> set ks \<Longrightarrow> v b = w b) \<Longrightarrow> heaviest v ks = heaviest w ks"
proof (induction ks)
  case (Cons k ks)
  then have "heaviest v ks = heaviest w ks" by simp
  moreover have "insort_key (\<lambda>b. - v b) k (heaviest w ks) = insort_key (\<lambda>b. - w b) k (heaviest w ks)"
    using Cons.prems by (intro insort_key_cong) simp_all
  ultimately show ?case by (simp add: heaviest_def)
qed simp

lemma set_py_take: "set (py_take k xs) \<subseteq> set xs"
  by (auto simp: py_take_def dest: in_set_takeD)

text \<open>
  The report on agreeing sides. When the switch counted exactly the application's volumes
  and no two buckets have the same volume, the report says so: all differences are zero, no
  bucket is missed or unexplained, the top positions are all marked ok, the two top lists
  overlap and match rank by rank, and the mean rank displacement is zero. The order in which
  Python iterates sets does not matter.
\<close>

theorem report_on_agreement:
  fixes topk :: int
  assumes it: "enumerates it" and ok: "dict_ok app" "dict_ok switch"
    and keys: "set (dkeys switch) = set (dkeys app)"
    and same: "\<forall>b \<in> set (dkeys app). snd (dget switch b (0, 0)) = dget app b 0"
    and inj: "inj_on (\<lambda>b. dget app b 0) (set (dkeys app))"
  defines "r \<equiv> print_report it app switch topk"
  shows "(\<forall>d \<in> set (diff_rows r). row_delta d = 0) \<and> missed r = [] \<and> unexplained r = []
    \<and> marks r = map (\<lambda>i. if i < top_size r then ''ok'' else ''MISS'') [0..<nat topk]
    \<and> overlap r = top_size r \<and> exact r = top_size r \<and> displacement r \<in> {None, Some 0}"
proof -
  let ?va = "\<lambda>b. dget app b 0" and ?sb = "map (\<lambda>(b, v). (b, snd v)) switch"
  let ?vs = "\<lambda>b. dget ?sb b 0"
  have vs: "?vs b = snd (dget switch b (0, 0))" for b
    by (induction switch) (auto simp: dget_def)
  have kd: "dkeys ?sb = dkeys switch" by (simp add: dkeys_def case_prod_beta)
  have h: "heaviest ?vs (dkeys switch) = heaviest ?va (dkeys app)"
  proof -
    have "heaviest ?vs (dkeys switch) = heaviest ?va (dkeys switch)"
      using same keys by (intro heaviest_cong) (simp add: vs)
    also have "\<dots> = heaviest ?va (dkeys app)"
      using keys ok inj by (intro heaviest_unique) (simp_all add: dict_ok_def dkeys_def)
    finally show ?thesis .
  qed
  then have rk: "rank_map ?sb = rank_map app" by (simp add: rank_map_def kd)
  let ?top = "py_take topk (heaviest ?va (dkeys app))"
  have top: "distinct ?top" "set ?top \<subseteq> set (dkeys app)"
    using ok(1) set_py_take [of topk "heaviest ?va (dkeys app)"]
    by (auto simp: py_take_def heaviest_def dict_ok_def dkeys_def)
  have deltas: "row_delta (diff_of app switch b) = 0" if "b \<in> set (dkeys app)" for b
    using that same by (simp add: diff_of_def Let_def case_prod_beta)
  have it_app: "set (it (set (dkeys app))) = set (dkeys app)" "it {} = []"
    using it by (auto simp: enumerates_def)
  have mk: "mark ?top ?top (rank_map app) i = (if i < length ?top then ''ok'' else ''MISS'')" for i
    by (simp add: mark_def)
  show ?thesis
    unfolding r_def print_report_def Let_def keys kd h rk using deltas it_app top
    by (auto simp: mk distinct_card)
qed

theorem report_on_agreement_witness:
  "marks (print_report sorted_list_of_set [(7, 10), (3, 25)] [(3, (2, 25)), (7, (1, 10))] 3) = [''ok'', ''ok'', ''MISS'']"
proof -
  have e: "enumerates (sorted_list_of_set :: int set \<Rightarrow> int list)" by (simp add: enumerates_def)
  have t: "top_size (print_report sorted_list_of_set [(7, 10), (3, 25)] [(3, (2, 25)), (7, (1, 10))] 3) = 2"
    by (simp add: print_report_def Let_def py_take_def dkeys_def)
  show ?thesis
    using report_on_agreement [OF e, of "[(7, 10), (3, 25)]" "[(3, (2, 25)), (7, (1, 10))]" 3]
    by (simp add: t dict_ok_def dkeys_def dget_def insert_commute upt_rec)
qed

end
