(* ===== verification/Perf_Tools.thy ===== *)
theory Perf_Tools
  imports Byte_Accounting
begin

text \<open>
  The traffic generator: \<^verbatim>\<open>quic_perf_client.py\<close> and \<^verbatim>\<open>quic_perf_server.py\<close>. The QUIC library
  \<^verbatim>\<open>aioquic\<close> is not part of the repository: the events it delivers to the two protocol
  classes and the readings of the clock are arguments. Modelled are the event handlers with
  their state, the send loops, the control stream that asks the server for its byte
  count, and the lines and totals that are printed.
\<close>

section \<open>Events\<close>

datatype quic_event = HandshakeCompleted bytes | StreamDataReceived nat bytes bool

definition CHUNK :: int where "CHUNK = 65536"

definition STATS_MAGIC :: bytes where "STATS_MAGIC = [0x53, 0x54, 0x41, 0x54, 0x53]"

text \<open>ASCII text as bytes and back; \<^verbatim>\<open>int(b)\<close> of bytes strips less white space than \<^verbatim>\<open>int(s)\<close>.\<close>

definition encode :: "string \<Rightarrow> bytes" where
  "encode s = map (\<lambda>c. word_of_nat (of_char c)) s"

definition int_of_bytes :: "bytes \<Rightarrow> int result" where
  "int_of_bytes b =
     (if \<exists>x \<in> set b. 28 \<le> x \<and> x \<le> 31 then Inl ValueError else py_int (map (\<lambda>x. char_of (unat x)) b))"

section \<open>Numbers in print\<close>

text \<open>\<^verbatim>\<open>n/1e6\<close> and the rate \<^verbatim>\<open>(n * 8) / (elapsed * 1_000_000)\<close>: the integer becomes a double first.\<close>

definition megabytes :: "nat \<Rightarrow> rat" where
  "megabytes n = round_double (round_double (of_nat n) / 10 ^ 6)"

definition rate_mbps :: "nat \<Rightarrow> rat \<Rightarrow> rat result" where
  "rate_mbps n elapsed =
     (let d = round_double (elapsed * 10 ^ 6)
      in if d = 0 then Inl ZeroDivisionError else Inr (round_double (round_double (of_nat (n * 8)) / d)))"

section \<open>Server\<close>

record server =
  stream_bytes :: "(nat, nat) dict"
  stream_start :: "(nat, rat) dict"

definition new_server :: server where
  "new_server = \<lparr>stream_bytes = [], stream_start = []\<rparr>"

text \<open>
  The handler at clock reading \<open>now\<close> with the time of day \<open>stamp\<close>: the new state, the line it
  prints, and the data it sends on a stream, which ends that stream.
\<close>

record server_out =
  printed :: "string option"
  reply :: "(nat \<times> bytes) option"

definition stats_text :: "string \<Rightarrow> nat \<Rightarrow> nat \<Rightarrow> rat \<Rightarrow> rat \<Rightarrow> string" where
  "stats_text stamp sid tot elapsed mbps =
     ''['' @ stamp @ ''] stream '' @ dec_nat sid @ '': '' @ fixed 2 (megabytes tot) @ '' MB in '' @
     fixed 3 elapsed @ ''s  ('' @ fixed 2 mbps @ '' Mbps)''"

definition server_event :: "string \<Rightarrow> rat \<Rightarrow> quic_event \<Rightarrow> server \<Rightarrow> (server \<times> server_out) result" where
  "server_event stamp now ev st =
     (case ev of
        HandshakeCompleted cid \<Rightarrow>
          Inr (st, \<lparr>printed = Some (''['' @ stamp @ ''] connected  DCID='' @ hex cid), reply = None\<rparr>)
      | StreamDataReceived sid data end_stream \<Rightarrow>
          if data = STATS_MAGIC \<and> end_stream then
            (if stream_bytes st \<noteq> [] then
               bindE (py_max (\<lambda>s. dget (stream_bytes st) s 0) (dkeys (stream_bytes st))) (\<lambda>data_sid.
                 bindE (dlookup (stream_bytes st) data_sid) (\<lambda>tot.
                   bindE (dlookup (stream_start st) data_sid) (\<lambda>t0.
                     let elapsed = round_double (now - t0)
                     in bindE (if elapsed > 0 then rate_mbps tot elapsed else Inr 0) (\<lambda>mbps.
                          Inr (st, \<lparr>printed = Some (stats_text stamp data_sid tot elapsed mbps),
                                    reply = Some (sid, encode (dec_nat tot))\<rparr>)))))
             else Inr (st, \<lparr>printed = None, reply = Some (sid, encode (dec_nat 0))\<rparr>))
          else
            (let st' = (if sid \<in> set (dkeys (stream_bytes st)) then st
                        else st\<lparr>stream_bytes := AList.update sid 0 (stream_bytes st),
                                stream_start := AList.update sid now (stream_start st)\<rparr>)
             in Inr (st'\<lparr>stream_bytes := dadd sid (length data) (stream_bytes st')\<rparr>, \<lparr>printed = None, reply = None\<rparr>)))"

section \<open>Client\<close>

record client =
  received :: bool
  server_total :: int
  server_buf :: bytes
  stats_stream_id :: "nat option"
  client_flow :: nat
  client_log :: "string list"

definition new_client :: client where
  "new_client = \<lparr>received = False, server_total = 0, server_buf = [], stats_stream_id = None, client_flow = 0, client_log = []\<rparr>"

definition connected_text :: "nat \<Rightarrow> bytes \<Rightarrow> nat \<Rightarrow> string" where
  "connected_text fid cid bkt = event_line (Connected fid cid bkt)"

definition client_event :: "quic_event \<Rightarrow> client \<Rightarrow> client result" where
  "client_event ev st =
     (case ev of
        HandshakeCompleted cid \<Rightarrow>
          mapE (\<lambda>bkt. st\<lparr>client_log := client_log st @ [connected_text (client_flow st) cid bkt]\<rparr>)
            (cid_to_bucket (hex cid))
      | StreamDataReceived sid data end_stream \<Rightarrow>
          if stats_stream_id st \<noteq> Some sid then Inr st
          else
            (let buf = server_buf st @ data; st' = st\<lparr>server_buf := buf\<rparr>
             in Inr (if end_stream
                     then st'\<lparr>server_total := (case int_of_bytes buf of Inl _ \<Rightarrow> 0 | Inr n \<Rightarrow> n), received := True\<rparr>
                     else st')))"

section \<open>Send loops\<close>

text \<open>Size-based: the sizes of the chunks handed to the library.\<close>

function send_sizes :: "int \<Rightarrow> int list" where
  "send_sizes remaining =
     (if remaining > 0 then (let n = min CHUNK remaining in n # send_sizes (remaining - n)) else [])"
  by auto

termination
  by (relation "measure nat") (auto simp: CHUNK_def)

declare send_sizes.simps [simp del]

text \<open>
  Time-based: one chunk per reading of the clock before the deadline; \<open>None\<close> while the readings
  given so far have not reached it.
\<close>

fun timed_sizes :: "rat \<Rightarrow> rat list \<Rightarrow> int list option" where
  "timed_sizes deadline [] = None"
| "timed_sizes deadline (t # ts) = (if t < deadline then map_option (Cons CHUNK) (timed_sizes deadline ts) else Some [])"

section \<open>Interval reports\<close>

text \<open>
  The reporter of a flow: bytes and start of the current window, shared with the send loop, and
  the next deadline. A tick at clock reading \<open>now\<close> prints a line and opens the next window.
\<close>

record reporter =
  interval_bytes :: nat
  interval_start :: rat
  next_deadline :: rat

definition new_reporter :: "rat \<Rightarrow> rat \<Rightarrow> reporter" where
  "new_reporter start interval = \<lparr>interval_bytes = 0, interval_start = start, next_deadline = round_double (start + interval)\<rparr>"

definition sleep_time :: "rat \<Rightarrow> reporter \<Rightarrow> rat" where
  "sleep_time now st = (if now < next_deadline st then round_double (next_deadline st - now) else 0)"

definition reporter_tick :: "nat \<Rightarrow> rat \<Rightarrow> rat \<Rightarrow> rat \<Rightarrow> reporter \<Rightarrow> (string \<times> reporter) result" where
  "reporter_tick fid start interval now st =
     (let dt = round_double (now - interval_start st)
      in mapE (\<lambda>mbps.
           (''  Flow '' @ dec_nat fid @ '' ['' @ pad_left 5 (fixed 1 (round_double (now - start))) @ ''s]  '' @
            pad_left 8 (fixed 2 mbps) @ '' Mbps (queued)'',
            \<lparr>interval_bytes = 0, interval_start = now, next_deadline = round_double (now + interval)\<rparr>))
         (if dt > 0 then rate_mbps (interval_bytes st) dt else Inr 0))"

definition sent_chunk :: "nat \<Rightarrow> reporter \<Rightarrow> reporter" where
  "sent_chunk n st = st\<lparr>interval_bytes := interval_bytes st + n\<rparr>"

section \<open>Report\<close>

text \<open>The last line of a flow and the volume it returns; \<open>total\<close> is the server's count.\<close>

definition flow_report :: "nat \<Rightarrow> nat \<Rightarrow> nat \<Rightarrow> rat \<Rightarrow> (string \<times> nat) result" where
  "flow_report fid server_count total_sent elapsed =
     (if server_count \<noteq> 0 then
        mapE (\<lambda>mbps.
            (''  Flow '' @ dec_nat fid @ '': '' @ fixed 2 (megabytes server_count) @ '' MB '' @
             ''delivered in '' @ fixed 3 elapsed @ ''s  ('' @ fixed 2 mbps @ '' Mbps)  '' @
             ''[queued '' @ fixed 2 (megabytes total_sent) @ '' MB]'', server_count))
          (rate_mbps server_count elapsed)
      else
        mapE (\<lambda>mbps.
            (''  Flow '' @ dec_nat fid @ '': '' @ fixed 2 (megabytes total_sent) @ '' MB queued in '' @
             fixed 3 elapsed @ ''s  ('' @ fixed 2 mbps @ '' Mbps)  '' @ ''server_rx=n/a (check server log)'', total_sent))
          (rate_mbps total_sent elapsed))"

text \<open>The totals at the end: bytes, longest time, aggregate rate.\<close>

definition client_totals :: "(nat \<times> nat \<times> rat) list \<Rightarrow> (nat \<times> rat \<times> rat) result" where
  "client_totals results =
     (if results = [] then Inl ValueError
      else (let total_bytes = sum_list (map (\<lambda>r. fst (snd r)) results);
                max_time = Max (set (map (\<lambda>r. snd (snd r)) results))
            in mapE (\<lambda>mbps. (total_bytes, max_time, mbps)) (rate_mbps total_bytes max_time)))"

section \<open>The send loops\<close>

lemma send_sizes_Cons: "n > 0 \<Longrightarrow> send_sizes n = min CHUNK n # send_sizes (n - min CHUNK n)"
  by (subst send_sizes.simps) (simp add: Let_def)

lemma send_sizes_Nil: "n \<le> 0 \<Longrightarrow> send_sizes n = []"
  by (subst send_sizes.simps) simp

lemma send_sizes_induct [case_names Nil Cons]:
  assumes "\<And>n. n \<le> 0 \<Longrightarrow> P n" "\<And>n. 0 < n \<Longrightarrow> P (n - min CHUNK n) \<Longrightarrow> P n"
  shows "P n"
proof (induction n rule: send_sizes.induct)
  case (1 n)
  then show ?case using assms by (cases "0 < n") auto
qed

lemma send_sizes_sum: "sum_list (send_sizes n) = max 0 n"
proof (induction n rule: send_sizes_induct)
  case (Cons n)
  then have "sum_list (send_sizes n) = min CHUNK n + max 0 (n - min CHUNK n)" by (subst send_sizes_Cons) simp_all
  then show ?case using Cons(1) by simp
qed (simp add: send_sizes_Nil)

lemma send_sizes_range: "\<forall>c \<in> set (send_sizes n). 0 < c \<and> c \<le> CHUNK"
proof (induction n rule: send_sizes_induct)
  case (Cons n)
  then show ?case by (subst send_sizes_Cons) (simp_all add: CHUNK_def)
qed (simp add: send_sizes_Nil)

lemma send_sizes_length: "int (length (send_sizes n)) = (if n > 0 then (n + CHUNK - 1) div CHUNK else 0)"
proof (induction n rule: send_sizes_induct)
  case (Cons n)
  have l: "int (length (send_sizes n)) = int (length (send_sizes (n - min CHUNK n))) + 1"
    using Cons(1) by (subst send_sizes_Cons) simp_all
  show ?case
  proof (cases "n > CHUNK")
    case True
    have "(n - CHUNK + CHUNK - 1) div CHUNK + 1 = (n + CHUNK - 1) div CHUNK"
      using div_add_self2 [of CHUNK "n - 1"] by (simp add: CHUNK_def algebra_simps)
    moreover have "min CHUNK n = CHUNK" using True by simp
    ultimately show ?thesis using l Cons True by simp
  next
    case False
    then have "(n + CHUNK - 1) div CHUNK = 1" using Cons(1) by (simp add: CHUNK_def)
    moreover have "min CHUNK n = n" using False by simp
    ultimately show ?thesis using l Cons by simp
  qed
qed (simp add: send_sizes_Nil)

lemma timed_sizes_Some: "\<exists>t \<in> set ts. deadline \<le> t \<Longrightarrow> \<exists>cs. timed_sizes deadline ts = Some cs"
  by (induction ts) (auto simp: not_less)

text \<open>
  C30. Both send loops end. The size-based loop sends exactly the requested bytes, in as many chunks as
  needed and none larger than 64 KiB; the time-based loop ends at the first reading of the clock that has reached the
  deadline, which comes after at most \<open>k\<close> readings when the clock moves by at least \<open>d\<close> between readings
  and \<open>k\<close> steps of \<open>d\<close> cover the duration.
\<close>

theorem send_loops_end:
  assumes "length clock = Suc k" "hd clock \<ge> start" "\<forall>i < k. clock ! i + d \<le> clock ! Suc i" "start + duration \<le> start + of_nat k * d"
  shows "sum_list (send_sizes n) = max 0 n \<and> (\<forall>c \<in> set (send_sizes n). 0 < c \<and> c \<le> CHUNK)
    \<and> int (length (send_sizes n)) = (if n > 0 then (n + CHUNK - 1) div CHUNK else 0)
    \<and> (\<exists>cs. timed_sizes (start + duration) clock = Some cs)"
proof -
  have "start + of_nat i * d \<le> clock ! i" if "i \<le> k" for i
    using that
  proof (induction i)
    case 0
    then show ?case using assms(1,2) by (cases clock) auto
  next
    case (Suc i)
    then have "start + of_nat i * d \<le> clock ! i" "clock ! i + d \<le> clock ! Suc i" using assms(3) by auto
    then show ?case by (simp add: algebra_simps)
  qed
  from this [of k] have "start + duration \<le> clock ! k" using assms(4) by simp
  then have "\<exists>t \<in> set clock. start + duration \<le> t" using assms(1) by (intro bexI [of _ "clock ! k"]) auto
  then show ?thesis using send_sizes_sum send_sizes_range send_sizes_length timed_sizes_Some by blast
qed

theorem send_loops_end_witness:
  "sum_list (send_sizes 200000) = 200000 \<and> int (length (send_sizes 200000)) = 4
   \<and> (\<exists>cs. timed_sizes 10 [8, 9, 11] = Some cs)"
  using send_loops_end [of "[8, 9, 11]" 2 8 1 2 200000] by (simp add: CHUNK_def less_2_cases_iff)

section \<open>The statistics request\<close>

text \<open>The state of the server: both dictionaries know the same streams.\<close>

definition server_ok :: "server \<Rightarrow> bool" where
  "server_ok st \<longleftrightarrow> dict_ok (stream_bytes st) \<and> dict_ok (stream_start st) \<and> set (dkeys (stream_bytes st)) = set (dkeys (stream_start st))"

lemma keys_dadd: "set (dkeys (dadd k n d)) = insert k (set (dkeys d))"
  by (simp add: dkeys_def dadd_def dom_update)

lemma dkeys_update: "set (dkeys (AList.update k v d)) = insert k (set (dkeys d))"
  by (simp add: dkeys_def dom_update)

lemma dlookup_key: "x \<in> set (dkeys d) \<Longrightarrow> dlookup d x = Inr (dget d x z)"
  using map_of_eq_None_iff [of d x] by (auto simp: dlookup_def dget_def dkeys_def split: option.split)

lemma dget_not_key: "x \<notin> set (dkeys d) \<Longrightarrow> dget d x z = z"
  using map_of_eq_None_iff [of d x] by (auto simp: dget_def dkeys_def)

lemma update_twice: "AList.update k v (AList.update k w d) = AList.update k v d"
  by (induction d) auto

lemma py_max_greatest:
  assumes "py_max f xs = Inr x" "y \<in> set xs"
  shows "f y \<le> f x"
proof -
  have "\<forall>y \<in> insert z (set zs). f y \<le> f (foldl (\<lambda>m y. if f m < f y then y else m) z zs)" for z zs
  proof (induction zs arbitrary: z)
    case (Cons w zs)
    from Cons [of z] Cons [of w] show ?case by (cases "f z < f w") (auto intro: order_trans)
  qed simp
  with assms show ?thesis by (cases xs) auto
qed

lemma rate_mbps_pos: "0 < x \<Longrightarrow> \<exists>r. rate_mbps n x = Inr r"
  using round_double_pos [of "x * 10 ^ 6"] by (simp add: rate_mbps_def Let_def)

lemma server_ok_new: "server_ok new_server"
  by (simp add: server_ok_def new_server_def dkeys_def)

lemma server_event_data:
  assumes "\<not> (data = STATS_MAGIC \<and> fin)" "server_ok st"
  shows "\<exists>st'. server_event stamp now (StreamDataReceived sid data fin) st = Inr (st', \<lparr>printed = None, reply = None\<rparr>)
    \<and> server_ok st' \<and> stream_bytes st' = dadd sid (length data) (stream_bytes st)"
proof (cases "sid \<in> set (dkeys (stream_bytes st))")
  case True
  with assms show ?thesis by (auto simp: server_event_def server_ok_def Let_def keys_dadd)
next
  case False
  then have "dadd sid n (AList.update sid 0 (stream_bytes st)) = dadd sid n (stream_bytes st)" for n
    by (simp add: dadd_def dget_update dget_not_key update_twice)
  with False assms show ?thesis by (auto simp: server_event_def server_ok_def Let_def keys_dadd dkeys_update)
qed

lemma server_event_stats:
  assumes "server_ok st"
  shows "\<exists>out n. server_event stamp now (StreamDataReceived s STATS_MAGIC True) st = Inr (st, out)
    \<and> reply out = Some (s, encode (dec_nat n))
    \<and> (\<forall>k. dget (stream_bytes st) k 0 \<le> n) \<and> (n = 0 \<or> (\<exists>k. n = dget (stream_bytes st) k 0))"
proof (cases "stream_bytes st = []")
  case True
  then show ?thesis by (simp add: server_event_def)
next
  case False
  let ?f = "\<lambda>s. dget (stream_bytes st) s 0"
  from False obtain x where x: "py_max ?f (dkeys (stream_bytes st)) = Inr x" "x \<in> set (dkeys (stream_bytes st))"
    using py_max_in [of "dkeys (stream_bytes st)" ?f] by (auto simp: dkeys_def)
  have look: "dlookup (stream_bytes st) x = Inr (?f x)" "dlookup (stream_start st) x = Inr (dget (stream_start st) x 0)"
    using x(2) assms by (simp_all add: server_ok_def dlookup_key)
  define el where "el = round_double (now - dget (stream_start st) x 0)"
  have "\<exists>r. (if el > 0 then rate_mbps (?f x) el else Inr 0) = Inr r" using rate_mbps_pos by auto
  then obtain r where r: "(if el > 0 then rate_mbps (?f x) el else Inr 0) = Inr r" by blast
  have ev: "\<exists>out. server_event stamp now (StreamDataReceived s STATS_MAGIC True) st = Inr (st, out)
    \<and> reply out = Some (s, encode (dec_nat (?f x)))"
    using False x(1) look r by (cases "el > 0") (simp_all add: server_event_def Let_def el_def [symmetric])
  have "?f k \<le> ?f x" for k
    using py_max_greatest [OF x(1)] dget_not_key [of k "stream_bytes st" 0] by (cases "k \<in> set (dkeys (stream_bytes st))") auto
  with ev show ?thesis by blast
qed

fun server_run :: "(string \<times> rat \<times> quic_event) list \<Rightarrow> server \<Rightarrow> server result" where
  "server_run [] st = Inr st"
| "server_run ((stamp, now, ev) # evs) st = bindE (server_event stamp now ev st) (\<lambda>(st1, out). server_run evs st1)"

definition client_run :: "quic_event list \<Rightarrow> client \<Rightarrow> client result" where
  "client_run evs st = foldE (\<lambda>st ev. client_event ev st) st evs"

text \<open>Data events, and the volume of a stream in a sequence of events.\<close>

fun data_event :: "quic_event \<Rightarrow> bool" where
  "data_event (StreamDataReceived sid data fin) = (\<not> (data = STATS_MAGIC \<and> fin))"
| "data_event (HandshakeCompleted cid) = False"

fun event_volume :: "nat \<Rightarrow> quic_event \<Rightarrow> nat" where
  "event_volume k (StreamDataReceived sid data fin) = (if sid = k then length data else 0)"
| "event_volume k (HandshakeCompleted cid) = 0"

definition stream_volume :: "(string \<times> rat \<times> quic_event) list \<Rightarrow> nat \<Rightarrow> nat" where
  "stream_volume evs k = sum_list (map (\<lambda>(stamp, now, ev). event_volume k ev) evs)"

lemma server_run_data:
  "server_ok st \<Longrightarrow> \<forall>(stamp, now, ev) \<in> set evs. data_event ev \<Longrightarrow>
   \<exists>st'. server_run evs st = Inr st' \<and> server_ok st'
     \<and> (\<forall>k. dget (stream_bytes st') k 0 = dget (stream_bytes st) k 0 + stream_volume evs k)"
proof (induction evs arbitrary: st)
  case (Cons e evs)
  obtain stamp now ev where e: "e = (stamp, now, ev)" by (cases e)
  with Cons.prems obtain sid data fin where ev: "ev = StreamDataReceived sid data fin" "\<not> (data = STATS_MAGIC \<and> fin)"
    by (cases ev) auto
  from server_event_data [OF ev(2) Cons.prems(1)] obtain st1
    where st1: "server_event stamp now ev st = Inr (st1, \<lparr>printed = None, reply = None\<rparr>)" "server_ok st1"
      "stream_bytes st1 = dadd sid (length data) (stream_bytes st)"
    unfolding ev(1) by blast
  have rest: "\<forall>(stamp, now, ev) \<in> set evs. data_event ev" using Cons.prems(2) by simp
  from Cons.IH [OF st1(2) rest] obtain st2 where st2: "server_run evs st1 = Inr st2" "server_ok st2"
    "\<And>k. dget (stream_bytes st2) k 0 = dget (stream_bytes st1) k 0 + stream_volume evs k" by blast
  then show ?case by (simp add: e st1(1)) (simp add: st1(3) dget_dadd stream_volume_def ev(1))
qed (simp add: stream_volume_def)

lemma int_of_bytes_encode: "int_of_bytes (encode (dec_nat n)) = Inr (int n)"
proof -
  have c: "48 \<le> (of_char c :: nat) \<and> (of_char c :: nat) \<le> 57" if "c \<in> set (dec_nat n)" for c
    using that isdigit_dec_nat [of n] by (auto simp: isdigit_def is_digit_def Let_def)
  have u: "unat (word_of_nat (of_char c) :: byte) = of_char c" if "c \<in> set (dec_nat n)" for c
    using c [OF that] by (simp add: unat_of_nat)
  have "map (\<lambda>x. char_of (unat x)) (encode (dec_nat n)) = dec_nat n"
    using u by (auto simp: encode_def intro: map_idI)
  moreover have "\<not> (\<exists>x \<in> set (encode (dec_nat n)). 28 \<le> x \<and> x \<le> 31)"
    using c u by (force simp: encode_def word_le_nat_alt)
  ultimately show ?thesis by (simp add: int_of_bytes_def)
qed

text \<open>The events in which a reply arrives: any cutting of its bytes, the last piece ends the stream.\<close>

definition arrival :: "nat \<Rightarrow> bytes list \<Rightarrow> quic_event list" where
  "arrival s pieces = map (\<lambda>b. StreamDataReceived s b False) (butlast pieces) @ [StreamDataReceived s (last pieces) True]"

fun on_stream :: "nat \<Rightarrow> quic_event \<Rightarrow> bool" where
  "on_stream s (StreamDataReceived sid data fin) = (sid = s)"
| "on_stream s (HandshakeCompleted cid) = False"

lemma client_run_arrival:
  "stats_stream_id st = Some s \<Longrightarrow> client_run (map (\<lambda>b. StreamDataReceived s b False) ps) st = Inr (st\<lparr>server_buf := server_buf st @ concat ps\<rparr>)"
  by (induction ps arbitrary: st) (simp_all add: client_run_def client_event_def Let_def)

lemma foldE_append: "foldE f s (xs @ ys) = bindE (foldE f s xs) (\<lambda>s'. foldE f s' ys)"
  by (induction xs arbitrary: s) (simp_all add: bindE_assoc)

lemma client_event_stream:
  assumes "stats_stream_id st = Some s"
  shows "\<exists>st'. client_event (StreamDataReceived sid data fin) st = Inr st' \<and> stats_stream_id st' = Some s \<and> (sid \<noteq> s \<longrightarrow> st' = st)"
  using assms by (simp add: client_event_def Let_def)

lemma client_run_filter:
  "stats_stream_id st = Some s \<Longrightarrow> \<forall>ev \<in> set evs. \<exists>sid data fin. ev = StreamDataReceived sid data fin \<Longrightarrow>
   client_run evs st = client_run (filter (on_stream s) evs) st"
proof (induction evs arbitrary: st)
  case (Cons ev evs)
  from Cons.prems obtain sid data fin where ev: "ev = StreamDataReceived sid data fin" by auto
  from client_event_stream [OF Cons.prems(1)] obtain st' where st': "client_event ev st = Inr st'" "stats_stream_id st' = Some s"
    "sid \<noteq> s \<longrightarrow> st' = st" unfolding ev by blast
  have "client_run evs st' = client_run (filter (on_stream s) evs) st'" using Cons st'(2) by simp
  with st'(1,3) show ?case by (cases "sid = s") (simp_all add: client_run_def ev)
qed simp

lemma client_reads_reply:
  assumes "stats_stream_id c = Some s" "server_buf c = []" "pieces \<noteq> []" "concat pieces = encode (dec_nat n)"
    and "\<forall>ev \<in> set evs. \<exists>sid data fin. ev = StreamDataReceived sid data fin" "filter (on_stream s) evs = arrival s pieces"
  shows "\<exists>c'. client_run evs c = Inr c' \<and> server_total c' = int n \<and> received c'"
proof -
  have "concat (butlast pieces) @ last pieces = encode (dec_nat n)"
    using assms(3,4) append_butlast_last_id [of pieces] by (metis concat.simps concat_append append_Nil2)
  moreover have "client_run (arrival s pieces) c
      = client_event (StreamDataReceived s (last pieces) True) (c\<lparr>server_buf := concat (butlast pieces)\<rparr>)"
    using client_run_arrival [OF assms(1), of "butlast pieces"] assms(2)
    by (simp add: client_run_def arrival_def foldE_append bindE_def split: sum.split)
  ultimately show ?thesis
    using client_run_filter [OF assms(1,5)] assms(1,6) by (simp add: client_event_def Let_def int_of_bytes_encode)
qed

text \<open>
  The count that the client reports is the server's: after any sequence of data events, over any
  streams and at any times, the server answers a statistics request with the volume of the
  stream that received most, and a client that waits for the reply on that stream ends with
  exactly this number, however the reply is cut and whatever arrives on other streams.
\<close>

theorem reported_total_is_received:
  assumes "\<forall>(stamp, now, ev) \<in> set evs. data_event ev"
    and "stats_stream_id c = Some s" "server_buf c = []"
  shows "\<exists>st out n. server_run evs new_server = Inr st
    \<and> server_event stamp now (StreamDataReceived s STATS_MAGIC True) st = Inr (st, out)
    \<and> reply out = Some (s, encode (dec_nat n))
    \<and> (\<forall>k. stream_volume evs k \<le> n) \<and> (n = 0 \<or> (\<exists>k. n = stream_volume evs k))
    \<and> (\<forall>pieces cevs. pieces \<noteq> [] \<and> concat pieces = encode (dec_nat n) \<and> filter (on_stream s) cevs = arrival s pieces
          \<and> (\<forall>ev \<in> set cevs. \<exists>sid data fin. ev = StreamDataReceived sid data fin)
        \<longrightarrow> (\<exists>c'. client_run cevs c = Inr c' \<and> server_total c' = int n \<and> received c'))"
proof -
  from server_run_data [OF server_ok_new assms(1)] obtain st where st: "server_run evs new_server = Inr st" "server_ok st"
    "\<And>k. dget (stream_bytes st) k 0 = stream_volume evs k" by (auto simp: new_server_def)
  from server_event_stats [OF st(2), of stamp now s] obtain out n
    where "server_event stamp now (StreamDataReceived s STATS_MAGIC True) st = Inr (st, out)"
      "reply out = Some (s, encode (dec_nat n))" "\<forall>k. stream_volume evs k \<le> n" "n = 0 \<or> (\<exists>k. n = stream_volume evs k)"
    unfolding st(3) by blast
  then show ?thesis using st(1) client_reads_reply [OF assms(2,3)] by blast
qed

definition sample_events :: "(string \<times> rat \<times> quic_event) list" where
  "sample_events =
     [(''12:00:00'', 1, StreamDataReceived 0 (replicate 7 0x78) False),
      (''12:00:01'', 2, StreamDataReceived 0 (replicate 5 0x78) False)]"

theorem reported_total_is_received_witness:
  "\<exists>st out n. server_run sample_events new_server = Inr st
    \<and> server_event ''12:00:02'' 3 (StreamDataReceived 4 STATS_MAGIC True) st = Inr (st, out)
    \<and> reply out = Some (4, encode (dec_nat n)) \<and> n \<ge> 12"
proof -
  have "\<forall>(stamp, now, ev) \<in> set sample_events. data_event ev" by (simp add: sample_events_def)
  moreover have "stream_volume sample_events 0 = 12" by (simp add: sample_events_def stream_volume_def)
  ultimately show ?thesis
    using reported_total_is_received [of sample_events "new_client\<lparr>stats_stream_id := Some 4\<rparr>" 4 "''12:00:02''" 3]
    by (simp add: new_client_def) metis
qed

section \<open>From the report to the byte comparison\<close>

lemma fixed_2: "fixed 2 x = two_decimals (nat (round_even (x * 100)))"
  by (simp add: fixed_def two_decimals_def upt_rec [of 0 2] upt_rec [of 1 2] numeral_2_eq_2 Let_def)

lemma fixed_chars: "c \<in> set (fixed k x) \<Longrightarrow> is_digit c \<or> c = CHR ''.''"
  using dec_nat_chars digit_char_digit by (auto simp: fixed_def Let_def split: if_splits)

lemma fixed_plain: "c \<in> set (fixed k x) \<Longrightarrow> c \<noteq> CHR ''F'' \<and> \<not> is_linebreak c"
proof -
  assume "c \<in> set (fixed k x)"
  from fixed_chars [OF this] have "is_digit c \<or> c = CHR ''.''" .
  then show ?thesis
  proof
    assume "is_digit c"
    then show ?thesis by (rule digit_not_F)
  qed (simp add: is_linebreak_def)
qed

lemma megabytes_error:
  assumes "n \<le> 2 ^ 49"
  shows "\<bar>megabytes n * 10 ^ 6 - of_nat n\<bar> \<le> 1 / 4" "0 \<le> megabytes n"
proof -
  define a where "a = round_double (of_nat n)"
  have n: "(of_nat n :: rat) \<le> 2 ^ 49" using assms by (metis of_nat_le_iff of_nat_numeral of_nat_power)
  have a: "\<bar>a - of_nat n\<bar> \<le> 1 / 16" "0 \<le> a"
    using round_double_error [of "of_nat n"] round_double_nonneg [of "of_nat n"] n by (simp_all add: a_def)
  have "\<bar>megabytes n - a / 10 ^ 6\<bar> \<le> a / 10 ^ 6 / 2 ^ 53"
    using round_double_error [of "a / 10 ^ 6"] a(2) by (simp add: megabytes_def a_def [symmetric])
  moreover have "(2 :: rat) ^ 49 + 1 / 16 \<le> 2 ^ 50" by simp
  then have "a \<le> 2 ^ 50" using abs_le_D1 [OF a(1)] n by linarith
  then have "a / 2 ^ 53 \<le> 1 / 8" by simp
  ultimately have "\<bar>megabytes n - a / 1000000\<bar> \<le> 1 / 8000000" by simp
  then have "\<bar>megabytes n * 1000000 - of_nat n\<bar> \<le> 1 / 4" using a(1) unfolding abs_le_iff by linarith
  then show "\<bar>megabytes n * 10 ^ 6 - of_nat n\<bar> \<le> 1 / 4" by simp
  show "0 \<le> megabytes n" using round_double_nonneg [of "a / 10 ^ 6"] a(2) by (simp add: megabytes_def a_def)
qed

lemma printed_volume_error:
  assumes "n \<le> 2 ^ 49"
  shows "\<bar>int (nat (round_even (megabytes n * 100))) * 10000 - int n\<bar> \<le> 5000"
proof -
  let ?k = "round_even (megabytes n * 100)"
  have e: "\<bar>of_int ?k - megabytes n * 100\<bar> \<le> 1 / 2" by (rule round_even_error)
  have m: "\<bar>megabytes n * 1000000 - of_nat n\<bar> \<le> 1 / 4" using megabytes_error(1) [OF assms] by simp
  have "(-1 :: rat) < of_int ?k" using e megabytes_error(2) [OF assms] by linarith
  then have k: "0 \<le> ?k" by linarith
  have "\<bar>(of_int ?k :: rat) * 10000 - of_nat n\<bar> \<le> 5000 + 1 / 4"
    using e m unfolding abs_le_iff by linarith
  then have "\<bar>(of_int ?k :: rat) * 10000 - of_nat n\<bar> < 5001" by linarith
  then have "\<bar>of_int (?k * 10000 - int n) :: rat\<bar> < of_int 5001" by simp
  then have "\<bar>?k * 10000 - int n\<bar> < 5001" by (simp only: of_int_abs [symmetric] of_int_less_iff)
  then show ?thesis using k by simp
qed

text \<open>
  C31. The volume that \<^verbatim>\<open>analyze_bytes.py\<close> reads from the log of a client is the server's count up to the
  two printed decimals: for every count up to \<open>2 ^ 49\<close> bytes and every positive duration the last line
  of a flow is understood, and the recovered volume differs by at most 5,000 bytes.
\<close>

theorem logged_volume_is_close:
  assumes "0 < n" "n \<le> 2 ^ 49" "0 < elapsed"
  shows "\<exists>line v. flow_report fid n sent elapsed = Inr (line, n)
    \<and> log_line (fb, fy) line = Inr (fb, AList.update fid v fy) \<and> \<bar>v - int n\<bar> \<le> 5000"
proof -
  define k where "k = nat (round_even (megabytes n * 100))"
  obtain r where r: "rate_mbps n elapsed = Inr r" using rate_mbps_pos [OF assms(3)] by blast
  define tail where "tail = '' in '' @ fixed 3 elapsed @ ''s  ('' @ fixed 2 r @ '' Mbps)  [queued '' @ fixed 2 (megabytes sent) @ '' MB]''"
  have close: "\<bar>int k * 10000 - int n\<bar> \<le> 5000" using printed_volume_error [OF assms(2)] by (simp add: k_def)
  have "k * 10000 \<le> 2 ^ 50" using close assms(2) by simp
  moreover have "c \<noteq> CHR ''F'' \<and> \<not> is_linebreak c" if "c \<in> set tail" for c
    using that fixed_plain [of c 3 elapsed] fixed_plain [of c 2 r] fixed_plain [of c 2 "megabytes sent"]
    unfolding tail_def by (auto simp: is_linebreak_def)
  ultimately have ok: "event_ok (Delivered fid k tail)" by simp
  have "flow_report fid n sent elapsed = Inr (event_line (Delivered fid k tail), n)"
    using assms(1) by (simp add: flow_report_def r tail_def k_def fixed_2)
  then show ?thesis using log_line_event [OF ok, of "(fb, fy)"] close by auto
qed

theorem logged_volume_is_close_witness:
  "\<exists>line v. flow_report 3 10000000 10000000 2 = Inr (line, 10000000)
    \<and> log_line ([], []) line = Inr ([], AList.update 3 v []) \<and> \<bar>v - 10000000\<bar> \<le> 5000"
  using logged_volume_is_close [of 10000000 2 3 10000000 "[]" "[]"] by simp

section \<open>Interval reports add up\<close>

text \<open>Any interleaving of sent chunks and ticks; the result lists the bytes and the length of each window.\<close>

datatype report_event = Sent nat | Tick rat

fun reporter_run ::
  "nat \<Rightarrow> rat \<Rightarrow> rat \<Rightarrow> report_event list \<Rightarrow> reporter \<Rightarrow> ((nat \<times> rat) list \<times> reporter) result" where
  "reporter_run fid start interval [] st = Inr ([], st)"
| "reporter_run fid start interval (Sent n # evs) st = reporter_run fid start interval evs (sent_chunk n st)"
| "reporter_run fid start interval (Tick now # evs) st =
     bindE (reporter_tick fid start interval now st) (\<lambda>(line, st').
       mapE (\<lambda>(ws, st2). ((interval_bytes st, now - interval_start st) # ws, st2)) (reporter_run fid start interval evs st'))"

fun sent_bytes :: "report_event list \<Rightarrow> nat" where
  "sent_bytes [] = 0"
| "sent_bytes (Sent n # evs) = n + sent_bytes evs"
| "sent_bytes (Tick now # evs) = sent_bytes evs"

lemma reporter_tick_state:
  "\<exists>line. reporter_tick fid start interval now st =
     Inr (line, \<lparr>interval_bytes = 0, interval_start = now, next_deadline = round_double (now + interval)\<rparr>)"
  using rate_mbps_pos [of "round_double (now - interval_start st)" "interval_bytes st"] by (auto simp: reporter_tick_def Let_def)

lemma windows_add_up:
  "\<exists>ws st'. reporter_run fid start interval evs st = Inr (ws, st')
    \<and> sum_list (map fst ws) + interval_bytes st' = interval_bytes st + sent_bytes evs
    \<and> interval_start st + sum_list (map snd ws) = interval_start st'"
proof (induction evs arbitrary: st)
  case (Cons ev evs)
  show ?case
  proof (cases ev)
    case (Sent n)
    with Cons [of "sent_chunk n st"] show ?thesis by (simp add: sent_chunk_def add.assoc)
  next
    case (Tick now)
    from reporter_tick_state obtain line where t: "reporter_tick fid start interval now st =
      Inr (line, \<lparr>interval_bytes = 0, interval_start = now, next_deadline = round_double (now + interval)\<rparr>)" by blast
    from Cons [of "\<lparr>interval_bytes = 0, interval_start = now, next_deadline = round_double (now + interval)\<rparr>"]
    show ?thesis using t Tick by (auto simp: algebra_simps)
  qed
qed simp

end
