(* ===== verification/Offline_Report.thy ===== *)
theory Offline_Report
  imports Offline_Buckets Perf_Tools
begin

text \<open>
  The last part of \<^verbatim>\<open>pcap_buckets.py\<close>: the report that \<^verbatim>\<open>main\<close> composes line by line from the
  merged accumulators and the precision analysis, with the cross-check against the switch, and
  its output on the screen and in the archive file. The order in which Python walks over a set
  is the argument \<open>order\<close>. The lemmas show what the verdict line means for the traffic, what the
  list of mismatches holds, and that the archive is read back line by line.
\<close>

section \<open>Pieces of text\<close>

definition basename :: "string \<Rightarrow> string" where
  "basename p = rev (takeWhile (\<lambda>c. c \<noteq> CHR ''/'') (rev p))"

fun join_with :: "string \<Rightarrow> string list \<Rightarrow> string" where
  "join_with sep [] = []"
| "join_with sep [x] = x"
| "join_with sep (x # y # xs) = x @ sep @ join_with sep (y # xs)"

text \<open>The text of a Python list of integers.\<close>

definition list_text :: "nat list \<Rightarrow> string" where
  "list_text ns = ''['' @ join_with '', '' (map dec_nat ns) @ '']''"

section \<open>The report\<close>

text \<open>The accuracy as the double that is printed: a rounded quotient times 100, rounded.\<close>

definition accuracy_double :: "analysis \<Rightarrow> rat" where
  "accuracy_double s =
     (if n_cids s \<noteq> 0 then round_double (round_double (of_int (separated s) / of_nat (n_cids s)) * 100) else 100)"

definition head_lines :: "string \<Rightarrow> acc \<Rightarrow> analysis \<Rightarrow> nat \<Rightarrow> string list" where
  "head_lines pcap a s skipped =
     [replicate 64 (CHR ''=''),
      ''P4-QUIC length-aware classifier -- offline pcap result'',
      replicate 64 (CHR ''=''),
      ''capture                    : '' @ basename pcap,
      ''QUIC/443 packets analyzed  : '' @ dec_nat (total_pkts s) @ ''  ('' @ dec_nat skipped @ '' non-parseable skipped)'',
      ''distinct connections (CIDs): '' @ dec_nat (n_cids s),
      ''distinct buckets occupied  : '' @ dec_nat (n_bucket s),
      [],
      ''packets by QUIC header kind:''] @
     map (\<lambda>k. ''    '' @ pad_right 18 k @ '' '' @ pad_left 12 (dec_nat (dget (kind_pkts a) k 0)))
       (sort_key (\<lambda>k. - int (dget (kind_pkts a) k 0)) (dkeys (kind_pkts a))) @
     [[]]"

definition result_lines :: "analysis \<Rightarrow> string list" where
  "result_lines s =
     [replicate 64 (CHR ''-'')] @
     (if collisions s = [] \<and> splits_of s = [] then
        [''RESULT: CLEAN SEPARATION'',
         ''  '' @ dec_nat (n_cids s) @ '' connections map 1:1 to '' @ dec_nat (n_bucket s) @ '' distinct buckets.'',
         ''  No collisions, no splits -- classification accuracy 100.0%.'']
      else
        [''RESULT: '' @ dec_nat (length (collisions s)) @ '' COLLISION(S), '' @
           dec_nat (length (splits_of s)) @ '' SPLIT(S)'',
         ''  classification accuracy : '' @ fixed 2 (accuracy_double s) @ ''%  ('' @ dec_int (separated s) @ '' of '' @
           dec_nat (n_cids s) @ '' connections cleanly separated)''] @
        (if collisions s \<noteq> [] then
           [''  collisions conflate '' @ dec_nat (cids_collided s) @ '' connections into '' @
              dec_nat (length (collisions s)) @ '' buckets ('' @ dec_nat (pkts_collided s) @
              '' packets affected) -- the switch UNDER-counts these.'']
         else []) @
        (if splits_of s \<noteq> [] then
           [''  '' @ dec_nat (length (splits_of s)) @
              '' connections each landed in >1 bucket -- length learning was unstable.'']
         else [])) @
     [replicate 64 (CHR ''-'')]"

definition split_lines :: "acc \<Rightarrow> analysis \<Rightarrow> string list" where
  "split_lines a s =
     (if splits_of s \<noteq> [] then
        [[], ''splits (connection CID -> buckets it was scattered across):''] @
        map (\<lambda>(h, bs). ''    '' @ h @ '' : '' @ dec_nat (dget (cid_pkts a) h 0) @ '' pkts -> buckets '' @
               list_text (sorted_list_of_set bs))
          (sort_key (\<lambda>(h, bs). - int (dget (cid_pkts a) h 0)) (splits_of s))
      else [])"

definition top_switch_only :: "(int set \<Rightarrow> int list) \<Rightarrow> (int, int) dict \<Rightarrow> int set \<Rightarrow> int list" where
  "top_switch_only order sw_counts only = take 20 (sort_key (\<lambda>b. - dget sw_counts b 0) (order only))"

definition cross_lines :: "(int set \<Rightarrow> int list) \<Rightarrow> string \<Rightarrow> (int, int) dict \<Rightarrow> acc \<Rightarrow> string list" where
  "cross_lines order switch sw_counts a =
     (let c = cross_check sw_counts a in
      [[],
       replicate 64 (CHR ''-''),
       ''cross-check vs switch ('' @ basename switch @ ''):'',
       ''    switch buckets : '' @ dec_nat (n_switch c),
       ''    pcap buckets   : '' @ dec_nat (n_pcap c),
       ''    agree (both)   : '' @ dec_nat (card (both c)),
       ''    switch only    : '' @ dec_nat (card (sw_only c)) @ ''   <- buckets the offline model did NOT reproduce'',
       ''    pcap only      : '' @ dec_nat (card (pc_only c))] @
      (if sw_only c \<noteq> {} then
         [''    switch-only (bucket:pkts): '' @
            join_with '', '' (map (\<lambda>b. dec_int b @ '':'' @ dec_int (dget sw_counts b 0))
              (top_switch_only order sw_counts (sw_only c))) @
            (if card (sw_only c) > 20 then '' ...'' else [])]
       else []))"

text \<open>
  The report: \<open>switch\<close> is the value of \<^verbatim>\<open>--switch\<close>, if given, and \<open>contents\<close> the text of the file it
  names, if there is one. An empty value counts as not given.
\<close>

definition report_lines ::
  "(int set \<Rightarrow> int list) \<Rightarrow> string \<Rightarrow> string option \<Rightarrow> string option \<Rightarrow> acc \<times> nat \<Rightarrow> string list result" where
  "report_lines order pcap switch contents st =
     (case st of (a, skipped) \<Rightarrow>
        let s = analyse a; R = head_lines pcap a s skipped @ result_lines s @ split_lines a s in
        case switch of
          None \<Rightarrow> Inr R
        | Some sw \<Rightarrow>
            (if sw = [] then Inr R
             else mapE (\<lambda>sw_counts. R @ cross_lines order sw sw_counts a) (load_switch_buckets sw contents)))"

record pcap_args =
  arg_pcap :: string
  arg_switch :: "string option"
  arg_out :: string
  arg_jobs :: int

text \<open>
  The whole of \<^verbatim>\<open>main\<close> after the command line is parsed, on the bytes of the capture: what it
  prints and what it writes to the file \<^verbatim>\<open>args.out\<close>.
\<close>

definition pcap_main ::
  "(int set \<Rightarrow> int list) \<Rightarrow> nat option \<Rightarrow> pcap_args \<Rightarrow> bytes \<Rightarrow> string option \<Rightarrow> (string \<times> string) result" where
  "pcap_main order cpu_count args mm contents =
     bindE (run_phases mm (choose_jobs (arg_jobs args) cpu_count)) (\<lambda>st.
       mapE (\<lambda>R. let text = join_with [CHR 0x0A] R in
               (text @ [CHR 0x0A] @ [CHR 0x0A] @ ''(summary archived to '' @ arg_out args @ '')'' @ [CHR 0x0A],
                text @ [CHR 0x0A]))
         (report_lines order (arg_pcap args) (arg_switch args) contents st))"

section \<open>Reading the archive back\<close>

abbreviation (input) nl :: char where "nl \<equiv> CHR 0x0A"

lemma join_with_end: "xs \<noteq> [] \<Longrightarrow> join_with sep xs @ sep = concat (map (\<lambda>x. x @ sep) xs)"
  by (induction sep xs rule: join_with.induct) auto

lemma file_lines_concat:
  "\<forall>l \<in> set R. nl \<notin> set l \<Longrightarrow> file_lines (concat (map (\<lambda>l. l @ [nl]) R)) = map (\<lambda>l. l @ [nl]) R"
  by (induction R) (auto simp: file_lines_line)

lemma nl_join_with: "nl \<notin> set sep \<Longrightarrow> \<forall>x \<in> set xs. nl \<notin> set x \<Longrightarrow> nl \<notin> set (join_with sep xs)"
  by (induction sep xs rule: join_with.induct) auto

lemma nl_basename: "nl \<notin> set p \<Longrightarrow> nl \<notin> set (basename p)"
  using set_takeWhileD [of nl] by (force simp: basename_def)

lemma nl_dec_nat [simp]: "nl \<notin> set (dec_nat n)"
  using isdigit_not_mem [OF isdigit_dec_nat, of nl] by simp

lemma nl_dec_int [simp]: "nl \<notin> set (dec_int i)"
  by (simp add: dec_int_def)

lemma nl_fixed [simp]: "nl \<notin> set (fixed k x)"
  using fixed_plain [of nl k x] by (auto simp: is_linebreak_def)

lemma nl_pads: "nl \<in> set (pad_left w s) \<longleftrightarrow> nl \<in> set s" "nl \<in> set (pad_right w s) \<longleftrightarrow> nl \<in> set s"
  by (auto simp: pad_left_def pad_right_def)

lemma classify_kind: "classify L r = Some (d, k) \<Longrightarrow> nl \<notin> set k"
  by (auto simp: classify_def KINDS_def Let_def split: if_splits prod.splits option.splits)

lemma kinds_plain: "k \<in> set (dkeys (kind_pkts (acc_of (events L rs)))) \<Longrightarrow> nl \<notin> set k"
proof -
  assume "k \<in> set (dkeys (kind_pkts (acc_of (events L rs))))"
  then obtain d where "(d, k) \<in> set (events L rs)"
    by (auto simp: dkeys_def acc_of_keys)
  then show ?thesis
    by (auto simp: events_def List.map_filter_def dest: classify_kind)
qed

lemma nl_head_lines:
  assumes "nl \<notin> set pcap" "\<And>k. k \<in> set (dkeys (kind_pkts a)) \<Longrightarrow> nl \<notin> set k"
  shows "\<forall>l \<in> set (head_lines pcap a s skipped). nl \<notin> set l"
  using assms(2) nl_basename [OF assms(1)] by (auto simp: head_lines_def nl_pads)

lemma nl_result_lines: "\<forall>l \<in> set (result_lines s). nl \<notin> set l"
  by (auto simp: result_lines_def)

lemma nl_cross_lines:
  assumes "nl \<notin> set switch"
  shows "\<forall>l \<in> set (cross_lines order switch counts a). nl \<notin> set l"
proof -
  have "nl \<notin> set (join_with '', '' (map (\<lambda>b. dec_int b @ '':'' @ dec_int (dget counts b 0)) bs))" for bs
    by (rule nl_join_with) auto
  then show ?thesis
    using nl_basename [OF assms] by (auto simp: cross_lines_def Let_def)
qed

section \<open>The verdict\<close>

definition is_verdict :: "string \<Rightarrow> bool" where
  "is_verdict l \<longleftrightarrow> take 7 l = ''RESULT:''"

lemma is_verdict_first: "c \<noteq> CHR ''R'' \<Longrightarrow> \<not> is_verdict (c # l)" "\<not> is_verdict []"
  by (simp_all add: is_verdict_def)

lemma is_verdict_rule: "c \<noteq> CHR ''R'' \<Longrightarrow> \<not> is_verdict (replicate 64 c)"
  by (simp add: replicate_eval is_verdict_first)

lemma filter_head_lines: "filter is_verdict (head_lines pcap a s skipped) = []"
  by (simp add: head_lines_def is_verdict_first is_verdict_rule filter_map o_def)

lemma filter_cross_lines: "filter is_verdict (cross_lines order switch counts a) = []"
  by (simp add: cross_lines_def Let_def is_verdict_first is_verdict_rule)

definition verdict :: "analysis \<Rightarrow> string" where
  "verdict s =
     (if collisions s = [] \<and> splits_of s = [] then ''RESULT: CLEAN SEPARATION''
      else ''RESULT: '' @ dec_nat (length (collisions s)) @ '' COLLISION(S), '' @ dec_nat (length (splits_of s)) @ '' SPLIT(S)'')"

lemma filter_result_lines: "filter is_verdict (result_lines s) = [verdict s]"
proof -
  have v: "is_verdict (verdict s)"
    by (simp add: verdict_def is_verdict_def)
  have "result_lines s = replicate 64 (CHR ''-'') # verdict s # tl (tl (result_lines s))"
    by (simp add: result_lines_def verdict_def)
  moreover have "filter is_verdict (tl (tl (result_lines s))) = []"
    by (simp add: result_lines_def is_verdict_first is_verdict_rule)
  ultimately have "filter is_verdict (result_lines s) = filter is_verdict (replicate 64 (CHR ''-'') # [verdict s])"
    by (metis (no_types, lifting) append_Cons append_Nil append_Nil2 filter_append)
  then show ?thesis
    using v by (simp add: is_verdict_rule)
qed

lemma length_collisions:
  fixes evs
  defines "S \<equiv> fst ` set evs"
  shows "length (collisions (analyse (acc_of evs))) = card {b. card {c \<in> S. bucket c = b} > 1}"
proof -
  have "length (collisions (analyse (acc_of evs))) = card {b \<in> bucket ` S. card {c \<in> S. bucket c = b} > 1}"
    using length_filter_values [OF acc_ofD(2), where x = "{}" and Q = "\<lambda>cs. card cs > 1", of evs]
    by (simp add: analyse_def Let_def acc_of_keys acc_of_values card_hex_image S_def)
  moreover have "b \<in> bucket ` S" if "card {c \<in> S. bucket c = b} > 1" for b
  proof -
    from that have "{c \<in> S. bucket c = b} \<noteq> {}" by force
    then show ?thesis by blast
  qed
  ultimately show ?thesis by (metis (no_types, lifting) Collect_cong)
qed

lemma dec_nat_0: "dec_nat 0 = ''0''"
  by code_simp

lemma verdict_acc_of:
  fixes evs
  defines "S \<equiv> fst ` set evs"
  shows "verdict (analyse (acc_of evs)) =
    (if inj_on bucket S then ''RESULT: CLEAN SEPARATION''
     else ''RESULT: '' @ dec_nat (card {b. card {c \<in> S. bucket c = b} > 1}) @ '' COLLISION(S), 0 SPLIT(S)'')"
proof -
  have "collisions (analyse (acc_of evs)) = [] \<longleftrightarrow> inj_on bucket S"
    using collisions_empty_iff [of evs] inj_on_iff_eq_card [of S bucket] by (simp add: S_def)
  then show ?thesis
    using length_collisions [of evs] analyser_never_splits_aux [of evs]
    by (simp add: verdict_def S_def dec_nat_0)
qed

lemma report_lines_cases:
  assumes "report_lines order pcap switch contents (a, skipped) = Inr R"
  shows "\<exists>C. R = head_lines pcap a (analyse a) skipped @ result_lines (analyse a) @ split_lines a (analyse a) @ C
    \<and> (C = [] \<or> (\<exists>sw counts. switch = Some sw \<and> load_switch_buckets sw contents = Inr counts \<and> C = cross_lines order sw counts a))"
  using assms by (auto simp: report_lines_def Let_def mapE_eq_Inr_iff split: option.splits if_splits)

text \<open>The lines of a report over the rows of a capture: each is one line, and one is the verdict.\<close>

lemma report_lines_of_rows:
  assumes "report_lines order pcap switch contents (bucket_phase rs L) = Inr R"
  shows "filter is_verdict R = [verdict (analyse (acc_of (events L rs)))] \<and> R \<noteq> []"
    and "nl \<notin> set pcap \<Longrightarrow> (\<And>sw. switch = Some sw \<Longrightarrow> nl \<notin> set sw) \<Longrightarrow> \<forall>l \<in> set R. nl \<notin> set l"
proof -
  let ?a = "acc_of (events L rs)"
  obtain n where n: "bucket_phase rs L = (?a, n)"
    using bucket_phase_acc_of [of rs L] by blast
  have sp: "split_lines ?a (analyse ?a) = []"
    by (simp add: split_lines_def analyser_never_splits_aux)
  obtain C where C: "C = [] \<or> (\<exists>sw counts. switch = Some sw \<and> C = cross_lines order sw counts ?a)"
    and R: "R = head_lines pcap ?a (analyse ?a) n @ result_lines (analyse ?a) @ C"
    using report_lines_cases [OF assms [unfolded n]] unfolding sp append_Nil by blast
  have "filter is_verdict C = []" using C by (auto simp: filter_cross_lines)
  then have "filter is_verdict R = [verdict (analyse ?a)]"
    by (simp only: R filter_append filter_head_lines filter_result_lines append_Nil append_Nil2)
  then show "filter is_verdict R = [verdict (analyse ?a)] \<and> R \<noteq> []" by force
  assume "nl \<notin> set pcap" and sw: "\<And>sw. switch = Some sw \<Longrightarrow> nl \<notin> set sw"
  then have "\<forall>l \<in> set (head_lines pcap ?a (analyse ?a) n). nl \<notin> set l"
    using nl_head_lines kinds_plain by blast
  moreover have "\<forall>l \<in> set C. nl \<notin> set l" using C sw nl_cross_lines by auto
  ultimately show "\<forall>l \<in> set R. nl \<notin> set l"
    using nl_result_lines [of "analyse ?a"] by (auto simp: R)
qed

lemma pcap_main_rows:
  "pcap_main order cpus args mm contents =
     bindE (rows mm) (\<lambda>rs.
       mapE (\<lambda>R. (join_with [nl] R @ [nl, nl] @ ''(summary archived to '' @ arg_out args @ '')'' @ [nl], join_with [nl] R @ [nl]))
         (report_lines order (arg_pcap args) (arg_switch args) contents (bucket_phase rs (learn_phase rs))))"
  by (simp add: pcap_main_def run_phases_rows serial_phases_def bindE_mapE Let_def)

lemma filter_verdict_nl: "filter is_verdict (map (\<lambda>l. l @ [nl]) R) = map (\<lambda>l. l @ [nl]) (filter is_verdict R)"
proof -
  have "is_verdict (l @ [nl]) = is_verdict l" for l
    by (cases "7 \<le> length l") (auto simp: is_verdict_def dest: arg_cong [where f = set] arg_cong [where f = length])
  then show ?thesis by (simp add: filter_map o_def)
qed

text \<open>
  C11. The archived summary can be trusted line by line. Whatever the number of workers, a run of
  \<^verbatim>\<open>pcap_buckets.py\<close> that ends archives a text with exactly one verdict line: it says
  \<^verbatim>\<open>CLEAN SEPARATION\<close> exactly when no two connection IDs of the capture share a bucket, and
  otherwise the number of buckets that hold several connection IDs, with no split. The screen
  shows the same text and then the name of the archive.
\<close>

theorem archived_verdict:
  assumes "pcap_main order cpus args mm contents = Inr (out, archive)"
    and "nl \<notin> set (arg_pcap args)" "\<And>sw. arg_switch args = Some sw \<Longrightarrow> nl \<notin> set sw"
  shows "\<exists>rs. rows mm = Inr rs
    \<and> out = archive @ [nl] @ ''(summary archived to '' @ arg_out args @ '')'' @ [nl]
    \<and> (let S = fst ` set (events (learn_phase rs) rs) in
       filter is_verdict (file_lines archive) =
         [if inj_on bucket S then ''RESULT: CLEAN SEPARATION'' @ [nl]
          else ''RESULT: '' @ dec_nat (card {b. card {c \<in> S. bucket c = b} > 1}) @ '' COLLISION(S), 0 SPLIT(S)'' @ [nl]])"
proof -
  obtain rs R where rs: "rows mm = Inr rs"
    and R: "report_lines order (arg_pcap args) (arg_switch args) contents (bucket_phase rs (learn_phase rs)) = Inr R"
    and out: "out = archive @ [nl] @ ''(summary archived to '' @ arg_out args @ '')'' @ [nl]" "archive = join_with [nl] R @ [nl]"
    using assms(1) by (auto simp: pcap_main_rows bindE_eq_Inr_iff mapE_eq_Inr_iff)
  have "file_lines archive = map (\<lambda>l. l @ [nl]) R"
    using report_lines_of_rows [OF R] assms(2,3) by (simp add: out join_with_end file_lines_concat)
  then have "filter is_verdict (file_lines archive) = [verdict (analyse (acc_of (events (learn_phase rs) rs))) @ [nl]]"
    using report_lines_of_rows(1) [OF R] by (simp add: filter_verdict_nl)
  then show ?thesis
    using rs out(1) by (simp add: verdict_acc_of Let_def)
qed

lemma rows_sample_cap: "\<exists>p q. rows sample_cap = Inr [p, q] \<and> events (learn_phase [p, q]) [p, q] = [([], ''Short(unlearned)''), ([], ''Short(unlearned)'')]"
  by (simp add: sample_cap_def capture_eval learn_phase_def learn_row_def events_def classify_def List.map_filter_def dget_def
      cong: bindE_weak_cong)

theorem archived_verdict_witness:
  "\<exists>out archive. pcap_main sorted_list_of_set (Some 4)
      \<lparr>arg_pcap = ''runs/a.pcap'', arg_switch = None, arg_out = ''pcap_summary.txt'', arg_jobs = 0\<rparr> sample_cap None = Inr (out, archive)
    \<and> filter is_verdict (file_lines archive) = [''RESULT: CLEAN SEPARATION'' @ [nl]]"
proof -
  let ?args = "\<lparr>arg_pcap = ''runs/a.pcap'', arg_switch = None, arg_out = ''pcap_summary.txt'', arg_jobs = 0\<rparr>"
  obtain p q where pq: "rows sample_cap = Inr [p, q]"
    "events (learn_phase [p, q]) [p, q] = [([], ''Short(unlearned)''), ([], ''Short(unlearned)'')]"
    using rows_sample_cap by blast
  then obtain out archive where run: "pcap_main sorted_list_of_set (Some 4) ?args sample_cap None = Inr (out, archive)"
    by (cases "bucket_phase [p, q] (learn_phase [p, q])") (simp add: pcap_main_rows report_lines_def Let_def)
  have "filter is_verdict (file_lines archive) = [''RESULT: CLEAN SEPARATION'' @ [nl]]"
    using archived_verdict [OF run] by (simp add: pq Let_def)
  with run show ?thesis by blast
qed

section \<open>The list of mismatches\<close>

lemma sort_key_take_extreme:
  fixes f :: "'a \<Rightarrow> int"
  assumes "b \<in> set xs" "b \<notin> set (take n (sort_key f xs))" "t \<in> set (take n (sort_key f xs))"
  shows "f t \<le> f b"
proof -
  let ?ys = "sort_key f xs"
  have "b \<in> set (take n ?ys @ drop n ?ys)" using assms(1) by simp
  then have d: "b \<in> set (drop n ?ys)" using assms(2) by (simp only: set_append Un_iff) simp
  have "sorted (map f (take n ?ys @ drop n ?ys))" by simp
  then show ?thesis using d assms(3) unfolding map_append sorted_append by simp
qed

text \<open>
  The diagnostic of the cross-check is the useful one, in whatever order Python walks over the
  set of mismatches: it lists buckets of the switch that the capture does not have, each once and
  by decreasing packet count, all of them up to twenty and otherwise twenty of which none has fewer
  packets than a bucket that is left out; every listed bucket is shown with the count of the dump.
\<close>

theorem mismatch_list:
  fixes order :: "int set \<Rightarrow> int list" and counts :: "(int, int) dict" and a :: acc and switch :: string
  assumes "enumerates order"
  defines "only \<equiv> sw_only (cross_check counts a)"
    and "listed \<equiv> top_switch_only order counts (sw_only (cross_check counts a))"
  shows "distinct listed \<and> set listed \<subseteq> only \<and> length listed = min 20 (card only)
    \<and> sorted (map (\<lambda>b. - dget counts b 0) listed)
    \<and> (card only \<le> 20 \<longrightarrow> set listed = only)
    \<and> (\<forall>b \<in> only - set listed. \<forall>t \<in> set listed. dget counts b 0 \<le> dget counts t 0)
    \<and> only = fst ` set counts - int ` fst ` set (bucket_pkts a)
    \<and> (only \<noteq> {} \<longrightarrow> last (cross_lines order switch counts a) = ''    switch-only (bucket:pkts): '' @
         join_with '', '' (map (\<lambda>b. dec_int b @ '':'' @ dec_int (dget counts b 0)) listed) @
         (if card only > 20 then '' ...'' else []))"
proof -
  have o: "only = fst ` set counts - int ` fst ` set (bucket_pkts a)"
    by (auto simp: only_def cross_check_def Let_def)
  then have "finite only" by simp
  then have ord: "distinct (order only)" "set (order only) = only" using assms(1) by (auto simp: enumerates_def)
  then have len: "length (order only) = card only" by (metis distinct_card)
  have listed: "listed = take 20 (sort_key (\<lambda>b. - dget counts b 0) (order only))"
    by (simp add: listed_def top_switch_only_def only_def)
  have sub: "set listed \<subseteq> only" using ord set_take_subset [of 20 "sort_key (\<lambda>b. - dget counts b 0) (order only)"]
    by (simp add: listed)
  have all: "set listed = only" if "card only \<le> 20" using that ord len by (simp add: listed)
  have ext: "dget counts b 0 \<le> dget counts t 0" if "b \<in> only - set listed" "t \<in> set listed" for b t
    using sort_key_take_extreme [of b "order only" 20 "\<lambda>b. - dget counts b 0" t] that ord by (simp add: listed)
  have "sorted (map (\<lambda>b. - dget counts b 0) listed)"
    unfolding listed take_map [symmetric] by (rule sorted_wrt_take) simp
  moreover have "distinct listed" "length listed = min 20 (card only)" using ord len by (simp_all add: listed)
  moreover have "only \<noteq> {} \<longrightarrow> last (cross_lines order switch counts a) = ''    switch-only (bucket:pkts): '' @
      join_with '', '' (map (\<lambda>b. dec_int b @ '':'' @ dec_int (dget counts b 0)) listed) @
      (if card only > 20 then '' ...'' else [])"
    by (simp add: cross_lines_def Let_def only_def listed_def)
  ultimately show ?thesis using o sub all ext by simp
qed

definition sample_mismatch :: "(int, int) dict" where
  "sample_mismatch = [(7, 2), (9, 5), (11, 3)]"

theorem mismatch_list_witness:
  "top_switch_only sorted_list_of_set sample_mismatch (sw_only (cross_check sample_mismatch new_acc)) = [9, 11, 7]
   \<and> last (cross_lines sorted_list_of_set ''sw.csv'' sample_mismatch new_acc) =
      ''    switch-only (bucket:pkts): 9:5, 11:3, 7:2''"
proof -
  have only: "sw_only (cross_check sample_mismatch new_acc) = {7, 9, 11}"
    by (auto simp: sample_mismatch_def cross_check_def Let_def)
  have listed: "top_switch_only sorted_list_of_set sample_mismatch {7, 9, 11} = [9, 11, 7]"
    by (simp add: top_switch_only_def sample_mismatch_def dget_def)
  have shown: "join_with '', '' (map (\<lambda>b. dec_int b @ '':'' @ dec_int (dget sample_mismatch b 0)) [9, 11, 7]) = ''9:5, 11:3, 7:2''"
    by code_simp
  have "last (cross_lines sorted_list_of_set ''sw.csv'' sample_mismatch new_acc) = ''    switch-only (bucket:pkts): 9:5, 11:3, 7:2''"
    using mismatch_list [of sorted_list_of_set sample_mismatch new_acc "''sw.csv''"] unfolding only listed shown
    by (simp add: enumerates_def)
  then show ?thesis unfolding only listed by simp
qed

end
