(* ===== verification/Monitor.thy ===== *)
theory Monitor
  imports Switch_Parity Control_Plane Py_Text "HOL-Library.List_Lexorder"
begin

text \<open>
  The live tools of the control plane: \<^verbatim>\<open>quic_monitor.py\<close> (digest callback, counter polling,
  grouping by client, optional log), \<^verbatim>\<open>poll_quic.py\<close> (the same polling without digests) and
  \<^verbatim>\<open>display_quic.py\<close> (decoding of digests). The runtime's answers to a counter read and its
  digest messages are arguments, as is the clock. Rates are doubles: every division, product and
  addition of the code is rounded, and the screens are the printed lines (in UTF-8), with the numbers as the
  format strings print them. The one float operation without rounding is the comparison of the age
  of a bucket with ten seconds, whose operand, the difference of two nearby clock readings, is a double.
  A poll is one step against the digest state, except where the interleaving of single writes is the subject.
\<close>

section \<open>Digest callback\<close>

text \<open>
  A field of a digest dictionary: an int, or another object with its \<^verbatim>\<open>str()\<close>. The runtime's
  integers are not negative.
\<close>

datatype dval = DInt nat | DOther string

type_synonym digest_msg = "(string, dval) dict"

fun show_dval :: "dval \<Rightarrow> string" where
  "show_dval (DInt n) = dec_nat n"
| "show_dval (DOther s) = s"

text \<open>\<^verbatim>\<open>"{:0wx}".format(n)\<close>.\<close>

fun hex_nat :: "nat \<Rightarrow> string" where
  "hex_nat n = (if n < 16 then [hex_digit n] else hex_nat (n div 16) @ [hex_digit (n mod 16)])"

declare hex_nat.simps [simp del]

definition hex_pad :: "nat \<Rightarrow> nat \<Rightarrow> string" where
  "hex_pad w n = replicate (w - length (hex_nat n)) (CHR ''0'') @ hex_nat n"

definition fmt_ip :: "nat \<Rightarrow> string" where
  "fmt_ip n =
     dec_nat (drop_bit 24 n AND 0xFF) @ ''.'' @ dec_nat (drop_bit 16 n AND 0xFF) @ ''.'' @
     dec_nat (drop_bit 8 n AND 0xFF) @ ''.'' @ dec_nat (n AND 0xFF)"

record monitor =
  bucket_dcid :: "(int, string) dict"
  ctr_dcid :: "(int, string) dict"
  ctr_len :: "(int, nat) dict"
  bucket_dir :: "(int, string) dict"
  bucket_ckey :: "(int, string) dict"
  prev_pkts :: "(int, int) dict"
  prev_bytes :: "(int, int) dict"
  last_active :: "(int, rat) dict"
  prev_time :: rat
  mon_fields :: "string option \<times> string option"

definition INACTIVITY_TIMEOUT :: rat where "INACTIVITY_TIMEOUT = 10"

definition new_monitor :: "rat \<Rightarrow> monitor" where
  "new_monitor now =
     \<lparr>bucket_dcid = [], ctr_dcid = [], ctr_len = [], bucket_dir = [], bucket_ckey = [], prev_pkts = [],
      prev_bytes = [], last_active = [], prev_time = now, mon_fields = (None, None)\<rparr>"

text \<open>
  The inner \<^verbatim>\<open>try\<close>: the direction is stored before the address is formatted, so an address
  that is no int leaves the direction behind.
\<close>

definition endpoint_of :: "digest_msg \<Rightarrow> int \<Rightarrow> monitor \<Rightarrow> monitor" where
  "endpoint_of d ctr_idx st =
     (case (map_of d ''ip_src'', map_of d ''ip_dst'', map_of d ''udp_src_port'', map_of d ''udp_dst_port'') of
        (Some ip_s, Some ip_d, Some udp_s, Some udp_d) \<Rightarrow>
          (let dn = (udp_s = DInt 443);
               st' = st\<lparr>bucket_dir := AList.update ctr_idx (if dn then ''dn'' else ''up'') (bucket_dir st)\<rparr>;
               ip = (if dn then ip_d else ip_s);
               port = (if dn then udp_d else udp_s)
           in case ip of
                DOther _ \<Rightarrow> st'
              | DInt n \<Rightarrow>
                  st'\<lparr>bucket_ckey := AList.update ctr_idx (fmt_ip n @ '':'' @ show_dval port) (bucket_ckey st')\<rparr>)
      | _ \<Rightarrow> st)"

definition digest_step :: "monitor \<Rightarrow> digest_msg \<Rightarrow> monitor result" where
  "digest_step st d =
     bindE (dlookup d ''dcid'') (\<lambda>dcid_raw.
       bindE (dlookup d ''dcid_len'') (\<lambda>len.
         case dcid_raw of
           DOther _ \<Rightarrow> Inr st
         | DInt raw \<Rightarrow>
             (case len of
                DOther _ \<Rightarrow> Inl TypeError
              | DInt n \<Rightarrow>
                  if n = 0 then Inr st
                  else
                    (let dcid_hex = take (n * 2) (hex_pad 40 raw) in
                     bindE (fromhex dcid_hex) (\<lambda>b.
                       let bckt = int (unat (crc32 (ljust b 20)) AND 0x1FFFF);
                           ctr_idx = bckt AND 0x3FF
                       in Inr (endpoint_of d ctr_idx
                            (st\<lparr>bucket_dcid := AList.update bckt dcid_hex (bucket_dcid st),
                                ctr_dcid := AList.update ctr_idx dcid_hex (ctr_dcid st),
                                ctr_len := AList.update ctr_idx n (ctr_len st)\<rparr>)))))))"

text \<open>The loop of the callback: an exception ends it and keeps what was stored so far.\<close>

fun on_quic_digest :: "digest_msg list \<Rightarrow> monitor \<Rightarrow> monitor" where
  "on_quic_digest [] st = st"
| "on_quic_digest (d # msg) st =
     (case digest_step st d of Inl _ \<Rightarrow> st | Inr st' \<Rightarrow> on_quic_digest msg st')"

section \<open>Reading the counter\<close>

definition discover_fields ::
  "(string, raw) dict \<Rightarrow> string option \<times> string option \<Rightarrow> string option \<times> string option" where
  "discover_fields data f =
     (if fst f \<noteq> None \<and> snd f \<noteq> None then f
      else (let pick = (\<lambda>names old. case pick_field data names of None \<Rightarrow> old | Some n \<Rightarrow> Some n)
            in (pick PKT_NAMES (fst f), pick BYTE_NAMES (snd f))))"

definition field_value :: "(string, raw) dict \<Rightarrow> string option \<Rightarrow> string \<Rightarrow> int" where
  "field_value data f name = sum_raw (dget data (case f of None \<Rightarrow> name | Some n \<Rightarrow> n) (RList [0]))"

type_synonym read_state = "(int, int \<times> int) dict \<times> string option \<times> string option"

definition read_entry :: "read_state \<Rightarrow> int \<Rightarrow> (string, raw) dict \<Rightarrow> read_state" where
  "read_entry st idx data =
     (case st of (res, f) \<Rightarrow>
        (let f' = discover_fields data f;
             pkts = field_value data (fst f') ''$COUNTER_SPEC_PKTS'';
             byt = field_value data (snd f') ''$COUNTER_SPEC_BYTES''
         in (if pkts > 0 \<or> byt > 0 then AList.update idx (pkts, byt) res else res, f')))"

text \<open>
  The answer of the runtime's \<^verbatim>\<open>get\<close>: an exception, \<^verbatim>\<open>None\<close>, or the entries. Only the monitor
  tolerates the first two, and an entry without an index.
\<close>

definition read_counter ::
  "entry list option result \<Rightarrow> string option \<times> string option \<Rightarrow> read_state" where
  "read_counter answer f =
     (case answer of
        Inr (Some entries) \<Rightarrow>
          foldl (\<lambda>st e. case map_of (ent_key e) CTR_INDEX of None \<Rightarrow> st | Some idx \<Rightarrow> read_entry st idx (ent_data e))
            ([], f) entries
      | _ \<Rightarrow> ([], f))"

definition poll_read_counter ::
  "entry list result \<Rightarrow> string option \<times> string option \<Rightarrow> read_state result" where
  "poll_read_counter answer f =
     bindE answer
       (foldE (\<lambda>st e. mapE (\<lambda>idx. read_entry st idx (ent_data e)) (dlookup (ent_key e) CTR_INDEX)) ([], f))"

definition warm_up :: "entry list option result \<Rightarrow> rat \<Rightarrow> monitor \<Rightarrow> monitor" where
  "warm_up answer now st =
     (let (counts, f) = read_counter answer (mon_fields st)
      in foldl (\<lambda>s (idx, pkts, byt). s\<lparr>prev_pkts := AList.update idx pkts (prev_pkts s),
                                        prev_bytes := AList.update idx byt (prev_bytes s)\<rparr>)
           (st\<lparr>mon_fields := f, prev_time := now\<rparr>) counts)"

section \<open>One poll\<close>

type_synonym stat = "int \<times> rat \<times> rat"

definition stat_step ::
  "rat \<Rightarrow> rat \<Rightarrow> monitor \<times> (int, stat) dict \<Rightarrow> int \<times> int \<times> int \<Rightarrow> monitor \<times> (int, stat) dict" where
  "stat_step now dt acc c =
     (case (acc, c) of ((st, stats), (idx, pkts, byt)) \<Rightarrow>
        (let d_pkts = pkts - dget (prev_pkts st) idx 0;
             d_bytes = byt - dget (prev_bytes st) idx 0;
             pkt_rate = (if dt > 0 then round_double (round_double (of_int d_pkts) / dt) else 0);
             mbps = (if dt > 0 then round_double (round_double (of_int (d_bytes * 8)) / round_double (dt * 10 ^ 6)) else 0)
         in (st\<lparr>prev_pkts := AList.update idx pkts (prev_pkts st),
                prev_bytes := AList.update idx byt (prev_bytes st),
                last_active := (if d_pkts > 0 \<or> d_bytes > 0 then AList.update idx now (last_active st)
                                else last_active st)\<rparr>,
             AList.update idx (pkts, pkt_rate, mbps) stats)))"

definition visible_of :: "rat \<Rightarrow> monitor \<Rightarrow> (int, stat) dict \<Rightarrow> (int, stat) dict" where
  "visible_of now st stats =
     filter (\<lambda>(idx, v). now - dget (last_active st) idx (- (10 ^ 9)) < INACTIVITY_TIMEOUT) stats"

definition ckey_len_of :: "monitor \<Rightarrow> (string, (string, string) dict) dict" where
  "ckey_len_of st =
     foldl (\<lambda>m idx.
         let ck = dget (bucket_ckey st) idx ''''; dr = dget (bucket_dir st) idx ''dn'';
             ln = (case map_of (ctr_len st) idx of None \<Rightarrow> ''?'' | Some n \<Rightarrow> dec_nat n) in
         if ck \<noteq> '''' then AList.update ck (AList.update dr ln (dget m ck [])) m else m)
       [] (dkeys (ctr_dcid st))"

record conn =
  dn_pkt :: rat
  dn_mbps :: rat
  up_pkt :: rat
  up_mbps :: rat

definition zero_conn :: conn where
  "zero_conn = \<lparr>dn_pkt = 0, dn_mbps = 0, up_pkt = 0, up_mbps = 0\<rparr>"

type_synonym groups = "(string, conn) dict \<times> rat \<times> rat"

definition group_step :: "monitor \<Rightarrow> groups \<Rightarrow> int \<times> stat \<Rightarrow> groups" where
  "group_step st g v =
     (case (g, v) of ((conn_stats, pending_pkt, pending_mbps), (idx, pkts, rate, mbps)) \<Rightarrow>
        if idx \<notin> set (dkeys (ctr_dcid st)) then (conn_stats, float_add pending_pkt rate, float_add pending_mbps mbps)
        else
          (let ckey = dget (bucket_ckey st) idx ''''; dirn = dget (bucket_dir st) idx ''dn'';
               c = dget conn_stats ckey zero_conn;
               c' = (if dirn = ''dn'' then c\<lparr>dn_pkt := float_add (dn_pkt c) rate, dn_mbps := float_add (dn_mbps c) mbps\<rparr>
                     else c\<lparr>up_pkt := float_add (up_pkt c) rate, up_mbps := float_add (up_mbps c) mbps\<rparr>)
           in (AList.update ckey c' conn_stats, pending_pkt, pending_mbps)))"

definition group_conns :: "monitor \<Rightarrow> (int, stat) dict \<Rightarrow> groups" where
  "group_conns st visible = foldl (group_step st) ([], 0, 0) visible"

text \<open>What a poll shows: one line per client, the totals and the pending rates, or one of the two notices.\<close>

record conn_line =
  line_client :: string
  line_conn :: conn
  line_total :: rat
  line_cidlen :: string

datatype screen =
    Connections "conn_line list" conn "(rat \<times> rat) option"
  | AwaitingDigest nat
  | NoTraffic

definition cidlen_text :: "(string, (string, string) dict) dict \<Rightarrow> string \<Rightarrow> string" where
  "cidlen_text ckey_len ckey =
     (let lens = dget ckey_len ckey [] in dget lens ''up'' ''?'' @ ''/'' @ dget lens ''dn'' ''?'')"

definition add_conn :: "conn \<Rightarrow> conn \<Rightarrow> conn" where
  "add_conn a b =
     \<lparr>dn_pkt = float_add (dn_pkt a) (dn_pkt b), dn_mbps = float_add (dn_mbps a) (dn_mbps b),
      up_pkt = float_add (up_pkt a) (up_pkt b), up_mbps = float_add (up_mbps a) (up_mbps b)\<rparr>"

definition screen_of :: "monitor \<Rightarrow> (int, stat) dict \<Rightarrow> groups \<Rightarrow> screen" where
  "screen_of st visible g =
     (case g of (conn_stats, pending_pkt, pending_mbps) \<Rightarrow>
        if conn_stats \<noteq> [] then
          (let ckeys = sort_key (map (of_char :: char \<Rightarrow> nat)) (dkeys conn_stats);
               line = (\<lambda>ckey. let c = dget conn_stats ckey zero_conn in
                   \<lparr>line_client = (if ckey \<noteq> '''' then ckey else ''(unidentified)''), line_conn = c,
                    line_total = float_add (dn_mbps c) (up_mbps c), line_cidlen = cidlen_text (ckey_len_of st) ckey\<rparr>)
           in Connections (map line ckeys)
                (foldl (\<lambda>acc ckey. add_conn acc (dget conn_stats ckey zero_conn)) zero_conn ckeys)
                (if pending_pkt > 0 \<or> pending_mbps > 0 then Some (pending_pkt, pending_mbps) else None))
        else if visible \<noteq> [] then AwaitingDigest (length visible)
        else NoTraffic)"

text \<open>The printed lines; the header has the two arrows in UTF-8.\<close>

definition rate_cells :: "conn \<Rightarrow> rat \<Rightarrow> string" where
  "rate_cells c tot =
     pad_left 8 (fixed_signed 0 (dn_pkt c)) @ ''  '' @ pad_left 8 (fixed_signed 2 (dn_mbps c)) @ ''  '' @
     pad_left 8 (fixed_signed 0 (up_pkt c)) @ ''  '' @ pad_left 8 (fixed_signed 2 (up_mbps c)) @ ''  '' @
     pad_left 8 (fixed_signed 2 tot)"

definition header_line :: string where
  "header_line =
     (let dn = [CHR 0xE2, CHR 0x86, CHR 0x93]; up = [CHR 0xE2, CHR 0x86, CHR 0x91] in
      ''  '' @ pad_right 22 ''Client endpoint'' @ ''   '' @ dn @ '' pkt/s    '' @ dn @ '' Mbps   '' @ up @ '' pkt/s    '' @
      up @ '' Mbps  '' @ pad_left 8 ''Total'' @ ''  '' @ pad_left 7 ''CIDlen'')"

definition conn_text :: "conn_line \<Rightarrow> string" where
  "conn_text l =
     ''  '' @ pad_right 22 (line_client l) @ ''  '' @ rate_cells (line_conn l) (line_total l) @ ''  '' @
     pad_left 7 (line_cidlen l)"

definition total_text :: "conn \<Rightarrow> string" where
  "total_text tot =
     ''  '' @ pad_right 22 '''' @ ''  '' @ rate_cells tot (float_add (dn_mbps tot) (up_mbps tot)) @ ''  <-- total''"

definition screen_lines :: "string \<Rightarrow> screen \<Rightarrow> string list" where
  "screen_lines ts s =
     (case s of
        Connections ls tot pend \<Rightarrow>
          [[], ''['' @ ts @ '']  '' @ dec_nat (length ls) @ '' QUIC connection(s):'', header_line,
           ''  '' @ replicate 82 (CHR ''-'')] @
          map conn_text ls @
          [''  '' @ replicate 82 (CHR ''-''), total_text tot] @
          (case pend of
             None \<Rightarrow> []
           | Some (p, m) \<Rightarrow> [''  ('' @ fixed_signed 0 p @ '' pkt/s, '' @ fixed_signed 2 m @ '' Mbps pending digest)''])
      | AwaitingDigest n \<Rightarrow> [''['' @ ts @ '']  '' @ dec_nat n @ '' bucket(s) active, awaiting digest...'']
      | NoTraffic \<Rightarrow> [''['' @ ts @ '']  no active QUIC traffic''])"

text \<open>The rows of the optional log; \<open>round_to k\<close> is \<^verbatim>\<open>round(x, k)\<close>.\<close>

definition round_to :: "nat \<Rightarrow> rat \<Rightarrow> rat" where
  "round_to k x = round_double (of_int (round_even (x * 10 ^ k)) / 10 ^ k)"

record log_row =
  log_bucket :: string
  log_dcid :: string
  log_direction :: string
  log_client :: string
  log_pkts :: int
  log_rate :: rat
  log_mbps :: rat

definition log_row_of :: "monitor \<Rightarrow> (int, stat) dict \<Rightarrow> int \<Rightarrow> log_row" where
  "log_row_of st stats idx =
     (let (pkts, rate, mbps) = dget stats idx (0, 0, 0) in
      \<lparr>log_bucket = ''0x'' @ hex_pad 3 (nat idx), log_dcid = dget (ctr_dcid st) idx '''',
       log_direction = dget (bucket_dir st) idx '''', log_client = dget (bucket_ckey st) idx '''',
       log_pkts = pkts, log_rate = round_to 2 rate, log_mbps = round_to 4 mbps\<rparr>)"

definition log_rows :: "monitor \<Rightarrow> (int, stat) dict \<Rightarrow> (int, stat) dict \<Rightarrow> log_row list" where
  "log_rows st stats visible =
     map (\<lambda>(idx, v). log_row_of st stats idx) (filter (\<lambda>(idx, v). idx \<in> set (dkeys (ctr_dcid st))) visible)"

record poll_view =
  poll_stats :: "(int, stat) dict"
  poll_visible :: "(int, stat) dict"
  poll_groups :: groups
  poll_screen :: screen
  poll_log :: "log_row list"

definition poll :: "rat \<Rightarrow> entry list option result \<Rightarrow> monitor \<Rightarrow> monitor \<times> poll_view" where
  "poll now answer st =
     (let dt = round_double (now - prev_time st);
          (counts, f) = read_counter answer (mon_fields st);
          (st', stats) = foldl (stat_step now dt) (st\<lparr>prev_time := now, mon_fields := f\<rparr>, []) counts;
          visible = visible_of now st' stats;
          g = group_conns st' visible
      in (st', \<lparr>poll_stats = stats, poll_visible = visible, poll_groups = g,
                poll_screen = screen_of st' visible g, poll_log = log_rows st' stats visible\<rparr>))"

text \<open>
  \<^verbatim>\<open>poll_quic.py\<close>, which has no digest state: its warm-up, and one iteration at the time of day \<open>ts\<close> with the
  lines it prints.
\<close>

definition poll_warm_up :: "entry list result \<Rightarrow> rat \<Rightarrow> monitor \<Rightarrow> monitor result" where
  "poll_warm_up answer now st =
     mapE (\<lambda>(counts, f).
         foldl (\<lambda>s (idx, pkts, byt). s\<lparr>prev_pkts := AList.update idx pkts (prev_pkts s),
                                        prev_bytes := AList.update idx byt (prev_bytes s)\<rparr>)
           (st\<lparr>mon_fields := f, prev_time := now\<rparr>) counts)
       (poll_read_counter answer (mon_fields st))"

definition cell_text :: "int \<times> stat \<Rightarrow> string" where
  "cell_text v =
     (case v of (idx, pkts, rate, mbps) \<Rightarrow>
        ''  0x'' @ hex_pad 3 (nat idx) @ ''    '' @ pad_left 12 (dec_int pkts) @ ''  '' @
        pad_left 8 (fixed_signed 0 rate) @ ''  '' @ pad_left 8 (fixed_signed 2 mbps))"

definition bucket_lines :: "string \<Rightarrow> (int, stat) dict \<Rightarrow> string list" where
  "bucket_lines ts visible =
     (if visible \<noteq> [] then
        [[], ''['' @ ts @ '']  '' @ dec_nat (length visible) @ '' active QUIC bucket(s):'',
         ''  '' @ pad_right 7 ''bucket'' @ ''  '' @ pad_left 12 ''total-pkts'' @ ''  '' @ pad_left 8 ''pkt/s'' @ ''  '' @ pad_left 8 ''Mbps'',
         ''  '' @ replicate 40 (CHR ''-'')] @
        map cell_text (sort_key fst visible)
      else [''['' @ ts @ '']  no active QUIC traffic''])"

definition poll_quic :: "string \<Rightarrow> rat \<Rightarrow> entry list result \<Rightarrow> monitor \<Rightarrow> (monitor \<times> string list) result" where
  "poll_quic ts now answer st =
     (let dt = round_double (now - prev_time st) in
      bindE (poll_read_counter answer (mon_fields st)) (\<lambda>(counts, f).
        let (st', stats) = foldl (stat_step now dt) (st\<lparr>prev_time := now, mon_fields := f\<rparr>, []) counts
        in Inr (st', bucket_lines ts (visible_of now st' stats))))"

section \<open>Decoding of digests\<close>

text \<open>
  The fields of the digest have the widths of \<^verbatim>\<open>quic_digest_t\<close>; \<open>digest_dict\<close> is the dictionary the
  runtime hands to a callback.
\<close>

definition digest_dict :: "quic_digest \<Rightarrow> digest_msg" where
  "digest_dict d =
     [(''ip_src'', DInt (unat (ip_src d))), (''ip_dst'', DInt (unat (ip_dst d))),
      (''udp_src_port'', DInt (unat (udp_src_port d))), (''udp_dst_port'', DInt (unat (udp_dst_port d))),
      (''first_byte'', DInt (unat (dig_first_byte d))), (''dcid_len'', DInt (unat (dig_dcid_len d))),
      (''version'', DInt (unat (dig_version d))), (''dcid'', DInt (unat (dig_dcid d)))]"

definition QUIC_VERSIONS :: "(nat, string) dict" where
  "QUIC_VERSIONS =
     [(0x00000001, ''QUICv1  (RFC 9000)''), (0x6b3343cf, ''QUICv2  (RFC 9369)''), (0xff000020, ''draft-32''),
      (0xff000023, ''draft-35''), (0x00000000, ''Version Negotiation'')]"

definition LONG_PKT_TYPES :: "(nat, string) dict" where
  "LONG_PKT_TYPES = [(0, ''Initial''), (1, ''0-RTT''), (2, ''Handshake''), (3, ''Retry'')]"

definition truncate_dcid :: "nat \<Rightarrow> nat \<Rightarrow> string" where
  "truncate_dcid dcid_int dcid_length = take (dcid_length * 2) (hex_pad 40 dcid_int)"

text \<open>The line printed for a digest, by its columns.\<close>

record shown_common =
  shown_src :: string
  shown_dst :: string
  shown_fixed :: string
  shown_len :: nat
  shown_pn_len :: nat
  shown_dcid :: string

datatype shown = ShownLong string string shown_common | ShownShort nat nat shown_common

definition display_digest :: "quic_digest \<Rightarrow> shown" where
  "display_digest d =
     (let first_b = unat (dig_first_byte d); len = unat (dig_dcid_len d); ver = unat (dig_version d);
          common =
            \<lparr>shown_src = fmt_ip (unat (ip_src d)) @ '':'' @ dec_nat (unat (udp_src_port d)),
             shown_dst = fmt_ip (unat (ip_dst d)) @ '':'' @ dec_nat (unat (udp_dst_port d)),
             shown_fixed = (if drop_bit 6 first_b AND 1 \<noteq> 0 then ''ok'' else ''BAD''),
             shown_len = len, shown_pn_len = (first_b AND 3) + 1,
             shown_dcid = truncate_dcid (unat (dig_dcid d)) len\<rparr>
      in if first_b AND 0x80 \<noteq> 0
         then ShownLong (dget LONG_PKT_TYPES (drop_bit 4 first_b AND 3) ''Unknown'')
                (dget QUIC_VERSIONS ver (''0x'' @ hex_pad 8 ver)) common
         else ShownShort (drop_bit 5 first_b AND 1) (drop_bit 2 first_b AND 1) common)"

section \<open>Hexadecimal fields\<close>

lemma hex_pad_0: "0 < w \<Longrightarrow> hex_pad w 0 = replicate w (CHR ''0'')"
proof -
  assume "0 < w"
  then obtain v where "w = Suc v" by (cases w) auto
  moreover have "hex_digit 0 = CHR ''0''" by (simp add: hex_digit_def char_of_def bit_0)
  ultimately show ?thesis by (simp add: hex_pad_def hex_nat.simps [of 0] replicate_append_same)
qed

lemma length_hex_nat: "n < 16 ^ w \<Longrightarrow> 0 < w \<Longrightarrow> length (hex_nat n) \<le> w"
proof (induction n arbitrary: w rule: hex_nat.induct)
  case (1 n)
  show ?case
  proof (cases "n < 16")
    case False
    then obtain v where w: "w = Suc v" "0 < v" using "1.prems" by (cases w; cases "w - 1") auto
    then have "n div 16 < 16 ^ v" using "1.prems" by (simp add: less_mult_imp_div_less mult.commute)
    with "1.IH" [OF False, of v] w False show ?thesis by (simp add: hex_nat.simps [of n])
  qed (use "1.prems" in \<open>simp add: hex_nat.simps [of n]\<close>)
qed

lemma hex_pad_snoc:
  assumes "0 < w"
  shows "hex_pad (Suc w) n = hex_pad w (n div 16) @ [hex_digit (n mod 16)]"
proof (cases "n < 16")
  case True
  then have "hex_pad (Suc w) n = replicate w (CHR ''0'') @ [hex_digit n]"
    by (simp add: hex_pad_def hex_nat.simps [of n])
  with True assms show ?thesis by (simp add: hex_pad_0)
qed (simp add: hex_pad_def hex_nat.simps [of n])

lemma be_nat_snoc: "be_nat (bs @ [b]) = 256 * be_nat bs + unat b"
  by (simp add: be_nat_def)

lemma hex_pad_bytes: "bs \<noteq> [] \<Longrightarrow> hex_pad (2 * length bs) (be_nat bs) = hex bs"
proof (induction bs rule: rev_induct)
  case (snoc b bs)
  let ?n = "256 * be_nat bs + unat b"
  have b: "unat b < 256" by (rule unat_byte_less)
  have d: "?n div 16 = 16 * be_nat bs + unat b div 16" "?n mod 16 = unat b mod 16"
    "?n div 16 div 16 = be_nat bs" "?n div 16 mod 16 = unat b div 16"
  proof -
    have "?n = 16 * (16 * be_nat bs + unat b div 16) + unat b mod 16" by simp
    moreover have "unat b div 16 < 16" using b by (simp add: less_mult_imp_div_less)
    ultimately show "?n div 16 = 16 * be_nat bs + unat b div 16" "?n mod 16 = unat b mod 16"
      "?n div 16 div 16 = be_nat bs" "?n div 16 mod 16 = unat b div 16"
      by (simp_all only: div_mult_self4 mod_mult_self4 div_less mod_less pos_mod_bound zero_less_numeral add_0_right mod_div_trivial mod_mod_trivial numeral_neq_zero not_False_eq_True)
  qed
  have h: "hex (bs @ [b]) = hex bs @ [hex_digit (unat b div 16), hex_digit (unat b mod 16)]"
    by (simp add: hex_def hex_byte_def)
  show ?case
  proof (cases "bs = []")
    case True
    have "hex_pad 2 (unat b) = [hex_digit (unat b div 16), hex_digit (unat b mod 16)]"
      using hex_pad_snoc [of 1 "unat b"] b
      by (simp add: numeral_2_eq_2 hex_pad_def hex_nat.simps [of "unat b div 16"] less_mult_imp_div_less)
    with True h show ?thesis by (simp add: be_nat_def)
  next
    case False
    then have "hex_pad (2 * length (bs @ [b])) ?n = (hex_pad (2 * length bs) (be_nat bs) @ [hex_digit (unat b div 16)]) @ [hex_digit (unat b mod 16)]"
      using hex_pad_snoc [of "Suc (2 * length bs)" ?n] hex_pad_snoc [of "2 * length bs" "?n div 16"] d by simp
    with snoc False h show ?thesis by (simp add: be_nat_snoc)
  qed
qed simp

lemma be_nat_less: "be_nat bs < 2 ^ (8 * length bs)"
proof (induction bs rule: rev_induct)
  case (snoc c cs)
  have "256 * be_nat cs + unat c < 256 * (be_nat cs + 1)" using unat_byte_less [of c] by simp
  also have "\<dots> \<le> 256 * 2 ^ (8 * length cs)" using snoc by (simp add: Suc_leI)
  finally show ?case by (simp add: be_nat_snoc power_add)
qed (simp add: be_nat_def)

lemma unat_be_word:
  "8 * length bs \<le> LENGTH('a) \<Longrightarrow> unat (be_word bs :: 'a::len word) = be_nat bs"
proof (induction bs rule: rev_induct)
  case (snoc b bs)
  have "unat (push_bit 8 (be_word bs) OR ucast b :: 'a word) = unat (push_bit 8 (be_word bs :: 'a word) + ucast b)"
    by (subst disjunctive_add_eq_or [symmetric]) (auto simp: bit_eq_iff bit_simps dest: bit_imp_le_length)
  moreover have "be_nat bs * 256 + unat b < 2 ^ LENGTH('a)"
  proof -
    have "be_nat bs * 256 + unat b < 2 ^ (8 * length (bs @ [b]))"
      using be_nat_less [of "bs @ [b]"] by (simp add: be_nat_snoc mult.commute)
    also have "\<dots> \<le> 2 ^ LENGTH('a)" using snoc.prems by (intro power_increasing) simp_all
    finally show ?thesis .
  qed
  moreover have "unat (be_word bs :: 'a word) = be_nat bs" using snoc by simp
  moreover have "unat (ucast b :: 'a word) = unat b"
  proof -
    have "unat b < 2 ^ LENGTH('a)" using calculation(2) by linarith
    then show ?thesis by (simp add: unsigned_ucast_eq take_bit_nat_eq_self)
  qed
  ultimately show ?case
    by (simp add: be_word_snoc be_nat_snoc unat_word_ariths push_bit_eq_mult mult.commute take_bit_eq_mod mod_simps)
qed (simp add: be_nat_def)

lemma hex_field:
  fixes w :: "160 word"
  assumes "L \<le> 20"
  shows "take (L * 2) (hex_pad 40 (unat w)) = hex (take L (be_bytes 20 w))"
proof -
  have "unat w = be_nat (be_bytes 20 w)"
    using unat_be_word [of "be_bytes 20 w", where 'a = 160] be_word_be_bytes [of 20 w] by simp
  moreover have "hex_pad (2 * length (be_bytes 20 w)) (be_nat (be_bytes 20 w)) = hex (be_bytes 20 w)"
    by (rule hex_pad_bytes) (simp flip: length_0_conv)
  ultimately have "hex_pad 40 (unat w) = hex (be_bytes 20 w)" by simp
  moreover have "take (k * 2) (hex bs) = hex (take k bs)" for k bs
  proof (induction bs arbitrary: k)
    case (Cons b bs)
    then show ?case by (cases k) (auto simp: hex_Cons hex_def [of "[]"])
  qed (simp add: hex_def)
  ultimately show ?thesis by simp
qed

section \<open>Digests of the switch\<close>

lemma dispatch_dcid_len:
  "parse_quic_dispatch (hdr, meta, pkt) = Some (hdr', meta', rest) \<Longrightarrow> quic_long hdr = None \<Longrightarrow> quic_short hdr = None \<Longrightarrow>
   (\<forall>h. quic_long hdr' = Some h \<longrightarrow> dcid_len meta' = long_dcid_len h) \<and>
   (\<forall>h. quic_short hdr' = Some h \<longrightarrow> dcid_len meta' = 20)"
  by (auto simp: parse_quic_dispatch_def parse_quic_long_def parse_quic_short_def Let_def
      extract_bytes_def split: list.splits if_splits)

lemma parser_dcid_len:
  assumes "IngressParser pkt = Some (hdr, meta, rest)"
  shows "quic_long hdr = Some h \<Longrightarrow> dcid_len meta = long_dcid_len h"
    and "quic_short hdr = Some k \<Longrightarrow> dcid_len meta = 20"
  using assms
  by (auto simp: IngressParser_def parse_ethernet_def parse_ipv4_def parse_udp_def parse_udp_src_def Let_def
      init_headers_def split: option.splits if_splits dest!: dispatch_dcid_len)

lemma Ingress_digest_meta:
  "dcid_len (out_meta (fst (Ingress hs n port hdr meta sw))) = dcid_len meta"
  "dcid (out_meta (fst (Ingress hs n port hdr meta sw))) = dcid (copy_fields hdr meta)"
  by (auto simp: Ingress_def Let_def copy_fields_def split: prod.split option.split)

lemma pipe_digest_fields:
  assumes "IngressParser (frame p) = Some (hdr, meta, rest)" "fst (pipe hs p sw) = Some out" "digest out = Some dg"
  shows "dig_dcid_len dg = dcid_len meta" "dig_dcid dg = dcid (copy_fields hdr meta)"
proof -
  have "digest out = fst (IngressDeparser hdr (fst (Ingress hs (wire_len p) (in_port p) hdr meta sw)))"
    using assms(1,2) by (auto simp: pipe_def split: prod.splits)
  with assms(3) have "dg = pack_digest hdr (out_meta (fst (Ingress hs (wire_len p) (in_port p) hdr meta sw)))"
    by (simp add: IngressDeparser_def split: if_splits)
  then show "dig_dcid_len dg = dcid_len meta" "dig_dcid dg = dcid (copy_fields hdr meta)"
    by (simp_all add: pack_digest_def Ingress_digest_meta)
qed

lemma view_digest:
  assumes "IngressParser (frame p) = Some (hdr, meta, rest)" "quic_view hdr = Some v" "fst (pipe hs p sw) = Some out"
  shows "bucket_id out = view_bucket hs sw v"
  using assms by (intro pipe_bucket) (simp_all add: packet_view_def)

definition client_of :: "quic_digest \<Rightarrow> string" where
  "client_of dg =
     (if udp_src_port dg = 443 then fmt_ip (unat (ip_dst dg)) @ '':'' @ dec_nat (unat (udp_dst_port dg))
      else fmt_ip (unat (ip_src dg)) @ '':'' @ dec_nat (unat (udp_src_port dg)))"

text \<open>What the callback records of one digest whose length is legal.\<close>

lemma record_digest:
  assumes "0 < dig_dcid_len dg" "dig_dcid_len dg \<le> 20"
  defines "cid \<equiv> take (unat (dig_dcid_len dg)) (be_bytes 20 (dig_dcid dg))"
    and "b \<equiv> int (bucket (take (unat (dig_dcid_len dg)) (be_bytes 20 (dig_dcid dg))))"
  shows "on_quic_digest [digest_dict dg] st =
    st\<lparr>bucket_dcid := AList.update b (hex cid) (bucket_dcid st),
       ctr_dcid := AList.update (b AND 0x3FF) (hex cid) (ctr_dcid st),
       ctr_len := AList.update (b AND 0x3FF) (unat (dig_dcid_len dg)) (ctr_len st),
       bucket_dir := AList.update (b AND 0x3FF) (if udp_src_port dg = 443 then ''dn'' else ''up'') (bucket_dir st),
       bucket_ckey := AList.update (b AND 0x3FF) (client_of dg) (bucket_ckey st)\<rparr>"
proof -
  have L: "unat (dig_dcid_len dg) \<le> 20" "unat (dig_dcid_len dg) \<noteq> 0"
    using assms(1,2) by (auto simp: word_le_nat_alt word_less_nat_alt)
  have hx: "take (unat (dig_dcid_len dg) * 2) (hex_pad 40 (unat (dig_dcid dg))) = hex cid"
    unfolding cid_def by (rule hex_field [OF L(1)])
  have len: "length cid \<le> 20" by (simp add: cid_def)
  have b: "int (unat (crc32 (ljust cid 20)) AND 0x1FFFF) = b"
    using pad20_ljust [OF len] by (simp add: b_def bucket_eq and_mask17 flip: cid_def)
  have p: "unat (udp_src_port dg) = 443 \<longleftrightarrow> udp_src_port dg = 443" by (simp add: word_unat_eq_iff)
  have lk: "dlookup (digest_dict dg) ''dcid'' = Inr (DInt (unat (dig_dcid dg)))"
    "dlookup (digest_dict dg) ''dcid_len'' = Inr (DInt (unat (dig_dcid_len dg)))"
    by (simp_all add: dlookup_def digest_dict_def)
  show ?thesis
    using L(2) by (simp add: digest_step_def lk hx b Let_def endpoint_of_def digest_dict_def client_of_def p)
qed

section \<open>What a poll computes\<close>

definition prev_cell :: "monitor \<Rightarrow> int \<Rightarrow> int \<times> int" where
  "prev_cell st i = (dget (prev_pkts st) i 0, dget (prev_bytes st) i 0)"

definition grown :: "monitor \<Rightarrow> int \<Rightarrow> int \<times> int \<Rightarrow> bool" where
  "grown st i c \<longleftrightarrow> fst (prev_cell st i) < fst c \<or> snd (prev_cell st i) < snd c"

definition rates :: "rat \<Rightarrow> monitor \<Rightarrow> int \<Rightarrow> int \<times> int \<Rightarrow> stat" where
  "rates dt st i c =
     (fst c, if dt > 0 then round_double (round_double (of_int (fst c - fst (prev_cell st i))) / dt) else 0,
      if dt > 0 then round_double (round_double (of_int ((snd c - snd (prev_cell st i)) * 8)) / round_double (dt * 10 ^ 6))
      else 0)"

lemma stat_step_simps:
  assumes "stat_step now dt (st, stats) (k, c) = (st', stats')"
  shows "prev_cell st' i = (if i = k then c else prev_cell st i)"
    and "map_of (last_active st') i = (if i = k \<and> grown st k c then Some now else map_of (last_active st) i)"
    and "map_of stats' i = (if i = k then Some (rates dt st k c) else map_of stats i)"
    and "dict_ok stats \<Longrightarrow> dict_ok stats'"
  using assms
  by (cases c; auto simp: stat_step_def Let_def prev_cell_def grown_def rates_def map_of_update dget_def)+

lemma stat_step_keeps:
  assumes "stat_step now dt (st, stats) c = (st', stats')"
  shows "bucket_dcid st' = bucket_dcid st" "ctr_dcid st' = ctr_dcid st" "ctr_len st' = ctr_len st"
    "bucket_dir st' = bucket_dir st" "bucket_ckey st' = bucket_ckey st" "prev_time st' = prev_time st"
    "mon_fields st' = mon_fields st"
  using assms by (cases c; auto simp: stat_step_def Let_def)+

lemma fold_stat:
  assumes "foldl (stat_step now dt) (st, stats) counts = (st', stats')" "dict_ok counts"
  shows "prev_cell st' i = (case map_of counts i of None \<Rightarrow> prev_cell st i | Some c \<Rightarrow> c)
    \<and> map_of (last_active st') i =
        (case map_of counts i of None \<Rightarrow> map_of (last_active st) i
         | Some c \<Rightarrow> if grown st i c then Some now else map_of (last_active st) i)
    \<and> map_of stats' i = (case map_of counts i of None \<Rightarrow> map_of stats i | Some c \<Rightarrow> Some (rates dt st i c))
    \<and> (dict_ok stats \<longrightarrow> dict_ok stats')"
  using assms
proof (induction counts arbitrary: st stats)
  case (Cons kc counts)
  obtain k c where kc: "kc = (k, c)" by (cases kc)
  obtain st1 stats1 where s1: "stat_step now dt (st, stats) (k, c) = (st1, stats1)" by fastforce
  have f: "foldl (stat_step now dt) (st1, stats1) counts = (st', stats')" and ok: "dict_ok counts"
    and nk: "map_of counts k = None"
    using Cons.prems kc s1 by (auto simp: dict_ok_def map_of_eq_None_iff)
  have g: "grown st1 i c' = grown st i c'" "rates dt st1 i c' = rates dt st i c'" if "i \<noteq> k" for c'
    using that stat_step_simps(1) [OF s1, of i] by (simp_all add: grown_def rates_def)
  show ?case
    using Cons.IH [OF f ok] stat_step_simps [OF s1] nk g kc by (auto split: option.split)
qed simp

lemma fold_stat_keeps:
  assumes "foldl (stat_step now dt) (st, stats) counts = (st', stats')"
  shows "bucket_dcid st' = bucket_dcid st \<and> ctr_dcid st' = ctr_dcid st \<and> ctr_len st' = ctr_len st
    \<and> bucket_dir st' = bucket_dir st \<and> bucket_ckey st' = bucket_ckey st \<and> prev_time st' = prev_time st
    \<and> mon_fields st' = mon_fields st"
  using assms
proof (induction counts arbitrary: st stats)
  case (Cons c counts)
  obtain st1 stats1 where s1: "stat_step now dt (st, stats) c = (st1, stats1)" by fastforce
  show ?case using Cons.IH [of st1 stats1] Cons.prems stat_step_keeps [OF s1] s1 by simp
qed simp

lemma read_entry_ok: "dict_ok (fst st) \<Longrightarrow> dict_ok (fst (read_entry st idx data))"
  by (auto simp: read_entry_def Let_def split: prod.split)

lemma read_counter_ok: "dict_ok (fst (read_counter answer f))"
proof -
  have "dict_ok (fst st) \<Longrightarrow> dict_ok (fst (foldl (\<lambda>st e. case map_of (ent_key e) CTR_INDEX of None \<Rightarrow> st
      | Some idx \<Rightarrow> read_entry st idx (ent_data e)) st entries))" for st :: read_state and entries :: "entry list"
    by (induction entries arbitrary: st) (auto simp: read_entry_ok split: option.split)
  then show ?thesis by (auto simp: read_counter_def dict_ok_def split: sum.split option.split)
qed

text \<open>A poll in one statement: \<open>counted\<close> is what the read returned.\<close>

definition counted :: "entry list option result \<Rightarrow> monitor \<Rightarrow> int \<Rightarrow> (int \<times> int) option" where
  "counted answer st = map_of (fst (read_counter answer (mon_fields st)))"

lemma poll_state:
  assumes "poll now answer st = (st', v)"
  shows "prev_cell st' i = (case counted answer st i of None \<Rightarrow> prev_cell st i | Some c \<Rightarrow> c)"
    and "map_of (last_active st') i =
      (case counted answer st i of Some c \<Rightarrow> if grown st i c then Some now else map_of (last_active st) i
       | None \<Rightarrow> map_of (last_active st) i)"
    and "map_of (poll_stats v) i = map_option (rates (round_double (now - prev_time st)) st i) (counted answer st i)"
    and "dict_ok (poll_stats v)" "prev_time st' = now"
    and "bucket_dcid st' = bucket_dcid st" "ctr_dcid st' = ctr_dcid st" "ctr_len st' = ctr_len st"
    and "bucket_dir st' = bucket_dir st" "bucket_ckey st' = bucket_ckey st"
    and "poll_visible v = visible_of now st' (poll_stats v)"
    and "poll_groups v = group_conns st' (poll_visible v)"
    and "poll_screen v = screen_of st' (poll_visible v) (poll_groups v)"
proof -
  obtain counts f where rc: "read_counter answer (mon_fields st) = (counts, f)"
    by (cases "read_counter answer (mon_fields st)")
  obtain st1 stats where fs: "foldl (stat_step now (round_double (now - prev_time st))) (st\<lparr>prev_time := now, mon_fields := f\<rparr>, []) counts = (st1, stats)"
    by fastforce
  have ok: "dict_ok counts" using read_counter_ok [of answer "mon_fields st"] by (simp add: rc)
  have same: "prev_cell (st\<lparr>prev_time := now, mon_fields := f\<rparr>) i = prev_cell st i"
    "grown (st\<lparr>prev_time := now, mon_fields := f\<rparr>) i c = grown st i c"
    "rates dt (st\<lparr>prev_time := now, mon_fields := f\<rparr>) i c = rates dt st i c" for i c dt
    by (simp_all add: prev_cell_def grown_def rates_def)
  have v: "st' = st1" "poll_stats v = stats" "poll_visible v = visible_of now st1 stats"
    "poll_groups v = group_conns st1 (poll_visible v)" "poll_screen v = screen_of st1 (poll_visible v) (poll_groups v)"
    using assms by (auto simp: poll_def rc fs Let_def)
  have c: "counted answer st = map_of counts" by (simp add: counted_def rc)
  note F = fold_stat [OF fs ok, of i] fold_stat_keeps [OF fs]
  show "prev_cell st' i = (case counted answer st i of None \<Rightarrow> prev_cell st i | Some c \<Rightarrow> c)"
    and "map_of (last_active st') i =
      (case counted answer st i of Some c \<Rightarrow> if grown st i c then Some now else map_of (last_active st) i
       | None \<Rightarrow> map_of (last_active st) i)"
    and "map_of (poll_stats v) i = map_option (rates (round_double (now - prev_time st)) st i) (counted answer st i)"
    using F by (auto simp: v c same split: option.split)
  show "dict_ok (poll_stats v)" "prev_time st' = now" "bucket_dcid st' = bucket_dcid st" "ctr_dcid st' = ctr_dcid st"
    "ctr_len st' = ctr_len st" "bucket_dir st' = bucket_dir st" "bucket_ckey st' = bucket_ckey st"
    using F by (auto simp: v dict_ok_def)
  show "poll_visible v = visible_of now st' (poll_stats v)" "poll_groups v = group_conns st' (poll_visible v)"
    "poll_screen v = screen_of st' (poll_visible v) (poll_groups v)"
    using v by simp_all
qed

section \<open>Runs of polls\<close>

type_synonym tick = "rat \<times> entry list option result"

fun polls :: "tick list \<Rightarrow> monitor \<Rightarrow> monitor \<times> poll_view list" where
  "polls [] st = (st, [])"
| "polls ((now, answer) # ticks) st =
     (let (st1, v) = poll now answer st; (st2, vs) = polls ticks st1 in (st2, v # vs))"

fun clock_ok :: "rat \<Rightarrow> tick list \<Rightarrow> bool" where
  "clock_ok t0 [] \<longleftrightarrow> True"
| "clock_ok t0 ((now, answer) # ticks) \<longleftrightarrow> t0 < now \<and> clock_ok now ticks"

text \<open>The packets that the computed rates stand for: rate times interval, summed over the polls.\<close>

fun rated :: "int \<Rightarrow> rat \<Rightarrow> tick list \<Rightarrow> poll_view list \<Rightarrow> rat" where
  "rated i t0 ((now, _) # ticks) (v # vs) =
     (case map_of (poll_stats v) i of None \<Rightarrow> 0 | Some (_, rate, _) \<Rightarrow> rate * (now - t0)) + rated i now ticks vs"
| "rated i t0 _ _ = 0"

text \<open>
  The packet count of a cell that the monitor holds at the start and after each poll, and the
  sum of the sizes of the steps of such a sequence: for a counter that only grows, the whole change.
\<close>

fun held :: "int \<Rightarrow> tick list \<Rightarrow> monitor \<Rightarrow> int list" where
  "held i [] st = [fst (prev_cell st i)]"
| "held i ((now, answer) # ticks) st = fst (prev_cell st i) # held i ticks (fst (poll now answer st))"

fun variation :: "int list \<Rightarrow> int" where
  "variation (x # y # xs) = \<bar>y - x\<bar> + variation (y # xs)"
| "variation _ = 0"

lemma variation_sorted: "xs \<noteq> [] \<Longrightarrow> sorted xs \<Longrightarrow> variation xs = last xs - hd xs"
  by (induction xs rule: variation.induct) auto

lemma held_Cons: "\<exists>ns. held i ticks st = fst (prev_cell st i) # ns"
  by (cases ticks) auto

text \<open>The polls at which a counter cell had grown.\<close>

fun growth_times :: "int \<Rightarrow> tick list \<Rightarrow> monitor \<Rightarrow> rat list" where
  "growth_times i [] st = []"
| "growth_times i ((now, answer) # ticks) st =
     (case counted answer st i of Some c \<Rightarrow> if grown st i c then [now] else [] | None \<Rightarrow> []) @
     growth_times i ticks (fst (poll now answer st))"

lemma polls_Cons:
  "polls ((now, answer) # ticks) st =
     (fst (polls ticks (fst (poll now answer st))), snd (poll now answer st) # snd (polls ticks (fst (poll now answer st))))"
  by (simp split: prod.split)

text \<open>
  C19. The rates account for every packet. Over any number of polls, with any answers of
  the runtime (failed reads included) as long as the clock advances, the packet rates of a counter cell, which are
  doubles computed with rounded conversions, differences and divisions, times the
  poll intervals add up to the change of the cell that the monitor has seen, within a \<open>2^-50\<close> part of the
  variation of the count, which for a counter that only grows is the change itself: nothing is shown
  twice and nothing is lost between polls.
\<close>

theorem rates_telescope:
  assumes "clock_ok (prev_time st) ticks" "polls ticks st = (st', vs)"
  shows "\<bar>rated i (prev_time st) ticks vs - of_int (fst (prev_cell st' i) - fst (prev_cell st i))\<bar>
       \<le> of_int (variation (held i ticks st)) / 2 ^ 50
    \<and> (sorted (held i ticks st) \<longrightarrow> variation (held i ticks st) = fst (prev_cell st' i) - fst (prev_cell st i))"
proof -
  have "last (held i ticks st) = fst (prev_cell st' i) \<and>
    \<bar>rated i (prev_time st) ticks vs - of_int (fst (prev_cell st' i) - fst (prev_cell st i))\<bar>
       \<le> of_int (variation (held i ticks st)) / 2 ^ 50"
    using assms
  proof (induction ticks arbitrary: st vs)
    case (Cons tick ticks)
    obtain now answer where tick: "tick = (now, answer)" by (cases tick)
    obtain st1 v where p: "poll now answer st = (st1, v)" by fastforce
    obtain vs1 where q: "polls ticks st1 = (st', vs1)" "vs = v # vs1"
      using Cons.prems(2) by (cases "polls ticks st1") (simp add: tick p)
    note P = poll_state [OF p]
    have dt: "0 < now - prev_time st" and ck: "clock_ok (prev_time st1) ticks"
      using Cons.prems(1) P(5) by (simp_all add: tick)
    let ?d = "fst (prev_cell st1 i) - fst (prev_cell st i)"
    let ?r = "case map_of (poll_stats v) i of None \<Rightarrow> 0 | Some (_, rate, _) \<Rightarrow> rate * (now - prev_time st)"
    have step: "\<bar>?r - of_int ?d\<bar> \<le> of_int \<bar>?d\<bar> / 2 ^ 50"
    proof (cases "counted answer st i")
      case (Some c)
      then show ?thesis
        using float_rate_error [OF dt, of "of_int ?d"] round_double_pos [OF dt] by (simp add: P(1,3) rates_def)
    qed (simp add: P(1,3))
    obtain ns where ns: "held i ticks st1 = fst (prev_cell st1 i) # ns" using held_Cons by blast
    then have "variation (held i (tick # ticks) st) = \<bar>?d\<bar> + variation (held i ticks st1)" by (simp add: tick p)
    moreover have "of_int (\<bar>?d\<bar> + x) / 2 ^ 50 = of_int \<bar>?d\<bar> / 2 ^ 50 + (of_int x :: rat) / 2 ^ 50" for x
      by (simp add: add_divide_distrib)
    ultimately have var: "of_int (variation (held i (tick # ticks) st)) / 2 ^ 50 =
        of_int \<bar>?d\<bar> / 2 ^ 50 + (of_int (variation (held i ticks st1)) :: rat) / 2 ^ 50" by metis
    have "rated i (prev_time st) (tick # ticks) vs = ?r + rated i (prev_time st1) ticks vs1"
      by (simp add: tick q(2) P(5))
    moreover have "last (held i (tick # ticks) st) = last (held i ticks st1)" by (simp add: tick p ns)
    moreover have "(of_int (fst (prev_cell st' i) - fst (prev_cell st i)) :: rat) =
        of_int ?d + of_int (fst (prev_cell st' i) - fst (prev_cell st1 i))" by simp
    ultimately show ?case
      using Cons.IH [OF ck q(1)] step unfolding var by linarith
  qed simp
  then show ?thesis
    using variation_sorted [of "held i ticks st"] held_Cons [of i ticks st] by auto
qed

lemma last_active_growth:
  "map_of (last_active (fst (polls ticks st))) i =
     (if growth_times i ticks st = [] then map_of (last_active st) i else Some (last (growth_times i ticks st)))"
proof (induction ticks arbitrary: st)
  case (Cons tick ticks)
  obtain now answer where tick: "tick = (now, answer)" by (cases tick)
  obtain st1 v where p: "poll now answer st = (st1, v)" by fastforce
  show ?case
    using Cons.IH [of st1] poll_state(2) [OF p, of i]
    by (auto simp: tick polls_Cons p simp del: polls.simps split: option.split)
qed simp

lemma growth_times_sorted:
  "clock_ok t0 ticks \<Longrightarrow> sorted (growth_times i ticks st) \<and> (\<forall>t \<in> set (growth_times i ticks st). t0 < t)"
proof (induction ticks arbitrary: t0 st)
  case (Cons tick ticks)
  obtain now answer where tick: "tick = (now, answer)" by (cases tick)
  have "clock_ok now ticks" "t0 < now" using Cons.prems by (simp_all add: tick)
  with Cons.IH [of now "fst (poll now answer st)"] show ?case
    by (auto simp: tick less_imp_le split: option.split intro: less_trans)
qed simp

lemma sorted_last_max: "sorted xs \<Longrightarrow> x \<in> set xs \<Longrightarrow> x \<le> last xs"
  by (induction xs) (auto dest: last_in_set)

lemma poll_visible_iff:
  assumes "poll now answer st = (st', v)"
  shows "i \<in> fst ` set (poll_visible v) \<longleftrightarrow>
    counted answer st i \<noteq> None \<and> now - dget (last_active st') i (- (10 ^ 9)) < INACTIVITY_TIMEOUT"
proof -
  have "i \<in> fst ` set (poll_stats v) \<longleftrightarrow> counted answer st i \<noteq> None"
    using poll_state(3) [OF assms, of i] map_of_eq_None_iff [of "poll_stats v" i] by auto
  then show ?thesis unfolding poll_state(11) [OF assms] visible_of_def by force
qed

text \<open>
  C20. Idle buckets are hidden and active ones are shown. In any run of polls of a monitor that has
  just started, under an advancing clock, a bucket is on the last screen exactly when its counter was read
  and had grown at some poll less than ten seconds before: every bucket that
  carries traffic appears at the next poll, and one that stops disappears.
\<close>

theorem visible_iff_recent_growth:
  assumes "clock_ok t0 (ticks @ [(now, answer)])" "0 \<le> t0" "last_active st = []" "prev_time st = t0"
    and "st1 = fst (polls ticks st)" "(st2, v) = poll now answer st1"
  shows "i \<in> fst ` set (poll_visible v) \<longleftrightarrow>
    counted answer st1 i \<noteq> None \<and> (\<exists>t \<in> set (growth_times i (ticks @ [(now, answer)]) st). now - t < 10)"
proof -
  let ?g = "growth_times i (ticks @ [(now, answer)]) st"
  have app: "polls (xs @ ys) s = (fst (polls ys (fst (polls xs s))), snd (polls xs s) @ snd (polls ys (fst (polls xs s))))" for xs ys s
    by (induction xs arbitrary: s) (auto simp: polls_Cons simp del: polls.simps(2))
  have "st2 = fst (polls (ticks @ [(now, answer)]) st)"
    using assms(5,6) by (simp add: app polls_Cons del: polls.simps(2)) (metis fst_conv)
  then have la: "map_of (last_active st2) i = (if ?g = [] then None else Some (last ?g))"
    using last_active_growth [of "ticks @ [(now, answer)]" st i] assms(3) by simp
  have srt: "sorted ?g" using growth_times_sorted [OF assms(1)] by blast
  have "0 < now" using assms(1,2)
    by (induction ticks arbitrary: t0) (auto intro: less_imp_le order_le_less_trans)
  then have "now - dget (last_active st2) i (- (10 ^ 9)) < 10 \<longleftrightarrow> (\<exists>t \<in> set ?g. now - t < 10)"
    using la sorted_last_max [OF srt] last_in_set [of ?g] by (force simp: dget_def)
  then show ?thesis
    using poll_visible_iff [OF assms(6) [symmetric], of i] by (simp add: INACTIVITY_TIMEOUT_def)
qed

section \<open>Grouping by client\<close>

text \<open>The cells of a client in one direction, and those without a digest, in the order of the counter read.\<close>

definition known :: "monitor \<Rightarrow> int \<times> stat \<Rightarrow> bool" where
  "known st v \<longleftrightarrow> fst v \<in> set (dkeys (ctr_dcid st))"

definition client_name :: "monitor \<Rightarrow> int \<times> stat \<Rightarrow> string" where
  "client_name st v = dget (bucket_ckey st) (fst v) ''''"

definition downward :: "monitor \<Rightarrow> int \<times> stat \<Rightarrow> bool" where
  "downward st v \<longleftrightarrow> dget (bucket_dir st) (fst v) ''dn'' = ''dn''"

abbreviation pkt_rate :: "int \<times> stat \<Rightarrow> rat" where "pkt_rate v \<equiv> fst (snd (snd v))"
abbreviation mbit_rate :: "int \<times> stat \<Rightarrow> rat" where "mbit_rate v \<equiv> snd (snd (snd v))"

definition client_cells :: "monitor \<Rightarrow> bool \<Rightarrow> string \<Rightarrow> (int \<times> stat) list \<Rightarrow> (int \<times> stat) list" where
  "client_cells st dn ckey vis = [v \<leftarrow> vis. known st v \<and> (downward st v \<longleftrightarrow> dn) \<and> client_name st v = ckey]"

definition float_total :: "('a \<Rightarrow> rat) \<Rightarrow> 'a list \<Rightarrow> rat" where
  "float_total f vs = foldl float_add 0 (map f vs)"

lemma float_total_simps [simp]: "float_total f [] = 0" "float_total f (vs @ [v]) = float_add (float_total f vs) (f v)"
  by (simp_all add: float_total_def)

lemma map_float_add: "foldl (\<lambda>acc k. float_add acc (f k)) 0 ks = float_total f ks"
  by (simp add: float_total_def foldl_map)

text \<open>The figures of a client.\<close>

definition conn_of :: "monitor \<Rightarrow> (int \<times> stat) list \<Rightarrow> string \<Rightarrow> conn" where
  "conn_of st vis ckey =
     \<lparr>dn_pkt = float_total pkt_rate (client_cells st True ckey vis), dn_mbps = float_total mbit_rate (client_cells st True ckey vis),
      up_pkt = float_total pkt_rate (client_cells st False ckey vis), up_mbps = float_total mbit_rate (client_cells st False ckey vis)\<rparr>"

lemma group_conns_sums:
  assumes "foldl (group_step st) ([], 0, 0) vis = (cs, p, m)"
  shows "dict_ok cs" "fst ` set cs = client_name st ` {v \<in> set vis. known st v}"
    and "dget cs ckey zero_conn = conn_of st vis ckey"
    and "p = float_total pkt_rate [v \<leftarrow> vis. \<not> known st v]" "m = float_total mbit_rate [v \<leftarrow> vis. \<not> known st v]"
    and "length cs \<le> length vis"
proof -
  have "dict_ok cs \<and> fst ` set cs = client_name st ` {v \<in> set vis. known st v} \<and> (\<forall>ckey. dget cs ckey zero_conn = conn_of st vis ckey)
    \<and> p = float_total pkt_rate [v \<leftarrow> vis. \<not> known st v] \<and> m = float_total mbit_rate [v \<leftarrow> vis. \<not> known st v] \<and> length cs \<le> length vis"
    using assms
  proof (induction vis arbitrary: cs p m rule: rev_induct)
    case Nil
    then show ?case by (auto simp: dict_ok_def dget_def conn_of_def client_cells_def zero_conn_def)
  next
    case (snoc v vis)
    obtain cs0 p0 m0 where g0: "foldl (group_step st) ([], 0, 0) vis = (cs0, p0, m0)" by (metis prod_cases3)
    obtain idx pk r mb where v: "v = (idx, pk, r, mb)" by (cases v)
    note IH = snoc.IH [OF g0]
    have step: "group_step st (cs0, p0, m0) v = (cs, p, m)" using snoc.prems by (simp add: g0)
    show ?case
    proof (cases "known st v")
      case False
      then have "cs = cs0" "p = float_add p0 r" "m = float_add m0 mb"
        using step by (auto simp: group_step_def v known_def)
      then show ?thesis using IH False by (auto simp: v conn_of_def client_cells_def)
    next
      case True
      let ?k = "client_name st v"
      let ?c = "if downward st v then (conn_of st vis ?k)\<lparr>dn_pkt := float_add (dn_pkt (conn_of st vis ?k)) r,
            dn_mbps := float_add (dn_mbps (conn_of st vis ?k)) mb\<rparr>
          else (conn_of st vis ?k)\<lparr>up_pkt := float_add (up_pkt (conn_of st vis ?k)) r,
            up_mbps := float_add (up_mbps (conn_of st vis ?k)) mb\<rparr>"
      have cs: "cs = AList.update ?k ?c cs0" and pm: "p = p0" "m = m0"
        using step True IH by (auto simp: group_step_def v known_def client_name_def downward_def Let_def)
      have "conn_of st (vis @ [v]) ?k = ?c"
        using True by (simp add: conn_of_def client_cells_def v)
      moreover have "conn_of st (vis @ [v]) ckey = conn_of st vis ckey" if "ckey \<noteq> ?k" for ckey
        using that by (simp add: conn_of_def client_cells_def)
      moreover have "dget cs ckey zero_conn = (if ckey = ?k then ?c else dget cs0 ckey zero_conn)" for ckey
        by (simp add: cs dget_def map_of_update)
      ultimately have "\<forall>ckey. dget cs ckey zero_conn = conn_of st (vis @ [v]) ckey" using IH by auto
      moreover have "dict_ok cs" "fst ` set cs = insert ?k (fst ` set cs0)" using IH by (simp_all add: cs dom_update)
      moreover have "length cs \<le> Suc (length cs0)" unfolding cs by (induction cs0) auto
      ultimately show ?thesis using IH True pm by auto
    qed
  qed
  then show "dict_ok cs" "fst ` set cs = client_name st ` {v \<in> set vis. known st v}"
    and "dget cs ckey zero_conn = conn_of st vis ckey"
    and "p = float_total pkt_rate [v \<leftarrow> vis. \<not> known st v]" "m = float_total mbit_rate [v \<leftarrow> vis. \<not> known st v]"
    and "length cs \<le> length vis"
    by blast+
qed

lemma fold_add_conn:
  "foldl (\<lambda>acc k. add_conn acc (f k)) c ks =
     \<lparr>dn_pkt = foldl (\<lambda>acc k. float_add acc (dn_pkt (f k))) (dn_pkt c) ks,
      dn_mbps = foldl (\<lambda>acc k. float_add acc (dn_mbps (f k))) (dn_mbps c) ks,
      up_pkt = foldl (\<lambda>acc k. float_add acc (up_pkt (f k))) (up_pkt c) ks,
      up_mbps = foldl (\<lambda>acc k. float_add acc (up_mbps (f k))) (up_mbps c) ks\<rparr>"
  by (induction ks arbitrary: c) (simp_all add: add_conn_def)

text \<open>Adding up by client first loses nothing, exactly and for the absolute values that bound the rounding.\<close>

lemma sum_by_key:
  fixes f :: "'a \<Rightarrow> rat"
  assumes "distinct ks" "\<forall>v \<in> set vis. P v \<longrightarrow> key v \<in> set ks"
  shows "(\<Sum>k \<leftarrow> ks. \<Sum>v \<leftarrow> [v \<leftarrow> vis. P v \<and> key v = k]. f v) = (\<Sum>v \<leftarrow> [v \<leftarrow> vis. P v]. f v)"
  using assms(2)
proof (induction vis)
  case (Cons v vis)
  have one: "key v \<in> set ks \<Longrightarrow> (\<Sum>k \<leftarrow> ks. if key v = k then f v else 0) = f v"
  proof -
    have "key v \<notin> set xs \<Longrightarrow> (\<Sum>k \<leftarrow> xs. if key v = k then f v else 0) = 0" for xs by (induction xs) auto
    then show "key v \<in> set ks \<Longrightarrow> ?thesis" using assms(1) by (induction ks) auto
  qed
  have "(\<Sum>k \<leftarrow> ks. \<Sum>v \<leftarrow> [v \<leftarrow> v # vis. P v \<and> key v = k]. f v) =
      (\<Sum>k \<leftarrow> ks. (if P v \<and> key v = k then f v else 0) + (\<Sum>v \<leftarrow> [v \<leftarrow> vis. P v \<and> key v = k]. f v))"
    by (intro arg_cong [where f = sum_list] map_cong) auto
  also have "\<dots> = (\<Sum>k \<leftarrow> ks. if P v \<and> key v = k then f v else 0) + (\<Sum>k \<leftarrow> ks. \<Sum>v \<leftarrow> [v \<leftarrow> vis. P v \<and> key v = k]. f v)"
    by (rule sum_list_addf)
  finally show ?case using Cons one by (cases "P v") (auto simp: sum_list_0)
qed simp

lemma direction_total_error:
  assumes "distinct ks" "\<forall>v \<in> set vis. known st v \<longrightarrow> client_name st v \<in> set ks" "length ks \<le> length vis"
  shows "\<bar>float_total (\<lambda>k. float_total f (client_cells st dn k vis)) ks - (\<Sum>v \<leftarrow> [v \<leftarrow> vis. known st v \<and> (downward st v \<longleftrightarrow> dn)]. f v)\<bar>
    \<le> ulps (2 * length vis) * (\<Sum>v \<leftarrow> [v \<leftarrow> vis. known st v \<and> (downward st v \<longleftrightarrow> dn)]. \<bar>f v\<bar>)"
proof -
  let ?P = "\<lambda>v. known st v \<and> (downward st v \<longleftrightarrow> dn)"
  have cells: "client_cells st dn k vis = [v \<leftarrow> vis. ?P v \<and> client_name st v = k]" for k
    by (simp add: client_cells_def conj_assoc)
  have key: "\<forall>v \<in> set vis. ?P v \<longrightarrow> client_name st v \<in> set ks" using assms(2) by blast
  note S = sum_by_key [OF assms(1) key]
  have "\<forall>k \<in> set ks. length (map f (client_cells st dn k vis)) \<le> length vis"
    by (simp add: client_cells_def)
  from nested_float_add_error [OF this]
  have "\<bar>float_total (\<lambda>k. float_total f (client_cells st dn k vis)) ks - (\<Sum>v \<leftarrow> [v \<leftarrow> vis. ?P v]. f v)\<bar>
      \<le> ulps (length vis + length ks) * (\<Sum>v \<leftarrow> [v \<leftarrow> vis. ?P v]. \<bar>f v\<bar>)"
    using S [of f] S [of "\<lambda>v. \<bar>f v\<bar>"] by (simp add: float_total_def cells comp_def)
  also have "\<dots> \<le> ulps (2 * length vis) * (\<Sum>v \<leftarrow> [v \<leftarrow> vis. ?P v]. \<bar>f v\<bar>)"
    using assms(3) by (intro mult_right_mono ulps_mono sum_list_nonneg) auto
  finally show ?thesis .
qed

lemma split_cells:
  fixes f :: "int \<times> stat \<Rightarrow> rat"
  shows "(\<Sum>v \<leftarrow> [v \<leftarrow> vis. known st v \<and> (downward st v \<longleftrightarrow> True)]. f v) + (\<Sum>v \<leftarrow> [v \<leftarrow> vis. known st v \<and> (downward st v \<longleftrightarrow> False)]. f v)
    + (\<Sum>v \<leftarrow> [v \<leftarrow> vis. \<not> known st v]. f v) = (\<Sum>v \<leftarrow> vis. f v)"
  by (induction vis) auto

lemma totals_error:
  assumes "distinct ks" "\<forall>v \<in> set vis. known st v \<longrightarrow> client_name st v \<in> set ks" "length ks \<le> length vis"
  shows "\<bar>float_total (\<lambda>k. float_total f (client_cells st True k vis)) ks + float_total (\<lambda>k. float_total f (client_cells st False k vis)) ks
      + float_total f [v \<leftarrow> vis. \<not> known st v] - (\<Sum>v \<leftarrow> vis. f v)\<bar> \<le> ulps (2 * length vis) * (\<Sum>v \<leftarrow> vis. \<bar>f v\<bar>)"
proof -
  let ?p = "[v \<leftarrow> vis. \<not> known st v]"
  have "\<bar>float_total f ?p - (\<Sum>v \<leftarrow> ?p. f v)\<bar> \<le> ulps (length ?p) * (\<Sum>v \<leftarrow> ?p. \<bar>f v\<bar>)"
    using foldl_float_add_error [of 0 "map f ?p"] by (simp add: float_total_def comp_def)
  also have "\<dots> \<le> ulps (2 * length vis) * (\<Sum>v \<leftarrow> ?p. \<bar>f v\<bar>)"
  proof (intro mult_right_mono ulps_mono sum_list_nonneg)
    show "length ?p \<le> 2 * length vis" using length_filter_le [of "\<lambda>v. \<not> known st v" vis] by linarith
  qed auto
  finally show ?thesis
    using direction_total_error [OF assms, of f True] direction_total_error [OF assms, of f False]
    unfolding split_cells [where f = f and vis = vis and st = st, symmetric] split_cells [where f = "\<lambda>v. \<bar>f v\<bar>" and vis = vis and st = st, symmetric]
      distrib_left by linarith
qed

text \<open>
  C21. No traffic is lost on the screen, in the arithmetic of the program. Whatever the digests have
  taught the monitor, there is one line per client in the order of the client names; the figures of a client are the chains of float additions
  over exactly its cells, by direction and in the order of the read; the totals line is the chain over
  the clients, and the pending rates are the chain over the cells without a digest. Totals and pending
  rates together differ from the sum over the \<open>n\<close> visible cells by at most \<open>(1 + 2^-53)^(2 n) - 1\<close> times the sum of the
  absolute rates, for packets and for megabits alike. All these figures are on the printed screen.
\<close>

theorem screen_totals_are_complete:
  assumes "poll now answer st = (st', v)" "poll_groups v = (cs, pending_pkt, pending_mbps)"
    and "poll_screen v = Connections ls tot pend"
  defines "ckeys \<equiv> sort_key (map (of_char :: char \<Rightarrow> nat)) (dkeys cs)" and "vis \<equiv> poll_visible v"
  shows "set ckeys = client_name st' ` {x \<in> set vis. known st' x}
    \<and> map line_client ls = map (\<lambda>k. if k = '''' then ''(unidentified)'' else k) ckeys
    \<and> map line_conn ls = map (conn_of st' vis) ckeys
    \<and> tot = foldl (\<lambda>acc k. add_conn acc (conn_of st' vis k)) zero_conn ckeys
    \<and> pending_pkt = float_total pkt_rate [x \<leftarrow> vis. \<not> known st' x] \<and> pending_mbps = float_total mbit_rate [x \<leftarrow> vis. \<not> known st' x]
    \<and> \<bar>dn_pkt tot + up_pkt tot + pending_pkt - (\<Sum>x \<leftarrow> vis. pkt_rate x)\<bar> \<le> ulps (2 * length vis) * (\<Sum>x \<leftarrow> vis. \<bar>pkt_rate x\<bar>)
    \<and> \<bar>dn_mbps tot + up_mbps tot + pending_mbps - (\<Sum>x \<leftarrow> vis. mbit_rate x)\<bar> \<le> ulps (2 * length vis) * (\<Sum>x \<leftarrow> vis. \<bar>mbit_rate x\<bar>)
    \<and> set (map conn_text ls) \<union> {total_text tot} \<subseteq> set (screen_lines ts (poll_screen v))"
proof -
  have g: "foldl (group_step st') ([], 0, 0) vis = (cs, pending_pkt, pending_mbps)"
    using poll_state(12) [OF assms(1)] assms(2) by (simp add: group_conns_def vis_def)
  note G = group_conns_sums [OF g]
  have ks: "distinct ckeys" "set ckeys = client_name st' ` {x \<in> set vis. known st' x}" "length ckeys \<le> length vis"
    using G(1,2,6) by (simp_all add: ckeys_def dict_ok_def dkeys_def)
  have scr: "map line_client ls = map (\<lambda>k. if k = '''' then ''(unidentified)'' else k) ckeys"
    "map line_conn ls = map (conn_of st' vis) ckeys"
    "tot = foldl (\<lambda>acc k. add_conn acc (conn_of st' vis k)) zero_conn ckeys"
    using assms(3) poll_state(13) [OF assms(1)] assms(2)
    by (auto simp: screen_of_def Let_def ckeys_def G(3) split: if_splits)
  have key: "\<forall>x \<in> set vis. known st' x \<longrightarrow> client_name st' x \<in> set ckeys" using ks(2) by blast
  have "dn_pkt tot = float_total (\<lambda>k. float_total pkt_rate (client_cells st' True k vis)) ckeys"
    "up_pkt tot = float_total (\<lambda>k. float_total pkt_rate (client_cells st' False k vis)) ckeys"
    "dn_mbps tot = float_total (\<lambda>k. float_total mbit_rate (client_cells st' True k vis)) ckeys"
    "up_mbps tot = float_total (\<lambda>k. float_total mbit_rate (client_cells st' False k vis)) ckeys"
    by (simp_all add: scr(3) fold_add_conn zero_conn_def conn_of_def map_float_add)
  moreover have "set (map conn_text ls) \<union> {total_text tot} \<subseteq> set (screen_lines ts (poll_screen v))"
    by (auto simp: assms(3) screen_lines_def)
  ultimately show ?thesis
    using ks(2) scr G(4,5) totals_error [OF ks(1) key ks(3), of pkt_rate] totals_error [OF ks(1) key ks(3), of mbit_rate] by simp
qed

section \<open>The monitor beside the switch\<close>

text \<open>
  C17. The monitor names buckets as the switch does. When a Long-header packet makes the switch
  send a digest (in the length-aware arm), the callback files the packet's connection ID under exactly the bucket that the
  switch counted the packet in, with its length, its direction and the client's endpoint.
\<close>

theorem monitor_names_the_bucket:
  fixes st :: monitor
  assumes "crc_parity hs" "cfg_force_len sw = 0"
    and "IngressParser (frame p) = Some (hdr, meta, rest)" "quic_long hdr = Some h"
    and "0 < long_dcid_len h" "long_dcid_len h \<le> 20"
    and "fst (pipe hs p sw) = Some out" "digest out = Some dg"
  defines "cid \<equiv> take (unat (long_dcid_len h)) (be_bytes 20 (long_dcid h))"
    and "b \<equiv> int (unat (bucket_id out))"
    and "st' \<equiv> on_quic_digest [digest_dict dg] st"
  shows "map_of (bucket_dcid st') b = Some (hex cid)
    \<and> map_of (ctr_dcid st') (b AND 0x3FF) = Some (hex cid)
    \<and> map_of (ctr_len st') (b AND 0x3FF) = Some (length cid)
    \<and> map_of (bucket_dir st') (b AND 0x3FF) = Some (if udp_src_port dg = 443 then ''dn'' else ''up'')
    \<and> map_of (bucket_ckey st') (b AND 0x3FF) = Some (client_of dg)"
proof -
  have L: "unat (long_dcid_len h) \<le> 20" using assms(6) by (simp add: word_le_nat_alt)
  have f: "dig_dcid_len dg = long_dcid_len h" "dig_dcid dg = long_dcid h"
    using pipe_digest_fields [OF assms(3,7,8)] parser_dcid_len(1) [OF assms(3,4)] assms(4)
    by (simp_all add: copy_fields_def)
  obtain v where v: "quic_view hdr = Some v" "v_kind v \<noteq> Short" "v_len v = long_dcid_len h" "v_dcid v = long_dcid h"
    using assms(4) by (simp add: quic_view_def)
  have "bucket_id out = dcid_hash hs (mask_tbl (word_of_nat (unat (long_dcid_len h))) (be_word (be_bytes 20 (long_dcid h))))"
    using view_digest [OF assms(3) v(1) assms(7)] v assms(2)
    by (simp add: view_bucket_def view_len_def be_word_be_bytes)
  also have "\<dots> = word_of_nat (bucket cid)"
    unfolding cid_def by (rule masked_bucket [OF assms(1) _ L]) simp
  finally have "b = int (bucket cid)"
    using bucket_less [of cid] by (simp add: b_def unat_of_nat)
  with record_digest [of dg st] assms(5,6) L show ?thesis
    by (simp add: f st'_def map_of_update flip: cid_def) (simp add: cid_def)
qed

text \<open>
  Short-header digests are filed under the wrong bucket. The parser puts the constant 20 in the
  digest of a Short-header packet, so the monitor takes all 20 speculative bytes for the connection ID, while the
  switch counts the packet under the \<open>L\<close> learned bytes.
\<close>

theorem short_digest_takes_20_bytes:
  assumes "crc_parity hs" "cfg_force_len sw = 0"
    and "IngressParser (frame p) = Some (hdr, meta, rest)" "quic_short hdr = Some h"
    and "fst (pipe hs p sw) = Some out" "digest out = Some dg"
    and "dcid_len_reg sw (flow_hash hs (tuple_of hdr)) = word_of_nat L" "L \<le> 20"
  defines "bs \<equiv> be_bytes 20 (short_dcid h)"
  shows "unat (bucket_id out) = bucket (take L bs)
    \<and> map_of (bucket_dcid (on_quic_digest [digest_dict dg] st)) (int (bucket bs)) = Some (hex bs)"
proof -
  have nl: "quic_long hdr = None" using parser_excl [OF assms(3)] assms(4) by simp
  have f: "dig_dcid_len dg = 20" "dig_dcid dg = short_dcid h"
    using pipe_digest_fields [OF assms(3,5,6)] parser_dcid_len(2) [OF assms(3,4)] assms(4) nl
    by (simp_all add: copy_fields_def)
  obtain v where v: "quic_view hdr = Some v" "v_kind v = Short" "v_tuple v = tuple_of hdr" "v_dcid v = short_dcid h"
    using assms(4) nl by (simp add: quic_view_def)
  have "bucket_id out = dcid_hash hs (mask_tbl (word_of_nat L) (be_word bs))"
    using view_digest [OF assms(3) v(1) assms(5)] v assms(2,7)
    by (simp add: view_bucket_def view_len_def bs_def be_word_be_bytes)
  also have "\<dots> = word_of_nat (bucket (take L bs))"
    by (rule masked_bucket [OF assms(1) _ assms(8)]) (simp add: bs_def)
  finally have "unat (bucket_id out) = bucket (take L bs)"
    using bucket_less [of "take L bs"] by (simp add: unat_of_nat)
  moreover have "take 20 bs = bs" by (simp add: bs_def)
  ultimately show ?thesis
    using record_digest [of dg st] by (simp add: f map_of_update flip: bs_def)
qed

text \<open>
  A read of the whole counter, as \<open>counter_entries\<close> but with the same field names in every entry.
\<close>

definition uniform_entries :: "string \<Rightarrow> string \<Rightarrow> nat \<Rightarrow> (nat \<Rightarrow> nat \<times> nat) \<Rightarrow> entry list \<Rightarrow> bool" where
  "uniform_entries pn bn n f ents \<longleftrightarrow> pn \<in> set PKT_NAMES \<and> bn \<in> set BYTE_NAMES \<and>
     (\<exists>is. distinct is \<and> set is = {..<n} \<and>
        list_all2 (\<lambda>e i. map_of (ent_key e) CTR_INDEX = Some (int i) \<and>
          (\<exists>vs ws. ent_data e = [(pn, RList vs), (bn, RList ws)] \<and>
             sum_list vs = int (fst (f i)) \<and> sum_list ws = int (snd (f i)))) ents is)"

lemma discover_names:
  assumes "pn \<in> set PKT_NAMES" "bn \<in> set BYTE_NAMES" "fl = (None, None) \<or> fl = (Some pn, Some bn)"
  shows "discover_fields [(pn, x), (bn, y)] fl = (Some pn, Some bn)"
proof -
  have b: "bn = ''$COUNTER_SPEC_BYTES'' \<or> bn = ''$COUNTER_SPEC_BYTE_COUNT''"
    using assms(2) by (simp add: BYTE_NAMES_def)
  have p: "pn = ''$COUNTER_SPEC_PKTS'' \<or> pn = ''$COUNTER_SPEC_PKT_COUNT''"
    using assms(1) by (simp add: PKT_NAMES_def)
  have "pick_field [(pn, x), (bn, y)] PKT_NAMES = Some pn" "pick_field [(pn, x), (bn, y)] BYTE_NAMES = Some bn"
    using p b by (elim disjE; simp add: pick_field_def PKT_NAMES_def BYTE_NAMES_def)+
  with assms(3) show ?thesis by (elim disjE; simp add: discover_fields_def)
qed

lemma int_image_iff: "k \<in> int ` {i \<in> A. P i} \<longleftrightarrow> 0 \<le> k \<and> nat k \<in> A \<and> P (nat k)"
proof
  assume "0 \<le> k \<and> nat k \<in> A \<and> P (nat k)"
  then show "k \<in> int ` {i \<in> A. P i}" by (intro image_eqI [of _ _ "nat k"]) simp_all
qed auto

abbreviation entry_step :: "(int, int \<times> int) dict \<times> string option \<times> string option \<Rightarrow> entry \<Rightarrow> (int, int \<times> int) dict \<times> string option \<times> string option" where
  "entry_step st e \<equiv> (case map_of (ent_key e) CTR_INDEX of None \<Rightarrow> st | Some idx \<Rightarrow> read_entry st idx (ent_data e))"

lemma entry_step_uniform:
  assumes "pn \<in> set PKT_NAMES" "bn \<in> set BYTE_NAMES"
    and "map_of (ent_key e) CTR_INDEX = Some (int i)" "ent_data e = [(pn, RList vs), (bn, RList ws)]"
    and "sum_list vs = int (fst (f i))" "sum_list ws = int (snd (f i))" "fl = (None, None) \<or> fl = (Some pn, Some bn)"
  shows "entry_step (res, fl) e = (if f i \<noteq> (0, 0) then AList.update (int i) (map_prod int int (f i)) res else res, (Some pn, Some bn))"
proof -
  have "pn \<noteq> bn" using assms(1,2) by (auto simp: PKT_NAMES_def BYTE_NAMES_def)
  then show ?thesis
    using assms(3-7) discover_names [OF assms(1,2,7)]
    by (cases "f i") (auto simp: read_entry_def field_value_def dget_def sum_raw_def Let_def)
qed

lemma entries_uniform:
  assumes "pn \<in> set PKT_NAMES" "bn \<in> set BYTE_NAMES"
    and "list_all2 (\<lambda>e i. map_of (ent_key e) CTR_INDEX = Some (int i) \<and>
        (\<exists>vs ws. ent_data e = [(pn, RList vs), (bn, RList ws)] \<and>
           sum_list vs = int (fst (f i)) \<and> sum_list ws = int (snd (f i)))) ents is"
    and "distinct is" "fl = (None, None) \<or> fl = (Some pn, Some bn)"
  shows "map_of (fst (foldl entry_step (res, fl) ents)) k =
        (if k \<in> int ` {i \<in> set is. f i \<noteq> (0, 0)} then Some (map_prod int int (f (nat k))) else map_of res k)"
    and "snd (foldl entry_step (res, fl) ents) = (if is = [] then fl else (Some pn, Some bn))"
  using assms(3-5)
proof (induction ents "is" arbitrary: res fl rule: list_all2_induct)
  case (Cons e es i "is")
  case 1
  from Cons obtain vs ws where e: "map_of (ent_key e) CTR_INDEX = Some (int i)" "ent_data e = [(pn, RList vs), (bn, RList ws)]"
    "sum_list vs = int (fst (f i))" "sum_list ws = int (snd (f i))" by blast
  note step = entry_step_uniform [where f = f, OF assms(1,2) e]
  show ?case
    unfolding foldl_Cons step [OF 1(2)] using 1 Cons.IH(1) [of "(Some pn, Some bn)"]
    by (subst Cons.IH(1)) (auto simp: map_of_update)
  case 2
  show ?case
    unfolding foldl_Cons step [OF 2(2)] using 2 Cons.IH(2) [of "(Some pn, Some bn)"] by simp
qed simp_all

lemma read_uniform:
  assumes "uniform_entries pn bn n f ents" "fl = (None, None) \<or> fl = (Some pn, Some bn)"
  shows "map_of (fst (read_counter (Inr (Some ents)) fl)) k =
      (if 0 \<le> k \<and> nat k < n \<and> f (nat k) \<noteq> (0, 0) then Some (map_prod int int (f (nat k))) else None)"
    and "0 < n \<Longrightarrow> snd (read_counter (Inr (Some ents)) fl) = (Some pn, Some bn)"
proof -
  from assms(1) obtain "is" where pn: "pn \<in> set PKT_NAMES" "bn \<in> set BYTE_NAMES" and dist: "distinct is" and "is": "set is = {..<n}"
    and ents: "list_all2 (\<lambda>e i. map_of (ent_key e) CTR_INDEX = Some (int i) \<and>
        (\<exists>vs ws. ent_data e = [(pn, RList vs), (bn, RList ws)] \<and>
           sum_list vs = int (fst (f i)) \<and> sum_list ws = int (snd (f i)))) ents is"
    by (auto simp: uniform_entries_def)
  note F = entries_uniform [OF pn ents dist assms(2), where res = "[]"]
  have "nat k \<in> set is \<longleftrightarrow> nat k < n" by (simp add: "is")
  then have k: "k \<in> int ` {i \<in> set is. f i \<noteq> (0, 0)} \<longleftrightarrow> 0 \<le> k \<and> nat k < n \<and> f (nat k) \<noteq> (0, 0)"
    by (subst int_image_iff) blast
  have ne: "is \<noteq> []" if "0 < n"
  proof -
    have "0 \<in> set is" unfolding "is" using that by simp
    then show ?thesis by (cases "is") simp_all
  qed
  show "map_of (fst (read_counter (Inr (Some ents)) fl)) k =
        (if 0 \<le> k \<and> nat k < n \<and> f (nat k) \<noteq> (0, 0) then Some (map_prod int int (f (nat k))) else None)"
    using F(1) k by (simp only: read_counter_def sum.case option.case map_of.simps if_False simp_thms)
  show "0 < n \<Longrightarrow> snd (read_counter (Inr (Some ents)) fl) = (Some pn, Some bn)"
    using F(2) ne by (simp only: read_counter_def sum.case option.case if_False simp_thms)
qed

lemma warm_up_state:
  assumes "warm_up answer now st = st'"
  shows "prev_cell st' i = (case counted answer st i of None \<Rightarrow> prev_cell st i | Some c \<Rightarrow> c)"
    and "prev_time st' = now" "mon_fields st' = snd (read_counter answer (mon_fields st))"
    and "last_active st' = last_active st"
proof -
  let ?upd = "\<lambda>s (idx, pkts, byt). s\<lparr>prev_pkts := AList.update idx pkts (prev_pkts s),
                                        prev_bytes := AList.update idx byt (prev_bytes s)\<rparr>"
  have F: "dict_ok counts \<Longrightarrow>
      prev_cell (foldl ?upd s counts) i = (case map_of counts i of None \<Rightarrow> prev_cell s i | Some c \<Rightarrow> c)
      \<and> prev_time (foldl ?upd s counts) = prev_time s \<and> mon_fields (foldl ?upd s counts) = mon_fields s
      \<and> last_active (foldl ?upd s counts) = last_active s" for s counts
  proof (induction counts arbitrary: s)
    case (Cons c counts)
    obtain k p b where c: "c = (k, p, b)" by (cases c)
    with Cons.prems have "map_of counts k = None" "dict_ok counts" by (auto simp: dict_ok_def map_of_eq_None_iff)
    with Cons.IH [of "?upd s c"] show ?case
      by (auto simp: c prev_cell_def dget_def map_of_update split: option.split)
  qed simp
  obtain counts f where rc: "read_counter answer (mon_fields st) = (counts, f)"
    by (cases "read_counter answer (mon_fields st)")
  have "dict_ok counts" using read_counter_ok [of answer "mon_fields st"] by (simp add: rc)
  from F [OF this, of "st\<lparr>mon_fields := f, prev_time := now\<rparr>"]
  show "prev_cell st' i = (case counted answer st i of None \<Rightarrow> prev_cell st i | Some c \<Rightarrow> c)"
    and "prev_time st' = now" "mon_fields st' = snd (read_counter answer (mon_fields st))"
    and "last_active st' = last_active st"
    using assms by (auto simp: warm_up_def rc counted_def prev_cell_def split: option.splits)
qed

lemma prev_cell_new [simp]: "prev_cell (new_monitor t) i = (0, 0)"
  by (simp add: prev_cell_def new_monitor_def dget_def)

lemma read_value:
  assumes "uniform_entries pn bn n f ents" "mon_fields st = (None, None) \<or> mon_fields st = (Some pn, Some bn)" "i < n"
  shows "(case counted (Inr (Some ents)) st (int i) of None \<Rightarrow> (0, 0) | Some c \<Rightarrow> c) = map_prod int int (f i)"
    and "counted (Inr (Some ents)) st (int i) = (if f i \<noteq> (0, 0) then Some (map_prod int int (f i)) else None)"
  using read_uniform(1) [OF assms(1,2), of "int i"] assms(3) by (auto simp: counted_def)

lemma poll_read_total:
  assumes "\<forall>e \<in> set ents. map_of (ent_key e) CTR_INDEX \<noteq> None"
  shows "poll_read_counter (Inr ents) f = Inr (read_counter (Inr (Some ents)) f)"
proof -
  have "foldE (\<lambda>st e. mapE (\<lambda>idx. read_entry st idx (ent_data e)) (dlookup (ent_key e) CTR_INDEX)) s ents =
      Inr (foldl (\<lambda>st e. case map_of (ent_key e) CTR_INDEX of None \<Rightarrow> st | Some idx \<Rightarrow> read_entry st idx (ent_data e)) s ents)" for s
    using assms by (induction ents arbitrary: s) (auto simp: dlookup_def)
  then show ?thesis by (simp add: poll_read_counter_def read_counter_def)
qed

lemma uniform_indexed: "uniform_entries pn bn n f ents \<Longrightarrow> \<forall>e \<in> set ents. map_of (ent_key e) CTR_INDEX \<noteq> None"
  by (fastforce simp: uniform_entries_def list_all2_conv_all_nth in_set_conv_nth)

lemma poll_warm_up_total:
  assumes "\<forall>e \<in> set ents. map_of (ent_key e) CTR_INDEX \<noteq> None"
  shows "poll_warm_up (Inr ents) now st = Inr (warm_up (Inr (Some ents)) now st)"
  by (simp add: poll_warm_up_def warm_up_def poll_read_total [OF assms] Let_def case_prod_beta)

lemma poll_quic_total:
  assumes "\<forall>e \<in> set ents. map_of (ent_key e) CTR_INDEX \<noteq> None" "poll now (Inr (Some ents)) st = (st', v)"
  shows "poll_quic ts now (Inr ents) st = Inr (st', bucket_lines ts (poll_visible v))"
  using assms(2) by (auto simp: poll_quic_def poll_def poll_read_total [OF assms(1)] Let_def split: prod.splits)

lemma printed_integer: "0 \<le> x \<Longrightarrow> \<exists>k. fixed_signed 0 x = dec_nat k \<and> \<bar>of_nat k - x\<bar> \<le> 1 / 2"
proof -
  assume x: "0 \<le> x"
  have e: "\<bar>of_int (round_even x) - x\<bar> \<le> 1 / 2" by (rule round_even_error)
  with x have "- 1 < (of_int (round_even x) :: rat)" by linarith
  then have "0 \<le> round_even x" by linarith
  with x e show ?thesis by (intro exI [of _ "nat (round_even x)"]) (simp add: fixed_signed_def fixed_def)
qed

text \<open>
  C18. The displayed rate is the switch's traffic. \<^verbatim>\<open>poll_quic.py\<close> warms up on the counters of the
  switch, any packets pass, and the next poll reads the counters again; the reads, which sync first, return the counters
  with any order of entries, any of the known field names and any split over the pipes. Then for every counter
  cell that counted \<open>n > 0\<close> QUIC packets in between the screen has a line with the index of the cell, its total count and an integer rate \<open>k\<close>
  such that \<open>k\<close> times the interval is \<open>n\<close> up to half the interval, from printing the rate without decimals, and a \<open>2^-50\<close> part of \<open>n\<close>, from the
  arithmetic in doubles (no 64-bit counter wrapping).
\<close>

theorem displayed_rate_is_traffic:
  assumes "uniform_entries pn bn 32768 (byte_cell sw) ents0"
    and "uniform_entries pn bn 32768 (byte_cell (snd (run_pipe hs ps sw))) ents1"
    and "t0 < now" "unat (ctr_pkts (quic_flow_bytes sw i)) + length ps < 2 ^ 64"
  defines "n \<equiv> length [x \<leftarrow> buckets hs (views ps) sw. ucast (snd x) = i]"
  assumes "0 < n"
  shows "\<exists>st lines k mbps.
      bindE (poll_warm_up (Inr ents0) t0 (new_monitor t)) (poll_quic ts now (Inr ents1)) = Inr (st, lines)
    \<and> ''  0x'' @ hex_pad 3 (unat i) @ ''    '' @ pad_left 12 (dec_nat (unat (ctr_pkts (quic_flow_bytes (snd (run_pipe hs ps sw)) i)))) @
        ''  '' @ pad_left 8 (dec_nat k) @ ''  '' @ mbps \<in> set lines
    \<and> \<bar>of_nat k * (now - t0) - of_nat n\<bar> \<le> (now - t0) / 2 + of_nat n / 2 ^ 50"
proof -
  let ?st = "warm_up (Inr (Some ents0)) t0 (new_monitor t)" and ?sw = "snd (run_pipe hs ps sw)"
  let ?d = "round_double (now - t0)"
  define j where "j = int (unat i)"
  obtain st' v where p: "poll now (Inr (Some ents1)) ?st = (st', v)" by fastforce
  have i: "unat i < 32768" using unsigned_less [of i] by simp
  have f0: "mon_fields (new_monitor t) = (None, None)" by (simp add: new_monitor_def)
  have f1: "mon_fields ?st = (Some pn, Some bn)"
    using warm_up_state(3) [OF refl, of "Inr (Some ents0)" t0 "new_monitor t"] read_uniform(2) [OF assms(1)] by (simp add: f0)
  have prev: "prev_cell ?st j = map_prod int int (byte_cell sw (unat i))"
    using warm_up_state(1) [OF refl, of "Inr (Some ents0)" t0 "new_monitor t" j]
      read_value(1) [OF assms(1) _ i, of "new_monitor t"] by (simp add: f0 j_def split: option.splits)
  have "n \<le> length ps"
    using length_views [of ps] length_filter_le [of "\<lambda>x. ucast (snd x) = i" "buckets hs (views ps) sw"]
    by (simp add: length_buckets n_def)
  then have cell: "fst (byte_cell ?sw (unat i)) = fst (byte_cell sw (unat i)) + n"
    using assms(4) by (simp add: byte_cell_def run_pipe_state fold_observe_bytes unat_word_ariths unat_of_nat mod_simps n_def)
  then have cnt: "counted (Inr (Some ents1)) ?st j = Some (map_prod int int (byte_cell ?sw (unat i)))"
    using assms(6) read_value(2) [OF assms(2) _ i, of ?st] by (cases "byte_cell ?sw (unat i)") (simp add: f1 j_def)
  have t: "prev_time ?st = t0" by (rule warm_up_state(2) [OF refl])
  define rate where "rate = round_double (round_double (of_int (int n)) / ?d)"
  have dt: "0 < now - t0" "0 < ?d" using assms(3) round_double_pos [of "now - t0"] by simp_all
  obtain m where st: "map_of (poll_stats v) j = Some (int (fst (byte_cell ?sw (unat i))), rate, m)"
    using poll_state(3) [OF p, of j] dt(2) by (simp add: cnt t rates_def prev cell rate_def)
  have "map_of (last_active st') j = Some now"
    using poll_state(2) [OF p, of j] assms(6) by (simp add: cnt grown_def prev cell)
  then have vis: "(j, int (fst (byte_cell ?sw (unat i))), rate, m) \<in> set (poll_visible v)"
    using map_of_SomeD [OF st] by (simp add: poll_state(11) [OF p] visible_of_def dget_def INACTIVITY_TIMEOUT_def)
  have "0 \<le> rate" unfolding rate_def using dt(2) by (intro round_double_nonneg divide_nonneg_pos) auto
  then obtain k where k: "fixed_signed 0 rate = dec_nat k" "\<bar>of_nat k - rate\<bar> \<le> 1 / 2" using printed_integer by blast
  have line: "''  0x'' @ hex_pad 3 (unat i) @ ''    '' @ pad_left 12 (dec_nat (unat (ctr_pkts (quic_flow_bytes ?sw i)))) @
      ''  '' @ pad_left 8 (dec_nat k) @ ''  '' @ pad_left 8 (fixed_signed 2 m) = cell_text (j, int (fst (byte_cell ?sw (unat i))), rate, m)"
    by (simp add: cell_text_def k(1) dec_int_nonneg byte_cell_def j_def)
  have "\<bar>of_nat k * (now - t0) - rate * (now - t0)\<bar> = \<bar>of_nat k - rate\<bar> * (now - t0)"
    using dt(1) by (simp flip: left_diff_distrib add: abs_mult)
  also have "\<dots> \<le> (now - t0) / 2" using mult_right_mono [OF k(2), of "now - t0"] dt(1) by simp
  finally have "\<bar>of_nat k * (now - t0) - rate * (now - t0)\<bar> \<le> (now - t0) / 2" .
  moreover have "\<bar>rate * (now - t0) - of_nat n\<bar> \<le> of_nat n / 2 ^ 50"
    using float_rate_error [OF dt(1), of "of_int (int n)"] unfolding rate_def of_int_of_nat_eq abs_of_nat .
  ultimately have "\<bar>of_nat k * (now - t0) - of_nat n\<bar> \<le> (now - t0) / 2 + of_nat n / 2 ^ 50" by linarith
  moreover have "bindE (poll_warm_up (Inr ents0) t0 (new_monitor t)) (poll_quic ts now (Inr ents1)) =
      Inr (st', bucket_lines ts (poll_visible v))"
    using poll_warm_up_total [OF uniform_indexed [OF assms(1)]] poll_quic_total [OF uniform_indexed [OF assms(2)] p] by simp
  moreover have "cell_text x \<in> set (bucket_lines ts (poll_visible v))" if "x \<in> set (poll_visible v)" for x
    using that by (auto simp: bucket_lines_def)
  ultimately show ?thesis using line vis by metis
qed

section \<open>Samples\<close>

text \<open>Hash units whose bucket hash is the CRC; entries of a counter with one pipe.\<close>

definition crc_hashes :: hashes where
  "crc_hashes = \<lparr>flow_hash = ucast, dcid_hash = (\<lambda>d. word_of_nat (bucket (be_bytes 20 d)))\<rparr>"

lemma crc_parity_crc_hashes: "crc_parity crc_hashes"
  by (simp add: crc_parity_def crc_hashes_def)

definition sample_entry :: "int \<Rightarrow> int \<Rightarrow> int \<Rightarrow> entry" where
  "sample_entry i p b = \<lparr>ent_key = [(CTR_INDEX, i)],
     ent_data = [(''$COUNTER_SPEC_PKTS'', RList [p]), (''$COUNTER_SPEC_BYTES'', RList [b])]\<rparr>"

definition cell_entries :: "switch \<Rightarrow> entry list" where
  "cell_entries sw = map (\<lambda>i. sample_entry (int i) (int (fst (byte_cell sw i))) (int (snd (byte_cell sw i)))) [0..<32768]"

lemma uniform_cell_entries:
  "uniform_entries ''$COUNTER_SPEC_PKTS'' ''$COUNTER_SPEC_BYTES'' 32768 (byte_cell sw) (cell_entries sw)"
proof -
  have "list_all2 (\<lambda>e i. map_of (ent_key e) CTR_INDEX = Some (int i) \<and>
      (\<exists>vs ws. ent_data e = [(''$COUNTER_SPEC_PKTS'', RList vs), (''$COUNTER_SPEC_BYTES'', RList ws)] \<and>
         sum_list vs = int (fst (byte_cell sw i)) \<and> sum_list ws = int (snd (byte_cell sw i)))) (cell_entries sw) [0..<32768]"
    by (auto simp: cell_entries_def list_all2_map1 sample_entry_def intro!: list_all2_refl)
  then show ?thesis
    unfolding uniform_entries_def by (intro conjI exI [of _ "[0..<32768]"]) (auto simp: PKT_NAMES_def BYTE_NAMES_def)
qed

definition sample_ticks :: "tick list" where
  "sample_ticks = [(1, Inr (Some [sample_entry 5 10 100])), (3, Inl ValueError), (4, Inr (Some [sample_entry 5 30 300]))]"

lemmas poll_eval = poll_def read_counter_def read_entry_def discover_fields_def pick_field_def PKT_NAMES_def BYTE_NAMES_def
  field_value_def sum_raw_def sample_entry_def stat_step_def visible_of_def new_monitor_def dget_def CTR_INDEX_def
  INACTIVITY_TIMEOUT_def

lemma round_double_numeral: "numeral n < (2 ^ 53 :: int) \<Longrightarrow> round_double (numeral n) = numeral n"
  using round_double_of_int [of "numeral n"] by simp

lemma round_double_1 [simp]: "round_double 1 = 1"
  using round_double_of_int [of 1] by simp

theorem rates_telescope_witness:
  "\<bar>rated 5 0 sample_ticks (snd (polls sample_ticks (new_monitor 0))) - 30\<bar> \<le> 30 / 2 ^ 50"
proof -
  have ck: "clock_ok (prev_time (new_monitor 0)) sample_ticks" by (simp add: sample_ticks_def new_monitor_def)
  have "prev_cell (fst (polls sample_ticks (new_monitor 0))) 5 = (30, 300)"
    by (simp add: sample_ticks_def poll_eval prev_cell_def Let_def)
  moreover have "held 5 sample_ticks (new_monitor 0) = [0, 10, 10, 30]"
    by (simp add: sample_ticks_def poll_eval prev_cell_def Let_def)
  ultimately show ?thesis
    using rates_telescope [OF ck prod.collapse [symmetric], of 5] by (simp add: new_monitor_def prev_cell_def dget_def)
qed

theorem visible_iff_recent_growth_witness:
  "5 \<in> fst ` set (poll_visible (snd (poll 9 (Inr (Some [sample_entry 5 30 300])) (fst (polls sample_ticks (new_monitor 0))))))
   \<and> 5 \<notin> fst ` set (poll_visible (snd (poll 20 (Inr (Some [sample_entry 5 30 300])) (fst (polls sample_ticks (new_monitor 0))))))"
proof -
  let ?a = "Inr (Some [sample_entry 5 30 300]) :: entry list option result"
  let ?st = "fst (polls sample_ticks (new_monitor 0))"
  have la: "last_active (new_monitor 0) = []" "prev_time (new_monitor 0) = 0" by (simp_all add: new_monitor_def)
  have ck: "clock_ok 0 (sample_ticks @ [(9, ?a)])" "clock_ok 0 (sample_ticks @ [(20, ?a)])"
    by (simp_all add: sample_ticks_def)
  have c: "counted ?a s 5 = Some (30, 300)" if "mon_fields s = (Some ''$COUNTER_SPEC_PKTS'', Some ''$COUNTER_SPEC_BYTES'')" for s
    by (simp add: counted_def that poll_eval Let_def)
  have f: "mon_fields ?st = (Some ''$COUNTER_SPEC_PKTS'', Some ''$COUNTER_SPEC_BYTES'')"
    by (simp add: sample_ticks_def poll_eval Let_def)
  have g: "growth_times 5 (sample_ticks @ [(t, ?a)]) (new_monitor 0) = [1, 4]" for t
    by (simp add: sample_ticks_def poll_eval Let_def counted_def grown_def prev_cell_def)
  show ?thesis
    using visible_iff_recent_growth [OF ck(1) _ la refl prod.collapse, of 5]
      visible_iff_recent_growth [OF ck(2) _ la refl prod.collapse, of 5] by (simp add: c [OF f] g)
qed

theorem screen_totals_are_complete_witness:
  "\<exists>ls tot pend. poll_screen (snd (poll 1 (Inr (Some [sample_entry 5 10 100, sample_entry 6 4 80]))
        (new_monitor 0\<lparr>ctr_dcid := [(5, ''ab'')], bucket_ckey := [(5, ''10.0.0.1:5'')]\<rparr>))) = Connections ls tot pend
     \<and> map line_client ls = [''10.0.0.1:5''] \<and> map (dn_pkt \<circ> line_conn) ls = [10]
     \<and> \<bar>dn_pkt tot + up_pkt tot + 4 - 14\<bar> \<le> ulps 4 * 14"
proof -
  let ?st = "new_monitor 0\<lparr>ctr_dcid := [(5, ''ab'')], bucket_ckey := [(5, ''10.0.0.1:5'')]\<rparr>"
  let ?p = "poll 1 (Inr (Some [sample_entry 5 10 100, sample_entry 6 4 80])) ?st"
  obtain m n where vis: "poll_visible (snd ?p) = [(5, 10, 10, m), (6, 4, 4, n)]"
    by (simp add: poll_eval Let_def round_double_numeral)
  note P = poll_state [OF prod.collapse [symmetric, of ?p]]
  have st': "ctr_dcid (fst ?p) = [(5, ''ab'')]" "bucket_ckey (fst ?p) = [(5, ''10.0.0.1:5'')]" "bucket_dir (fst ?p) = []"
    by (simp_all add: P(7,9,10), simp add: new_monitor_def)
  then obtain cs m' where g: "poll_groups (snd ?p) = (cs, 4, m')" and ne: "cs \<noteq> []" and ks: "dkeys cs = [''10.0.0.1:5'']"
    unfolding P(12) vis by (simp add: group_conns_def group_step_def dkeys_def Let_def dget_def float_add_def round_double_numeral)
  from ne obtain ls tot pend where s: "poll_screen (snd ?p) = Connections ls tot pend"
    unfolding P(13) g by (simp add: screen_of_def Let_def)
  have c: "conn_of (fst ?p) (poll_visible (snd ?p)) ''10.0.0.1:5'' = \<lparr>dn_pkt = 10, dn_mbps = float_add 0 m, up_pkt = 0, up_mbps = 0\<rparr>"
    by (simp add: conn_of_def vis client_cells_def known_def client_name_def downward_def st' dkeys_def dget_def float_total_def
        float_add_def round_double_numeral)
  note T = screen_totals_are_complete [OF prod.collapse [symmetric] g s]
  have "map line_client ls = [''10.0.0.1:5'']" "map line_conn ls = [conn_of (fst ?p) (poll_visible (snd ?p)) ''10.0.0.1:5'']"
    using T by (simp_all add: ks)
  moreover have "\<bar>dn_pkt tot + up_pkt tot + 4 - (\<Sum>x \<leftarrow> poll_visible (snd ?p). pkt_rate x)\<bar>
      \<le> ulps (2 * length (poll_visible (snd ?p))) * (\<Sum>x \<leftarrow> poll_visible (snd ?p). \<bar>pkt_rate x\<bar>)"
    using T by blast
  then have "\<bar>dn_pkt tot + up_pkt tot + 4 - 14\<bar> \<le> ulps 4 * 14" by (simp add: vis)
  ultimately show ?thesis using s c by auto
qed

lemma sample_parsed:
  "\<exists>hdr meta rest h. IngressParser (frame sample_hs) = Some (hdr, meta, rest) \<and> quic_long hdr = Some h \<and>
     long_dcid_len h = 8 \<and> long_dcid h = 0x0102030405060708090909090909090909090909"
  "\<exists>hdr meta rest h. IngressParser (frame (sample_short 85)) = Some (hdr, meta, rest) \<and> quic_short hdr = Some h \<and>
     tuple_of hdr = 0x0a0000010a000002c00001bb \<and> short_dcid h = 0x0102030405060708555555555555555555555555"
  by (simp_all add: sample_defs parser_eval tuple_of_def push_bit_eq_mult)

lemma sample_outcome:
  assumes "packet_view p = Some v"
  shows "\<exists>out dg. fst (pipe hs p empty_switch) = Some out \<and> digest out = Some dg"
proof -
  obtain out where out: "fst (pipe hs p empty_switch) = Some out" using pipe_quic_Some [OF assms] by blast
  with pipe_digest [of hs p empty_switch] assms show ?thesis
    by (auto simp: reported_digest_def)
qed

theorem monitor_names_the_bucket_witness:
  "\<exists>out dg. fst (pipe crc_hashes sample_hs empty_switch) = Some out \<and> digest out = Some dg
     \<and> map_of (bucket_dcid (on_quic_digest [digest_dict dg] (new_monitor 0))) (int (unat (bucket_id out))) =
         Some ''0102030405060708''"
proof -
  obtain out dg where o: "fst (pipe crc_hashes sample_hs empty_switch) = Some out" "digest out = Some dg"
    using sample_outcome [OF sample_views(1)] by blast
  obtain hdr meta rest h where p: "IngressParser (frame sample_hs) = Some (hdr, meta, rest)" "quic_long hdr = Some h"
    and h: "long_dcid_len h = 8" "long_dcid h = 0x0102030405060708090909090909090909090909"
    using sample_parsed(1) by blast
  have "hex (take 8 (be_bytes 20 (long_dcid h))) = ''0102030405060708''"
    by (simp add: h be_bytes_def upt_rec drop_bit_eq_div hex_def hex_byte_def hex_digit_def char_of_def bit_simps)
  then show ?thesis
    using monitor_names_the_bucket [OF crc_parity_crc_hashes _ p _ _ o, of "new_monitor 0"] o by (simp add: h)
qed

lemma sample_fresh_digest:
  assumes "packet_view p = Some v" "\<And>b. quic_pkt_count sw b = 0"
  shows "\<exists>out dg. fst (pipe hs p sw) = Some out \<and> digest out = Some dg"
proof -
  obtain out where out: "fst (pipe hs p sw) = Some out" using pipe_quic_Some [OF assms(1)] by blast
  with pipe_digest [of hs p sw] assms show ?thesis by (auto simp: reported_digest_def)
qed

theorem short_digest_takes_20_bytes_witness:
  "\<exists>out dg. let sw = empty_switch\<lparr>dcid_len_reg := (\<lambda>_. 8)\<rparr> in
     fst (pipe crc_hashes (sample_short 85) sw) = Some out \<and> digest out = Some dg
     \<and> unat (bucket_id out) = bucket [1, 2, 3, 4, 5, 6, 7, 8]
     \<and> map_of (bucket_dcid (on_quic_digest [digest_dict dg] (new_monitor 0)))
         (int (bucket ([1, 2, 3, 4, 5, 6, 7, 8] @ replicate 12 85))) \<noteq> None
     \<and> bucket [1, 2, 3, 4, 5, 6, 7, 8] \<noteq> bucket ([1, 2, 3, 4, 5, 6, 7, 8] @ replicate 12 85)"
proof -
  let ?sw = "empty_switch\<lparr>dcid_len_reg := (\<lambda>_. 8)\<rparr>"
  obtain out dg where o: "fst (pipe crc_hashes (sample_short 85) ?sw) = Some out" "digest out = Some dg"
    using sample_fresh_digest [OF sample_views(3), of ?sw crc_hashes] by auto
  obtain hdr meta rest h where p: "IngressParser (frame (sample_short 85)) = Some (hdr, meta, rest)" "quic_short hdr = Some h"
    and h: "short_dcid h = 0x0102030405060708555555555555555555555555"
    using sample_parsed(2) by blast
  have bs: "be_bytes 20 (short_dcid h) = [1, 2, 3, 4, 5, 6, 7, 8] @ replicate 12 85"
    by (simp add: h be_bytes_def upt_rec drop_bit_eq_div replicate_eval)
  have ne: "bucket [1, 2, 3, 4, 5, 6, 7, 8] \<noteq> bucket ([1, 2, 3, 4, 5, 6, 7, 8] @ replicate 12 85)"
    by (simp add: bucket_eq pad20_def replicate_eval crc_eval)
  have t: "take 8 ([1, 2, 3, 4, 5, 6, 7, 8] @ replicate 12 (85 :: byte)) = [1, 2, 3, 4, 5, 6, 7, 8]" by simp
  show ?thesis
    using short_digest_takes_20_bytes [OF crc_parity_crc_hashes _ p o, of 8 "new_monitor 0"] o ne
    by (simp add: bs Let_def del: append.simps)
qed

lemma sample_buckets:
  "map snd (buckets sample_hashes (views [sample_hs, sample_short 85]) empty_switch) = [0, 0]"
  by (simp add: sample_views view_bucket_def view_len_def learn_def mask_tbl_def set_mask_def sample_hashes_def
      push_bit_eq_mult slice32_def drop_bit_eq_div)

theorem displayed_rate_is_traffic_witness:
  "\<exists>st lines mbps.
     bindE (poll_warm_up (Inr (cell_entries empty_switch)) 1 (new_monitor 0))
       (poll_quic ''12:00:00'' (3 / 2) (Inr (cell_entries (snd (run_pipe sample_hashes [sample_hs, sample_short 85] empty_switch))))) = Inr (st, lines)
   \<and> ''  0x'' @ hex_pad 3 0 @ ''    '' @ pad_left 12 (dec_nat 2) @ ''  '' @ pad_left 8 (dec_nat 4) @ ''  '' @ mbps \<in> set lines"
proof -
  let ?b = "buckets sample_hashes (views [sample_hs, sample_short 85]) empty_switch"
  have n: "length [x \<leftarrow> ?b. ucast (snd x) = (0 :: 15 word)] = 2"
    using sample_buckets by (cases ?b; cases "tl ?b") auto
  have c: "unat (ctr_pkts (quic_flow_bytes (snd (run_pipe sample_hashes [sample_hs, sample_short 85] empty_switch)) 0)) = 2"
    using n by (simp only: run_pipe_state fold_observe_bytes) simp
  have k: "k = 4" if "\<bar>of_nat k * (3 / 2 - 1) - of_nat 2\<bar> \<le> (3 / 2 - 1) / 2 + (of_nat 2 :: rat) / 2 ^ 50" for k
  proof -
    have "\<bar>of_nat k / 2 - 2\<bar> < (1 / 2 :: rat)" using that by simp
    then have "(3 :: rat) < of_nat k" "of_nat k < (5 :: rat)" unfolding abs_less_iff by linarith+
    then have "3 < k" "k < 5" by simp_all
    then show ?thesis by linarith
  qed
  have "(1 :: rat) < 3 / 2" "(0 :: nat) < length [x \<leftarrow> ?b. ucast (snd x) = (0 :: 15 word)]"
    "unat (ctr_pkts (quic_flow_bytes empty_switch (0 :: 15 word))) + length [sample_hs, sample_short 85] < 2 ^ 64"
    unfolding n by simp_all
  from displayed_rate_is_traffic [OF uniform_cell_entries uniform_cell_entries this(1,3,2), of 0 "''12:00:00''"]
  show ?thesis unfolding n c unat_0 using k by metis
qed

section \<open>Displayed headers\<close>

lemma one_bit: "(x :: 1 word) = 1 \<longleftrightarrow> bit x 0"
proof
  assume "bit x 0"
  then show "x = 1" by (intro bit_word_eqI) simp
qed simp

lemma nat_bits:
  fixes w :: "8 word"
  shows "drop_bit k (unat w) AND 1 = (if bit w k then 1 else 0)"
    and "drop_bit k (unat w) AND 3 = unat (take_bit 2 (drop_bit k w))"
    and "unat w AND 3 = unat (take_bit 2 w)" "unat w AND 0x80 \<noteq> 0 \<longleftrightarrow> bit w 7"
proof -
  have "odd (drop_bit k (unat w)) \<longleftrightarrow> bit w k"
    using bit_unsigned_iff [of w k, where 'a = nat] by (auto simp: bit_iff_odd_drop_bit dest: bit_imp_le_length)
  then show "drop_bit k (unat w) AND 1 = (if bit w k then 1 else 0)"
    by (cases "bit w k") (auto simp: and_one_eq mod2_eq_if)
  have m: "n AND 3 = take_bit 2 n" for n :: nat by (simp add: take_bit_eq_mask mask_eq_exp_minus_1)
  show "drop_bit k (unat w) AND 3 = unat (take_bit 2 (drop_bit k w))" "unat w AND 3 = unat (take_bit 2 w)"
    unfolding m by (rule bit_eqI; auto simp: bit_simps bit_unsigned_iff dest: bit_imp_le_length)+
  show "unat w AND 0x80 \<noteq> 0 \<longleftrightarrow> bit w 7" using nat_form_bit [of w] by simp
qed

lemma long_fields:
  "bit (long_first_byte h) 7 = (long_form h = 1)" "bit (long_first_byte h) 6 = (long_fixed h = 1)"
  "take_bit 2 (drop_bit 4 (long_first_byte h)) = ucast (long_packet_type h)"
  "take_bit 2 (long_first_byte h) = ucast (long_pn_length h)"
proof -
  show "bit (long_first_byte h) 7 = (long_form h = 1)" "bit (long_first_byte h) 6 = (long_fixed h = 1)"
    by (auto simp: long_first_byte_def one_bit bit_simps dest: bit_imp_le_length)
  show "take_bit 2 (drop_bit 4 (long_first_byte h)) = ucast (long_packet_type h)"
  proof (rule bit_word_eqI)
    fix n :: nat
    consider "n = 0" | "n = 1" | "2 \<le> n" by linarith
    then show "bit (take_bit 2 (drop_bit 4 (long_first_byte h))) n = bit (ucast (long_packet_type h) :: 8 word) n"
      by cases (simp_all add: long_first_byte_def bit_simps, auto dest: bit_imp_le_length)
  qed
  show "take_bit 2 (long_first_byte h) = ucast (long_pn_length h)"
  proof (rule bit_word_eqI)
    fix n :: nat
    consider "n = 0" | "n = 1" | "2 \<le> n" by linarith
    then show "bit (take_bit 2 (long_first_byte h)) n = bit (ucast (long_pn_length h) :: 8 word) n"
      by cases (simp_all add: long_first_byte_def bit_simps, auto dest: bit_imp_le_length)
  qed
qed

lemma short_fields:
  "bit (short_first_byte k) 7 = (short_form k = 1)" "bit (short_first_byte k) 6 = (short_fixed k = 1)"
  "bit (short_first_byte k) 5 = (spin_bit k = 1)" "bit (short_first_byte k) 2 = (key_phase k = 1)"
  "take_bit 2 (short_first_byte k) = ucast (short_pn_length k)"
proof -
  show "bit (short_first_byte k) 7 = (short_form k = 1)" "bit (short_first_byte k) 6 = (short_fixed k = 1)"
    "bit (short_first_byte k) 5 = (spin_bit k = 1)" "bit (short_first_byte k) 2 = (key_phase k = 1)"
    by (auto simp: short_first_byte_def one_bit bit_simps dest: bit_imp_le_length)
  show "take_bit 2 (short_first_byte k) = ucast (short_pn_length k)"
  proof (rule bit_word_eqI)
    fix n :: nat
    consider "n = 0" | "n = 1" | "2 \<le> n" by linarith
    then show "bit (take_bit 2 (short_first_byte k)) n = bit (ucast (short_pn_length k) :: 8 word) n"
      by cases (simp_all add: short_first_byte_def bit_simps, auto dest: bit_imp_le_length)
  qed
qed

lemma unat_ucast_2: "unat (ucast (x :: 2 word) :: 8 word) = unat x"
  using unsigned_less [of x, where 'a = nat] by (simp add: unsigned_ucast_eq take_bit_nat_eq_self)

lemma nat_bits_eval:
  fixes w :: "8 word"
  shows "drop_bit k (unat w) mod 2 = (if bit w k then 1 else 0)" "unat w AND 0x80 = 0 \<longleftrightarrow> \<not> bit w 7"
    "0 < unat w AND 0x80 \<longleftrightarrow> bit w 7"
  using nat_bits(1) [of k w] nat_bits(4) [of w] by (auto simp: and_one_eq)

text \<open>
  C23. The display shows what was on the wire. For a digest that carries the first byte the switch rebuilt from a parsed
  header, the line printed by \<^verbatim>\<open>display_quic.py\<close> has the header form, packet type, fixed bit, spin
  bit, key phase and packet number length of that header, and the leading bytes of the
  connection ID field.
\<close>

theorem display_shows_the_header:
  assumes "dig_dcid_len dg \<le> 20"
  defines "cid \<equiv> hex (take (unat (dig_dcid_len dg)) (be_bytes 20 (dig_dcid dg)))"
  shows "(\<forall>h. dig_first_byte dg = long_first_byte h \<and> long_form h = 1 \<longrightarrow>
      (\<exists>ver c. display_digest dg =
         ShownLong (dget LONG_PKT_TYPES (unat (long_packet_type h)) ''Unknown'') ver c
         \<and> shown_fixed c = (if long_fixed h = 1 then ''ok'' else ''BAD'')
         \<and> shown_pn_len c = unat (long_pn_length h) + 1 \<and> shown_dcid c = cid))
    \<and> (\<forall>h. dig_first_byte dg = short_first_byte h \<and> short_form h = 0 \<longrightarrow>
      (\<exists>c. display_digest dg = ShownShort (if spin_bit h = 1 then 1 else 0) (if key_phase h = 1 then 1 else 0) c
         \<and> shown_fixed c = (if short_fixed h = 1 then ''ok'' else ''BAD'')
         \<and> shown_pn_len c = unat (short_pn_length h) + 1 \<and> shown_dcid c = cid))"
proof -
  have t: "truncate_dcid (unat (dig_dcid dg)) (unat (dig_dcid_len dg)) = cid"
    using assms(1) unfolding truncate_dcid_def cid_def by (intro hex_field) (simp add: word_le_nat_alt)
  show ?thesis
  proof (intro conjI allI impI)
    fix h assume "dig_first_byte dg = long_first_byte h \<and> long_form h = 1"
    then show "\<exists>ver c. display_digest dg =
         ShownLong (dget LONG_PKT_TYPES (unat (long_packet_type h)) ''Unknown'') ver c
         \<and> shown_fixed c = (if long_fixed h = 1 then ''ok'' else ''BAD'')
         \<and> shown_pn_len c = unat (long_pn_length h) + 1 \<and> shown_dcid c = cid"
      by (simp add: display_digest_def Let_def nat_bits nat_bits_eval long_fields unat_ucast_2 t)
  next
    fix h assume "dig_first_byte dg = short_first_byte h \<and> short_form h = 0"
    then show "\<exists>c. display_digest dg = ShownShort (if spin_bit h = 1 then 1 else 0) (if key_phase h = 1 then 1 else 0) c
         \<and> shown_fixed c = (if short_fixed h = 1 then ''ok'' else ''BAD'')
         \<and> shown_pn_len c = unat (short_pn_length h) + 1 \<and> shown_dcid c = cid"
      by (simp add: display_digest_def Let_def nat_bits nat_bits_eval short_fields unat_ucast_2 t)
  qed
qed

theorem display_shows_the_header_witness:
  "\<exists>ver c. display_digest \<lparr>ip_src = 0x0a000001, ip_dst = 0x0a000002, udp_src_port = 443, udp_dst_port = 50000,
        dig_first_byte = 0xe1, dig_dcid_len = 1, dig_version = 1,
        dig_dcid = 0xab00000000000000000000000000000000000000\<rparr> = ShownLong ''Handshake'' ver c
     \<and> shown_fixed c = ''ok'' \<and> shown_pn_len c = 2"
proof -
  let ?dg = "\<lparr>ip_src = 0x0a000001, ip_dst = 0x0a000002, udp_src_port = 443, udp_dst_port = 50000,
        dig_first_byte = 0xe1, dig_dcid_len = 1, dig_version = 1,
        dig_dcid = 0xab00000000000000000000000000000000000000\<rparr> :: quic_digest"
  let ?h = "\<lparr>long_form = 1, long_fixed = 1, long_packet_type = 2, long_reserved = 0, long_pn_length = 1, quic_ver = 1,
     long_dcid_len = 1, long_dcid = 0, scid_len = 0, scid = 0\<rparr>"
  have l: "dig_dcid_len ?dg \<le> 20" by simp
  have "dig_first_byte ?dg = long_first_byte ?h" by (simp add: long_first_byte_def push_bit_eq_mult)
  then show ?thesis
    using display_shows_the_header [OF l] by (auto dest!: spec [of _ ?h] simp: LONG_PKT_TYPES_def dget_def)
qed

lemma keys_update [simp]: "set (dkeys (AList.update k v d)) = insert k (set (dkeys d))"
  by (simp add: dkeys_def dom_update)

section \<open>Interleavings of callbacks and polls\<close>































end
