(* ===== verification/Ground_Truth.thy ===== *)
theory Ground_Truth
  imports Monitor Byte_Accounting
begin

text \<open>
  The two tools that take connection IDs from a dissector: \<^verbatim>\<open>analyze_pcap.py\<close> (per-DCID
  ground truth, expected buckets, comparison with the monitor's log) and
  \<^verbatim>\<open>endpoint_buckets.py\<close> (buckets seen at an end host). The dissector \<^verbatim>\<open>tshark\<close> is not part of
  the repository: its output is the argument \<open>raw\<close>, any text. Tables are kept as data;
  \<open>it\<close> is the iteration order of a Python set.
\<close>

section \<open>Text helpers\<close>

definition lower_char :: "char \<Rightarrow> char" where
  "lower_char c = (let n = of_char c :: nat in if 65 \<le> n \<and> n \<le> 90 then char_of (n + 32) else c)"

text \<open>\<^verbatim>\<open>s.lower()\<close> on ASCII text, \<^verbatim>\<open>s.replace(c, "")\<close>, and the order of Python strings.\<close>

definition lower :: "string \<Rightarrow> string" where
  "lower s = map lower_char s"

definition delete_char :: "char \<Rightarrow> string \<Rightarrow> string" where
  "delete_char c s = filter (\<lambda>x. x \<noteq> c) s"

definition codes :: "string \<Rightarrow> nat list" where
  "codes s = map of_char s"

section \<open>Parsing the dissector's output\<close>

type_synonym gt_flow = "string \<times> string \<times> string \<times> string"

record dcid_rec =
  gt_dcid :: string
  gt_len :: nat
  gt_count :: nat
  gt_versions :: "string set"
  gt_flow_of :: "gt_flow option"

type_synonym gt_state = "(gt_flow, nat) dict \<times> (string, dcid_rec) dict \<times> (string, gt_flow set) dict"

definition new_dcid :: "string \<Rightarrow> dcid_rec" where
  "new_dcid d = \<lparr>gt_dcid = d, gt_len = length d div 2, gt_count = 0, gt_versions = {}, gt_flow_of = None\<rparr>"

definition token_dcid :: "string \<Rightarrow> string" where
  "token_dcid token = lower (delete_char (CHR '':'') (strip token))"

definition gt_token :: "gt_flow \<Rightarrow> string \<Rightarrow> gt_state \<Rightarrow> string \<Rightarrow> gt_state" where
  "gt_token flow version st token =
     (case st of (flow_pkts, dcid_info, dcid_flows) \<Rightarrow>
        (let d = token_dcid token in
         if d = [] then st
         else
           (let r = dget dcid_info d (new_dcid d);
                r' = r\<lparr>gt_count := gt_count r + 1,
                       gt_versions := (if version \<noteq> [] then insert version (gt_versions r) else gt_versions r)\<rparr>
            in (flow_pkts, AList.update d r' dcid_info, dunion d {flow} dcid_flows))))"

definition gt_line :: "gt_state \<Rightarrow> string \<Rightarrow> gt_state" where
  "gt_line st line =
     (case split_on (CHR 0x09) line of
        _ # sip # dip # sport # dport # dcid_raw # version # _ # _ \<Rightarrow>
          (case st of (flow_pkts, dcid_info, dcid_flows) \<Rightarrow>
             (let flow = (sip, dip, sport, dport);
                  st' = (dadd flow 1 flow_pkts, dcid_info, dcid_flows)
              in if dcid_raw = [] then st'
                 else foldl (gt_token flow version) st' (split_on (CHR '','') dcid_raw)))
      | _ \<Rightarrow> st)"

definition attach_flow ::
  "(gt_flow set \<Rightarrow> gt_flow list) \<Rightarrow> (gt_flow, nat) dict \<Rightarrow> (string, dcid_rec) dict \<Rightarrow> string \<times> gt_flow set \<Rightarrow>
   (string, dcid_rec) dict result" where
  "attach_flow it flow_pkts dcid_info p =
     bindE (py_max (\<lambda>f. dget flow_pkts f 0) (it (snd p))) (\<lambda>primary.
       bindE (dlookup dcid_info (fst p)) (\<lambda>r.
         Inr (AList.update (fst p) (r\<lparr>gt_flow_of := Some primary\<rparr>) dcid_info)))"

definition parse_tshark ::
  "(gt_flow set \<Rightarrow> gt_flow list) \<Rightarrow> string \<Rightarrow> ((gt_flow, nat) dict \<times> (string, dcid_rec) dict) result" where
  "parse_tshark it raw =
     (let (flow_pkts, dcid_info, dcid_flows) = foldl gt_line ([], [], []) (splitlines raw)
      in mapE (Pair flow_pkts) (foldE (attach_flow it flow_pkts) dcid_info dcid_flows))"

section \<open>Report\<close>

record gt_row =
  gt_src :: string
  gt_dst :: string
  gt_row_dcid :: string
  gt_cid_len :: nat
  gt_pkts :: nat
  gt_bucket_17 :: string
  gt_bucket_10 :: string
  gt_p4_ok :: bool

definition bucket_text :: "nat \<Rightarrow> nat option \<Rightarrow> string" where
  "bucket_text w b = (case b of None \<Rightarrow> ''n/a'' | Some n \<Rightarrow> ''0x'' @ hex_pad w n)"

definition gt_row_of :: "gt_flow \<Rightarrow> dcid_rec \<Rightarrow> gt_row" where
  "gt_row_of flow d =
     (case flow of (sip, dip, sport, dport) \<Rightarrow>
        (let (b17, b10) = p4_buckets (gt_dcid d)
         in \<lparr>gt_src = sip @ '':'' @ sport, gt_dst = dip @ '':'' @ dport, gt_row_dcid = gt_dcid d,
             gt_cid_len = gt_len d, gt_pkts = gt_count d, gt_bucket_17 = bucket_text 5 b17,
             gt_bucket_10 = bucket_text 3 b10, gt_p4_ok = (gt_len d = 20)\<rparr>))"

definition by_flow ::
  "(gt_flow, dcid_rec list) dict \<Rightarrow> dcid_rec \<Rightarrow> (gt_flow, dcid_rec list) dict result" where
  "by_flow m d =
     (case gt_flow_of d of
        None \<Rightarrow> Inl KeyError
      | Some f \<Rightarrow> Inr (AList.update f (dget m f [] @ [d]) m))"

definition flow_codes :: "gt_flow \<Rightarrow> nat list list" where
  "flow_codes f = (case f of (a, b, c, d) \<Rightarrow> [codes a, codes b, codes c, codes d])"

definition gt_report ::
  "(gt_flow, nat) dict \<Rightarrow> (string, dcid_rec) dict \<Rightarrow> (gt_row list \<times> nat \<times> nat) result" where
  "gt_report flow_pkts dcid_info =
     mapE (\<lambda>flow_to_dcids.
         let gt_rows = concat (map (\<lambda>flow. map (gt_row_of flow) (sort_key (\<lambda>d. - int (gt_count d)) (dget flow_to_dcids flow [])))
               (sort_key flow_codes (dkeys flow_to_dcids)));
             ok = length (filter (\<lambda>d. gt_len d = 20) (dvalues dcid_info))
         in (gt_rows, ok, length dcid_info - ok))
       (foldE by_flow [] (dvalues dcid_info))"

text \<open>The comparison with the monitor's log; the log's contents, or \<open>None\<close> when it cannot be read.\<close>

record comparison =
  true_pos :: "string option set"
  false_neg :: "string option set"
  false_pos :: "string option set"
  recall :: "rat option"
  precision :: "rat option"

definition compare_with_p4 :: "gt_row list \<Rightarrow> string option \<Rightarrow> comparison option" where
  "compare_with_p4 gt_rows p4_csv =
     map_option (\<lambda>csv_text.
         let seen = {b. \<exists>r \<in> set (dict_rows csv_text). map_of r ''bucket_10'' = Some b};
             gt = (Some \<circ> gt_bucket_10) ` set gt_rows;
             gt_ok = (Some \<circ> gt_bucket_10) ` {r \<in> set gt_rows. gt_p4_ok r};
             tps = gt_ok \<inter> seen
         in \<lparr>true_pos = tps, false_neg = gt_ok - seen, false_pos = seen - gt,
             recall = (if gt_ok = {} then None else Some (100 * of_nat (card tps) / of_nat (card gt_ok))),
             precision = (if seen = {} then None else Some (100 * of_nat (card tps) / of_nat (card seen)))\<rparr>)
       p4_csv"

section \<open>Buckets at an end host\<close>

definition tshark_line :: "string \<Rightarrow> (string \<times> string \<times> string) list" where
  "tshark_line line =
     (case split_on (CHR ''|'') line of
        src # dst # dcids # _ \<Rightarrow>
          map (\<lambda>d. (src, dst, d))
            (filter (\<lambda>d. d \<noteq> []) (map (\<lambda>d. strip (delete_char (CHR '':'') d)) (split_on (CHR '','') dcids)))
      | _ \<Rightarrow> [])"

definition tshark_rows :: "string \<Rightarrow> (string \<times> string \<times> string) list" where
  "tshark_rows out = concat (map tshark_line (splitlines out))"

type_synonym agg = "(string \<times> string \<times> string, nat \<times> nat \<times> nat) dict"

definition agg_step :: "agg \<Rightarrow> string \<times> string \<times> string \<Rightarrow> agg result" where
  "agg_step agg row =
     (case row of (src, dst, d) \<Rightarrow>
        (let k = (d, src, dst); pkts = snd (snd (dget agg k (0, 0, 0))) in
         mapE (\<lambda>b. AList.update k (length d div 2, b, pkts + 1) agg) (p4_bucket d)))"

definition key_codes :: "string \<times> string \<times> string \<Rightarrow> nat list list" where
  "key_codes k = (case k of (a, b, c) \<Rightarrow> [codes a, codes b, codes c])"

definition endpoint_csv :: "agg \<Rightarrow> string" where
  "endpoint_csv agg =
     ''dcid_hex,len,src,dst,bucket,pkts'' @ [CHR 0x0A] @
     concat (map (\<lambda>((d, src, dst), len, b, pkts).
         d @ '','' @ dec_nat len @ '','' @ src @ '','' @ dst @ '','' @ dec_nat b @ '','' @ dec_nat pkts @ [CHR 0x0A])
       (sort_key (key_codes \<circ> fst) agg))"

definition endpoint_buckets :: "string \<Rightarrow> (agg \<times> string \<times> nat list) result" where
  "endpoint_buckets out =
     mapE (\<lambda>agg. (agg, endpoint_csv agg, sort (remdups (map (\<lambda>(_, b, _). b) (dvalues agg)))))
       (foldE agg_step [] (tshark_rows out))"

section \<open>Accounting\<close>

text \<open>The lines with at least eight fields, and the connection IDs a line names.\<close>

definition gt_fields :: "string \<Rightarrow> bool" where
  "gt_fields line \<longleftrightarrow> 8 \<le> length (split_on (CHR 0x09) line)"

definition line_dcids :: "string \<Rightarrow> string list" where
  "line_dcids line =
     (if gt_fields line then filter (\<lambda>d. d \<noteq> []) (map token_dcid (split_on (CHR '','') (split_on (CHR 0x09) line ! 5))) else [])"

definition gt_inv :: "gt_state \<Rightarrow> bool" where
  "gt_inv st \<longleftrightarrow>
     (case st of (flow_pkts, dcid_info, dcid_flows) \<Rightarrow>
        dict_ok flow_pkts \<and> dict_ok dcid_info \<and> dict_ok dcid_flows \<and> set (dkeys dcid_flows) = set (dkeys dcid_info) \<and>
        (\<forall>d r. map_of dcid_info d = Some r \<longrightarrow> gt_dcid r = d) \<and>
        (\<forall>d fs. map_of dcid_flows d = Some fs \<longrightarrow> finite fs \<and> fs \<noteq> {}))"

definition gt_total :: "gt_state \<Rightarrow> nat" where
  "gt_total st = sum_list (map gt_count (dvalues (fst (snd st))))"

lemma sum_counts_update:
  fixes w :: "'v \<Rightarrow> nat"
  assumes "dict_ok d" "w z = 0"
  shows "sum_list (map w (dvalues (AList.update k v d))) + w (dget d k z) = sum_list (map w (dvalues d)) + w v"
  using assms(1)
proof (induction d)
  case (Cons p d)
  obtain k' v' where p: "p = (k', v')" by (cases p)
  have "k \<notin> fst ` set d \<Longrightarrow> dget d k z = z" by (simp add: dget_def map_of_eq_None_iff [symmetric])
  with Cons assms(2) show ?case by (auto simp: p dvalues_def dget_def dict_ok_def)
qed (simp add: dvalues_def dget_def assms(2))

lemma gt_inv_update:
  "gt_inv (fp, di, df) \<Longrightarrow> gt_dcid r = d \<Longrightarrow> finite fs \<Longrightarrow> fs \<noteq> {} \<Longrightarrow>
   gt_inv (fp, AList.update d r di, AList.update d fs df)"
  by (simp add: gt_inv_def map_of_update)

lemma gt_token_inv:
  assumes "gt_inv st"
  shows "gt_inv (gt_token flow version st token)"
    and "gt_total (gt_token flow version st token) = gt_total st + (if token_dcid token = [] then 0 else 1)"
    and "fst (gt_token flow version st token) = fst st"
proof -
  obtain fp di df where st: "st = (fp, di, df)" by (cases st)
  let ?d = "token_dcid token"
  have ok: "dict_ok di" "dict_ok df" using assms by (simp_all add: st gt_inv_def)
  have key: "gt_dcid (dget di ?d (new_dcid ?d)) = ?d"
    using assms by (simp add: st gt_inv_def dget_def new_dcid_def split: option.split)
  have fin: "finite (dget df ?d {})"
    using assms by (simp add: st gt_inv_def dget_def split: option.split)
  have z: "gt_count (new_dcid ?d) = 0" by (simp add: new_dcid_def)
  have upd: "\<exists>r. gt_token flow version st token = (fp, AList.update ?d r di, AList.update ?d (dget df ?d {} \<union> {flow}) df) \<and>
      gt_dcid r = ?d \<and> gt_count r = gt_count (dget di ?d (new_dcid ?d)) + 1" if "?d \<noteq> []"
    using that key
    by (intro exI [of _ "dget di ?d (new_dcid ?d)\<lparr>gt_count := gt_count (dget di ?d (new_dcid ?d)) + 1,
        gt_versions := (if version \<noteq> [] then insert version (gt_versions (dget di ?d (new_dcid ?d)))
          else gt_versions (dget di ?d (new_dcid ?d)))\<rparr>"]) (simp add: st gt_token_def Let_def dunion_def)
  have skip: "gt_token flow version st token = st" if "?d = []" using that by (simp add: st gt_token_def)
  show "gt_inv (gt_token flow version st token)"
    using upd skip gt_inv_update [OF assms [unfolded st]] fin assms by (cases "?d = []") auto
  show "gt_total (gt_token flow version st token) = gt_total st + (if ?d = [] then 0 else 1)"
  proof (cases "?d = []")
    case False
    then obtain r where "gt_token flow version st token = (fp, AList.update ?d r di, AList.update ?d (dget df ?d {} \<union> {flow}) df)"
      "gt_count r = gt_count (dget di ?d (new_dcid ?d)) + 1" using upd by blast
    with False sum_counts_update [OF ok(1), of gt_count "new_dcid ?d" ?d r, OF z] show ?thesis
      by (simp add: st gt_total_def)
  qed (use skip in simp)
  show "fst (gt_token flow version st token) = fst st" by (simp add: st gt_token_def Let_def)
qed

lemma fold_gt_token:
  "gt_inv st \<Longrightarrow> gt_inv (foldl (gt_token flow version) st tokens) \<and>
     gt_total (foldl (gt_token flow version) st tokens) =
       gt_total st + length (filter (\<lambda>d. d \<noteq> []) (map token_dcid tokens)) \<and>
     fst (foldl (gt_token flow version) st tokens) = fst st"
  by (induction tokens arbitrary: st) (auto simp: gt_token_inv)

lemma split_fields:
  assumes "8 \<le> length xs"
  shows "\<exists>a b c d e f g h rest. xs = a # b # c # d # e # f # g # h # rest"
proof -
  have "length xs = Suc (Suc (Suc (Suc (Suc (Suc (Suc (Suc (length xs - 8))))))))" using assms by simp
  then show ?thesis by (simp add: length_Suc_conv) blast
qed

lemma gt_line_inv:
  assumes "gt_inv st"
  shows "gt_inv (gt_line st line) \<and> gt_total (gt_line st line) = gt_total st + length (line_dcids line)
    \<and> sum_list (dvalues (fst (gt_line st line))) = sum_list (dvalues (fst st)) + (if gt_fields line then 1 else 0)"
proof (cases "gt_fields line")
  case True
  then obtain a b c d e f g h rest where sp: "split_on (CHR 0x09) line = a # b # c # d # e # f # g # h # rest"
    using split_fields [of "split_on (CHR 0x09) line"] by (auto simp: gt_fields_def)
  obtain fp di df where st: "st = (fp, di, df)" by (cases st)
  let ?st = "(dadd (b, c, d, e) 1 fp, di, df)"
  have ok: "gt_inv ?st" using assms by (simp add: st gt_inv_def)
  have "sum_list (dvalues (dadd (b, c, d, e) 1 fp)) = sum_list (dvalues fp) + 1"
    using assms by (simp add: st gt_inv_def sum_list_dadd)
  moreover have "gt_line st line = (if f = [] then ?st else foldl (gt_token (b, c, d, e) g) ?st (split_on (CHR '','') f))"
    by (simp add: gt_line_def sp st Let_def)
  moreover have "line_dcids line = filter (\<lambda>d. d \<noteq> []) (map token_dcid (split_on (CHR '','') f))"
    using True by (simp add: line_dcids_def sp)
  moreover have "token_dcid [] = []" by (simp add: token_dcid_def lower_def delete_char_def strip_def)
  moreover have "gt_total ?st = gt_total st" by (simp add: gt_total_def st)
  ultimately show ?thesis
    using True ok fold_gt_token [OF ok, of "(b, c, d, e)" g "split_on (CHR '','') f"] by (simp add: st)
next
  case False
  then have "gt_line st line = st"
    by (auto simp: gt_line_def gt_fields_def split: list.split)
  with False assms show ?thesis by (simp add: line_dcids_def)
qed

lemma fold_gt_line:
  "gt_inv st \<Longrightarrow> gt_inv (foldl gt_line st ls) \<and>
     gt_total (foldl gt_line st ls) = gt_total st + length (concat (map line_dcids ls)) \<and>
     sum_list (dvalues (fst (foldl gt_line st ls))) = sum_list (dvalues (fst st)) + length (filter gt_fields ls)"
  by (induction ls arbitrary: st) (auto simp: gt_line_inv)

section \<open>The report never fails\<close>

text \<open>Attaching a flow changes nothing but the flow.\<close>

definition unflowed :: "(string, dcid_rec) dict \<Rightarrow> (string, dcid_rec) dict" where
  "unflowed di = map (\<lambda>(k, r). (k, r\<lparr>gt_flow_of := None\<rparr>)) di"

definition flowed :: "(string, dcid_rec) dict \<Rightarrow> string set" where
  "flowed di = {d. \<exists>r. map_of di d = Some r \<and> gt_flow_of r \<noteq> None}"

lemma unflowed_update:
  "map_of di d = Some r \<Longrightarrow> unflowed (AList.update d (r\<lparr>gt_flow_of := x\<rparr>) di) = unflowed di"
  unfolding unflowed_def by (induction di) (auto split: if_splits)

lemma flowed_update: "flowed (AList.update d (r\<lparr>gt_flow_of := Some x\<rparr>) di) = insert d (flowed di)"
  by (cases x) (auto simp: flowed_def map_of_update)

lemma unflowed_keys: "unflowed a = unflowed b \<Longrightarrow> dkeys a = dkeys b"
proof -
  have "dkeys (unflowed d) = dkeys d" for d by (simp add: unflowed_def dkeys_def case_prod_beta)
  then show "unflowed a = unflowed b \<Longrightarrow> dkeys a = dkeys b" by metis
qed

lemma fold_attach:
  assumes "enumerates it" "\<forall>(d, fs) \<in> set df. d \<in> set (dkeys di) \<and> finite fs \<and> fs \<noteq> {}"
  shows "\<exists>di'. foldE (attach_flow it fp) di df = Inr di' \<and> unflowed di' = unflowed di \<and> flowed di' = set (dkeys df) \<union> flowed di"
  using assms(2)
proof (induction df arbitrary: di)
  case (Cons p df)
  obtain d fs where p: "p = (d, fs)" by (cases p)
  have "set (it fs) = fs" "fs \<noteq> {}" using Cons.prems assms(1) by (auto simp: p enumerates_def)
  then obtain x where x: "py_max (\<lambda>f. dget fp f 0) (it fs) = Inr x" using py_max_in [of "it fs"] by force
  have "map_of di d \<noteq> None" using Cons.prems by (simp add: p map_of_eq_None_iff dkeys_def)
  then obtain r where r: "map_of di d = Some r" by blast
  let ?di = "AList.update d (r\<lparr>gt_flow_of := Some x\<rparr>) di"
  have u: "unflowed ?di = unflowed di" using r by (rule unflowed_update)
  then have "\<forall>(d, fs) \<in> set df. d \<in> set (dkeys ?di) \<and> finite fs \<and> fs \<noteq> {}"
    using Cons.prems unflowed_keys [OF u] by auto
  from Cons.IH [OF this] u show ?case
    by (auto simp: attach_flow_def p x r flowed_update dkeys_def)
qed (simp add: dkeys_def)

lemma fold_by_flow:
  assumes "\<forall>d \<in> set ds. gt_flow_of d \<noteq> None" "dict_ok m"
  shows "\<exists>m'. foldE by_flow m ds = Inr m' \<and> dict_ok m' \<and>
    mset (concat (dvalues m')) = mset (concat (dvalues m)) + mset ds"
  using assms
proof (induction ds arbitrary: m)
  case (Cons d ds)
  then obtain f where f: "gt_flow_of d = Some f" by auto
  let ?m = "AList.update f (dget m f [] @ [d]) m"
  have "mset (concat (dvalues ?m)) = mset (concat (dvalues m)) + {#d#}"
    using Cons.prems(2) by (induction m) (auto simp: dvalues_def dget_def dict_ok_def split: if_splits dest: map_of_SomeD)
  with Cons.IH [of ?m] Cons.prems show ?case by (auto simp: by_flow_def f)
qed simp

lemma concat_sorted_groups:
  assumes "dict_ok m"
  shows "mset (concat (map (\<lambda>k. sort_key g (dget m k [])) (sort_key h (dkeys m)))) = mset (concat (dvalues m))"
proof -
  have "mset (concat (map (\<lambda>k. sort_key g (dget m k [])) xs)) = sum_mset (image_mset (\<lambda>k. mset (dget m k [])) (mset xs))" for xs
    by (induction xs) simp_all
  then have "mset (concat (map (\<lambda>k. sort_key g (dget m k [])) (sort_key h (dkeys m)))) =
      sum_mset (image_mset (\<lambda>k. mset (dget m k [])) (mset (dkeys m)))" by simp
  also have "\<dots> = sum_list (map (\<lambda>k. mset (dget m k [])) (dkeys m))" by (simp only: mset_map [symmetric] sum_mset_sum_list)
  also have "map (\<lambda>k. mset (dget m k [])) (dkeys m) = map mset (dvalues m)"
    using assms by (auto simp: dkeys_def dvalues_def dget_def dict_ok_def)
  also have "sum_list (map mset (dvalues m)) = mset (concat (dvalues m))"
    by (induction "dvalues m") (simp_all add: mset_concat)
  finally show ?thesis .
qed

lemma gt_inv_flows:
  assumes "gt_inv (flows, di, df)"
  shows "\<forall>(d, fs) \<in> set df. d \<in> set (dkeys di) \<and> finite fs \<and> fs \<noteq> {}"
proof (rule ballI, clarify)
  fix d fs assume "(d, fs) \<in> set df"
  moreover have "distinct (map fst df)" using assms by (simp add: gt_inv_def dict_ok_def)
  ultimately have "map_of df d = Some fs" by (rule map_of_is_SomeI [rotated])
  moreover have "d \<in> set (dkeys df)" using \<open>(d, fs) \<in> set df\<close> by (force simp: dkeys_def)
  ultimately show "d \<in> set (dkeys di) \<and> finite fs \<and> fs \<noteq> {}" using assms by (simp add: gt_inv_def)
qed

lemma unflowed_values:
  assumes "unflowed info = unflowed di" "\<And>r x. f (r\<lparr>gt_flow_of := x\<rparr>) = f r"
  shows "map f (dvalues info) = map f (dvalues di)"
proof -
  have "map f (dvalues d) = map (\<lambda>(k, r). f r) (unflowed d)" for d
    by (simp add: unflowed_def dvalues_def case_prod_beta assms(2))
  then show ?thesis using assms(1) by metis
qed

lemma flowed_values:
  assumes "dict_ok info" "set (dkeys info) \<subseteq> flowed info"
  shows "\<forall>r \<in> set (dvalues info). gt_flow_of r \<noteq> None"
proof
  fix r assume "r \<in> set (dvalues info)"
  then obtain d where "(d, r) \<in> set info" by (auto simp: dvalues_def)
  moreover from this have "d \<in> set (dkeys info)" by (force simp: dkeys_def)
  ultimately have "map_of info d = Some r" "d \<in> flowed info" using assms by (auto simp: dict_ok_def)
  then show "gt_flow_of r \<noteq> None" by (simp add: flowed_def)
qed

lemma parse_tshark_complete:
  assumes "enumerates it"
  shows "\<exists>flows info. parse_tshark it raw = Inr (flows, info) \<and> dict_ok info
    \<and> (\<forall>r \<in> set (dvalues info). gt_flow_of r \<noteq> None) \<and> map gt_dcid (dvalues info) = dkeys info
    \<and> sum_list (map gt_count (dvalues info)) = length (concat (map line_dcids (splitlines raw)))
    \<and> sum_list (dvalues flows) = length (filter gt_fields (splitlines raw))"
proof -
  obtain flows di df where st: "foldl gt_line ([], [], []) (splitlines raw) = (flows, di, df)"
    by (cases "foldl gt_line ([], [], []) (splitlines raw)")
  have "gt_inv ([], [], [])" by (simp add: gt_inv_def dict_ok_def dkeys_def)
  from fold_gt_line [OF this, of "splitlines raw"]
  have inv: "gt_inv (flows, di, df)" and tot: "sum_list (map gt_count (dvalues di)) = length (concat (map line_dcids (splitlines raw)))"
    and fl: "sum_list (dvalues flows) = length (filter gt_fields (splitlines raw))"
    by (simp_all add: st gt_total_def dvalues_def)
  from fold_attach [OF assms gt_inv_flows [OF inv], of flows] obtain info
    where info: "foldE (attach_flow it flows) di df = Inr info"
      "unflowed info = unflowed di" "flowed info = set (dkeys df) \<union> flowed di" by blast
  have keys: "dkeys info = dkeys di" using unflowed_keys [OF info(2)] .
  have dk: "dict_ok info" using inv keys by (simp add: gt_inv_def dict_ok_def dkeys_def)
  have flow: "\<forall>r \<in> set (dvalues info). gt_flow_of r \<noteq> None"
    using inv info(3) keys by (intro flowed_values [OF dk]) (simp add: gt_inv_def)
  have "map gt_dcid (dvalues di) = dkeys di" using inv by (auto simp: gt_inv_def dvalues_def dkeys_def dict_ok_def)
  then have names: "map gt_dcid (dvalues info) = dkeys info" using unflowed_values [OF info(2), of gt_dcid] keys by simp
  have "parse_tshark it raw = Inr (flows, info)" by (simp add: parse_tshark_def st info(1))
  with dk flow names fl tot unflowed_values [OF info(2), of gt_count] show ?thesis by simp
qed

lemma gt_report_rows:
  assumes "dict_ok info" "\<forall>r \<in> set (dvalues info). gt_flow_of r \<noteq> None" "map gt_dcid (dvalues info) = dkeys info"
  shows "\<exists>gt_rows ok wrong. gt_report flows info = Inr (gt_rows, ok, wrong)
    \<and> mset (map gt_row_dcid gt_rows) = mset (dkeys info)
    \<and> sum_list (map gt_pkts gt_rows) = sum_list (map gt_count (dvalues info)) \<and> ok + wrong = length gt_rows"
proof -
  have "dict_ok ([] :: (gt_flow, dcid_rec list) dict)" by (simp add: dict_ok_def)
  from fold_by_flow [OF assms(2) this] obtain m where m: "foldE by_flow [] (dvalues info) = Inr m" "dict_ok m"
    "mset (concat (dvalues m)) = mset (dvalues info)" by (auto simp: dvalues_def)
  let ?ds = "concat (map (\<lambda>k. sort_key (\<lambda>d. - int (gt_count d)) (dget m k [])) (sort_key flow_codes (dkeys m)))"
  let ?rows = "concat (map (\<lambda>flow. map (gt_row_of flow) (sort_key (\<lambda>d. - int (gt_count d)) (dget m flow []))) (sort_key flow_codes (dkeys m)))"
  let ?ok = "length (filter (\<lambda>d. gt_len d = 20) (dvalues info))"
  have rep: "gt_report flows info = Inr (?rows, ?ok, length info - ?ok)" by (simp add: gt_report_def m(1) Let_def)
  have ds: "mset ?ds = mset (dvalues info)" using concat_sorted_groups [OF m(2)] m(3) by simp
  have r: "gt_row_dcid (gt_row_of f d) = gt_dcid d" "gt_pkts (gt_row_of f d) = gt_count d" for f d
    by (simp_all add: gt_row_of_def split: prod.split)
  have "map gt_row_dcid ?rows = map gt_dcid ?ds" "map gt_pkts ?rows = map gt_count ?ds"
    by (simp_all add: map_concat comp_def r)
  moreover have "mset (map gt_dcid ?ds) = mset (map gt_dcid (dvalues info))" "mset (map gt_count ?ds) = mset (map gt_count (dvalues info))"
    using ds by (simp_all only: mset_map)
  moreover have "length ?rows = length info"
    using arg_cong [OF ds, of size] by (simp add: length_concat comp_def dvalues_def)
  moreover have "?ok \<le> length info" using length_filter_le [of _ "dvalues info"] by (simp add: dvalues_def)
  ultimately have "mset (map gt_row_dcid ?rows) = mset (dkeys info)" "?ok + (length info - ?ok) = length ?rows"
    and "sum_list (map gt_pkts ?rows) = sum_list (map gt_count (dvalues info))"
    using assms(3) by (simp_all only: sum_mset_sum_list [symmetric] le_add_diff_inverse)
  with rep show ?thesis by blast
qed

text \<open>
  C28. The ground truth is complete. For every text the dissector may print, parsing and report do not fail:
  the table has exactly one row per distinct connection ID, the packet counts of the rows add up to the number of connection IDs named in
  the text, the flow counts add up to the number of lines with all fields, and the two figures of the summary add up to the number
  of rows.
\<close>

theorem ground_truth_is_complete:
  assumes "enumerates it"
  shows "\<exists>flows info gt_rows ok wrong.
    parse_tshark it raw = Inr (flows, info) \<and> gt_report flows info = Inr (gt_rows, ok, wrong)
    \<and> mset (map gt_row_dcid gt_rows) = mset (dkeys info) \<and> distinct (map gt_row_dcid gt_rows)
    \<and> sum_list (map gt_pkts gt_rows) = length (concat (map line_dcids (splitlines raw)))
    \<and> sum_list (dvalues flows) = length (filter gt_fields (splitlines raw))
    \<and> ok + wrong = length gt_rows"
proof -
  from parse_tshark_complete [OF assms, of raw] obtain flows info where p: "parse_tshark it raw = Inr (flows, info)" "dict_ok info"
    "\<forall>r \<in> set (dvalues info). gt_flow_of r \<noteq> None" "map gt_dcid (dvalues info) = dkeys info"
    "sum_list (map gt_count (dvalues info)) = length (concat (map line_dcids (splitlines raw)))"
    "sum_list (dvalues flows) = length (filter gt_fields (splitlines raw))" by blast
  from gt_report_rows [OF p(2-4), of flows] obtain gt_rows ok wrong where r: "gt_report flows info = Inr (gt_rows, ok, wrong)"
    "mset (map gt_row_dcid gt_rows) = mset (dkeys info)" "sum_list (map gt_pkts gt_rows) = sum_list (map gt_count (dvalues info))"
    "ok + wrong = length gt_rows" by blast
  have "distinct (map gt_row_dcid gt_rows)"
    using p(2) mset_eq_imp_distinct_iff [OF r(2)] by (simp add: dict_ok_def dkeys_def)
  with p(1,5,6) r show ?thesis by auto
qed

text \<open>One order in which a set of flows can be iterated: that of the character codes.\<close>

definition flow_order :: "gt_flow set \<Rightarrow> gt_flow list" where
  "flow_order S =
     map (\<lambda>cs. (map char_of (cs ! 0), map char_of (cs ! 1), map char_of (cs ! 2), map char_of (cs ! 3)))
       (sorted_list_of_set (flow_codes ` S))"

lemma enumerates_flow_order: "enumerates flow_order"
proof -
  let ?dec = "\<lambda>cs :: nat list list. (map char_of (cs ! 0), map char_of (cs ! 1), map char_of (cs ! 2), map char_of (cs ! 3)) :: gt_flow"
  have c: "map char_of (codes s) = s" for s by (simp add: codes_def comp_def)
  have dec: "?dec (flow_codes f) = f" for f by (cases f) (simp add: flow_codes_def c)
  have "inj_on ?dec (flow_codes ` S)" for S by (rule inj_on_inverseI [where g = flow_codes]) (elim imageE, simp only: dec)
  moreover have "?dec ` flow_codes ` S = S" for S by (simp only: image_image dec image_ident)
  ultimately show ?thesis by (simp add: enumerates_def flow_order_def distinct_map)
qed

definition sample_tshark :: string where
  "sample_tshark = ''1	10.0.0.1	10.0.0.2	50000	443	AB:CD,ef	0x1	90'' @ [CHR 0x0A] @ ''2	10.0.0.2	10.0.0.1	443	50000		0x1	90''"

theorem ground_truth_is_complete_witness:
  "\<exists>flows info gt_rows ok wrong.
    parse_tshark flow_order sample_tshark = Inr (flows, info) \<and> gt_report flows info = Inr (gt_rows, ok, wrong)
    \<and> sum_list (map gt_pkts gt_rows) = 2 \<and> sum_list (dvalues flows) = 2"
proof -
  have "splitlines sample_tshark =
      [''1	10.0.0.1	10.0.0.2	50000	443	AB:CD,ef	0x1	90'', ''2	10.0.0.2	10.0.0.1	443	50000		0x1	90'']"
    by (simp add: sample_tshark_def is_linebreak_def)
  moreover have "length (line_dcids ''1	10.0.0.1	10.0.0.2	50000	443	AB:CD,ef	0x1	90'') = 2"
    "length (line_dcids ''2	10.0.0.2	10.0.0.1	443	50000		0x1	90'') = 0"
    "gt_fields ''1	10.0.0.1	10.0.0.2	50000	443	AB:CD,ef	0x1	90''" "gt_fields ''2	10.0.0.2	10.0.0.1	443	50000		0x1	90''"
    by (simp_all add: line_dcids_def gt_fields_def token_dcid_def lower_def delete_char_def strip_def is_space_def)
  ultimately show ?thesis
    using ground_truth_is_complete [OF enumerates_flow_order, of sample_tshark] by fastforce
qed

section \<open>Comparison and endpoints\<close>

lemma finite_seen: "finite {b. \<exists>r \<in> set (dict_rows t). map_of r k = Some b}"
proof -
  have "{b. \<exists>r \<in> set (dict_rows t). map_of r k = Some b} \<subseteq> (\<lambda>r. the (map_of r k)) ` set (dict_rows t)" by force
  then show ?thesis by (rule finite_subset) simp
qed

lemma percent_bounds:
  assumes "A \<subseteq> B" "finite B" "B \<noteq> {}"
  shows "0 \<le> 100 * of_nat (card A) / (of_nat (card B) :: rat) \<and> 100 * of_nat (card A) / (of_nat (card B) :: rat) \<le> 100"
proof -
  have "card A \<le> card B" "0 < card B" using assms by (simp_all add: card_mono card_gt_0_iff)
  then show ?thesis by (simp add: divide_le_eq)
qed

lemma percent_full:
  assumes "A \<subseteq> B" "finite B" "B \<noteq> {}"
  shows "100 * of_nat (card A) / (of_nat (card B) :: rat) = 100 \<longleftrightarrow> A = B"
proof -
  have "0 < card B" using assms by (simp add: card_gt_0_iff)
  then have "100 * of_nat (card A) / (of_nat (card B) :: rat) = 100 \<longleftrightarrow> card A = card B"
    by (simp add: divide_eq_eq)
  then show ?thesis using assms card_subset_eq by blast
qed

text \<open>
  The comparison with the monitor's log. Whatever the log contains, recall and precision are percentages between 0
  and 100; recall is printed exactly when some connection ID is expected to be found, and is 100 exactly when nothing was missed; found
  and missed buckets together are the expected ones.
\<close>

theorem comparison_figures:
  assumes "compare_with_p4 gt_rows (Some log_csv) = Some c"
  shows "true_pos c \<union> false_neg c = (Some \<circ> gt_bucket_10) ` {r \<in> set gt_rows. gt_p4_ok r}
    \<and> true_pos c \<inter> false_neg c = {} \<and> true_pos c \<inter> false_pos c = {}
    \<and> (recall c = None \<longleftrightarrow> (\<forall>r \<in> set gt_rows. \<not> gt_p4_ok r))
    \<and> (\<forall>x. recall c = Some x \<longrightarrow> 0 \<le> x \<and> x \<le> 100 \<and> (x = 100 \<longleftrightarrow> false_neg c = {}))
    \<and> (\<forall>x. precision c = Some x \<longrightarrow> 0 \<le> x \<and> x \<le> 100)"
proof -
  let ?seen = "{b. \<exists>r \<in> set (dict_rows log_csv). map_of r ''bucket_10'' = Some b}"
  let ?gt = "(Some \<circ> gt_bucket_10) ` set gt_rows"
  let ?ok = "(Some \<circ> gt_bucket_10) ` {r \<in> set gt_rows. gt_p4_ok r}"
  have c: "true_pos c = ?ok \<inter> ?seen" "false_neg c = ?ok - ?seen" "false_pos c = ?seen - ?gt"
    "recall c = (if ?ok = {} then None else Some (100 * of_nat (card (?ok \<inter> ?seen)) / of_nat (card ?ok)))"
    "precision c = (if ?seen = {} then None else Some (100 * of_nat (card (?ok \<inter> ?seen)) / of_nat (card ?seen)))"
    using assms [unfolded compare_with_p4_def Let_def option.map option.inject, symmetric]
    by (simp_all only: comparison.select_convs)
  have fin: "finite ?ok" "finite ?seen" by (simp_all add: finite_seen)
  have full: "100 * of_nat (card (?ok \<inter> ?seen)) / (of_nat (card ?ok) :: rat) = 100 \<longleftrightarrow> ?ok - ?seen = {}" if "?ok \<noteq> {}"
    using percent_full [OF _ fin(1) that, of "?ok \<inter> ?seen"] by blast
  show ?thesis
  proof (intro conjI allI impI)
    show "true_pos c \<union> false_neg c = ?ok" "true_pos c \<inter> false_neg c = {}" "true_pos c \<inter> false_pos c = {}"
      unfolding c by blast+
    show "recall c = None \<longleftrightarrow> (\<forall>r \<in> set gt_rows. \<not> gt_p4_ok r)" unfolding c(4) by (auto split: if_splits)
    fix x assume r: "recall c = Some x"
    then have ne: "?ok \<noteq> {}" and x: "x = 100 * of_nat (card (?ok \<inter> ?seen)) / of_nat (card ?ok)"
      unfolding c(4) by (auto split: if_splits)
    show "0 \<le> x" "x \<le> 100" "x = 100 \<longleftrightarrow> false_neg c = {}"
      unfolding x c(2) using percent_bounds [OF _ fin(1) ne] full [OF ne] by (simp_all only: inf_le1 simp_thms)
  next
    fix x assume r: "precision c = Some x"
    then have ne: "?seen \<noteq> {}" and x: "x = 100 * of_nat (card (?ok \<inter> ?seen)) / of_nat (card ?seen)"
      unfolding c(5) by (auto split: if_splits)
    show "0 \<le> x" "x \<le> 100" unfolding x using percent_bounds [OF _ fin(2) ne] by (simp_all only: inf_le2 simp_thms)
  qed
qed

theorem comparison_figures_witness:
  "\<exists>c. compare_with_p4 [gt_row_of ([], [], [], []) (new_dcid (concat (replicate 20 ''ab'')))] (Some []) = Some c
     \<and> recall c = Some 0 \<and> false_pos c = {}"
proof -
  let ?rows = "[gt_row_of ([], [], [], []) (new_dcid (concat (replicate 20 ''ab'')))]"
  have dr: "dict_rows [] = []" by (simp add: dict_rows_def csv_rows_def)
  obtain c where c: "compare_with_p4 ?rows (Some []) = Some c" by (simp add: compare_with_p4_def)
  have ok: "gt_p4_ok (gt_row_of ([], [], [], []) (new_dcid (concat (replicate 20 ''ab''))))"
    by (simp add: gt_row_of_def new_dcid_def length_concat sum_list_replicate split: prod.split)
  have e: "true_pos c = {}" "false_pos c = {}" "recall c \<noteq> None"
    using c ok by (auto simp: compare_with_p4_def Let_def dr)
  obtain x where x: "recall c = Some x" using e(3) by auto
  have "x = 0" using c x e ok by (auto simp: compare_with_p4_def Let_def dr)
  with comparison_figures [OF c] c x e show ?thesis by auto
qed

lemma log_rows_member:
  "(i, w) \<in> set visible \<Longrightarrow> i \<in> set (dkeys (ctr_dcid st)) \<Longrightarrow> log_row_of st stats i \<in> set (log_rows st stats visible)"
  unfolding log_rows_def set_map set_filter by (rule image_eqI [where x = "(i, w)"]) simp_all

text \<open>
  Monitor log and ground truth name counter cells alike. For a digest with a legal connection
  ID the log row that the monitor writes for its counter cell carries, under \<^verbatim>\<open>bucket_10\<close>, the text that the ground truth of
  \<^verbatim>\<open>analyze_pcap.py\<close> has for that connection ID, so the join of the comparison is on equal names.
\<close>

theorem log_and_ground_truth_names_agree:
  assumes "length cid \<le> 20" "gt_dcid d = hex cid"
    and "(int (bucket cid) AND 0x3FF, w) \<in> set visible"
    and "int (bucket cid) AND 0x3FF \<in> set (dkeys (ctr_dcid st))"
  shows "\<exists>r \<in> set (log_rows st stats visible). log_bucket r = gt_bucket_10 (gt_row_of flow d)
    \<and> log_dcid r = dget (ctr_dcid st) (int (bucket cid) AND 0x3FF) []"
proof -
  let ?i = "int (bucket cid) AND 0x3FF"
  have i: "nat ?i = bucket cid mod 1024"
  proof -
    have "?i = int (bucket cid mod 1024)"
      using take_bit_eq_mask [of 10 "int (bucket cid)"]
      by (simp add: mask_eq_exp_minus_1 take_bit_eq_mod zmod_int)
    then show ?thesis by simp
  qed
  have "snd (p4_buckets (gt_dcid d)) = Some (bucket cid mod 1024)"
    using assms(1,2) by (simp add: p4_buckets_def pad20_ljust bucket_eq and_mask17 and_mask10 Let_def)
  then have "gt_bucket_10 (gt_row_of flow d) = ''0x'' @ hex_pad 3 (bucket cid mod 1024)"
    by (auto simp: gt_row_of_def bucket_text_def split: prod.split)
  with i assms(3,4) show ?thesis
    using log_rows_member [OF assms(3,4), of stats]
    by (intro bexI [of _ "log_row_of st stats ?i"]) (simp_all add: log_row_of_def split: prod.split)
qed

theorem log_and_ground_truth_names_agree_witness:
  "\<exists>r \<in> set (log_rows (new_monitor 0\<lparr>ctr_dcid := [(int (bucket [0xab]) AND 0x3FF, ''ab'')]\<rparr>) []
         [(int (bucket [0xab]) AND 0x3FF, (3, 1, 1))]).
     log_bucket r = gt_bucket_10 (gt_row_of ([], [], [], []) (new_dcid (hex [0xab])))"
  using log_and_ground_truth_names_agree
    [of "[0xab]" "new_dcid (hex [0xab])" "(3, 1, 1)" "[(int (bucket [0xab]) AND 0x3FF, (3, 1, 1))]"
        "new_monitor 0\<lparr>ctr_dcid := [(int (bucket [0xab]) AND 0x3FF, ''ab'')]\<rparr>" "[]" "([], [], [], [])"]
  by (auto simp: new_dcid_def dkeys_def)

text \<open>The aggregation at an end host as a fold: counts per key, and the bucket is a function of the connection ID.\<close>

lemma set_update: "x \<in> set (AList.update k v d) \<Longrightarrow> x = (k, v) \<or> x \<in> set d"
  by (induction d) (auto split: if_splits)

lemma fold_agg:
  assumes "foldE agg_step agg trows = Inr agg'" "dict_ok agg" "\<forall>((d, s, t), l, b, n) \<in> set agg. p4_bucket d = Inr b \<and> l = length d div 2"
  shows "dict_ok agg' \<and> (\<forall>((d, s, t), l, b, n) \<in> set agg'. p4_bucket d = Inr b \<and> l = length d div 2)
    \<and> (\<forall>k. snd (snd (dget agg' k (0, 0, 0))) = snd (snd (dget agg k (0, 0, 0))) + count_list (map (\<lambda>(s, t, d). (d, s, t)) trows) k)
    \<and> set (dkeys agg') = set (dkeys agg) \<union> set (map (\<lambda>(s, t, d). (d, s, t)) trows)"
  using assms
proof (induction trows arbitrary: agg)
  case (Cons r trows)
  obtain s t d where r: "r = (s, t, d)" by (cases r)
  obtain b where b: "p4_bucket d = Inr b"
    using Cons.prems(1) by (cases "p4_bucket d") (auto simp: agg_step_def r)
  let ?agg = "AList.update (d, s, t) (length d div 2, b, snd (snd (dget agg (d, s, t) (0, 0, 0))) + 1) agg"
  have "agg_step agg r = Inr ?agg" by (simp add: agg_step_def r b Let_def)
  then have f: "foldE agg_step ?agg trows = Inr agg'" using Cons.prems(1) by simp
  have "\<forall>((d, s, t), l, b, n) \<in> set ?agg. p4_bucket d = Inr b \<and> l = length d div 2"
    using Cons.prems(3) set_update [of _ "(d, s, t)" "(length d div 2, b, snd (snd (dget agg (d, s, t) (0, 0, 0))) + 1)" agg] b by blast
  from Cons.IH [OF f _ this] Cons.prems(2) show ?case
    by (auto simp: r dget_def map_of_update)
qed simp

lemma p4_bucket_Inr: "(\<exists>b. p4_bucket d = Inr b) \<longleftrightarrow> (\<exists>c. fromhex d = Inr c)"
  by (cases "fromhex d") (simp_all add: p4_bucket_def Let_def)

lemma p4_bucket_range: "p4_bucket d = Inr b \<Longrightarrow> b < 131072"
  by (cases "fromhex d") (auto simp: p4_bucket_def Let_def and_mask17 push_bit_eq_mult)

lemma agg_defined: "(\<exists>agg'. foldE agg_step agg trows = Inr agg') \<longleftrightarrow> (\<forall>(s, t, d) \<in> set trows. \<exists>c. fromhex d = Inr c)"
proof (induction trows arbitrary: agg)
  case (Cons r trows)
  obtain s t d where r: "r = (s, t, d)" by (cases r)
  show ?case
  proof (cases "p4_bucket d")
    case (Inl e)
    then show ?thesis using p4_bucket_Inr [of d] by (auto simp: r agg_step_def Let_def)
  next
    case (Inr b)
    then show ?thesis using Cons p4_bucket_Inr [of d] by (auto simp: r agg_step_def Let_def)
  qed
qed simp

lemma agg_buckets:
  assumes "\<And>d s t l b n. ((d, s, t), l, b, n) \<in> set agg \<Longrightarrow> p4_bucket d = Inr b"
    and "set (dkeys agg) = (\<lambda>(s, t, d). (d, s, t)) ` set rws"
  shows "{b. \<exists>k l n. (k, l, b, n) \<in> set agg} = {b. \<exists>(s, t, d) \<in> set rws. p4_bucket d = Inr b}"
proof (intro equalityI subsetI)
  fix b assume "b \<in> {b. \<exists>k l n. (k, l, b, n) \<in> set agg}"
  then obtain d s t l n where m: "((d, s, t), l, b, n) \<in> set agg" by auto
  then have "(d, s, t) \<in> set (dkeys agg)" by (force simp: dkeys_def)
  then have "(s, t, d) \<in> set rws" using assms(2) by auto
  with assms(1) [OF m] show "b \<in> {b. \<exists>(s, t, d) \<in> set rws. p4_bucket d = Inr b}" by blast
next
  fix b assume "b \<in> {b. \<exists>(s, t, d) \<in> set rws. p4_bucket d = Inr b}"
  then obtain s t d where m: "(s, t, d) \<in> set rws" "p4_bucket d = Inr b" by auto
  then have "(d, s, t) \<in> set (dkeys agg)" using assms(2) by force
  then obtain l b' n where m': "((d, s, t), l, b', n) \<in> set agg" by (auto simp: dkeys_def)
  moreover have "b' = b" using assms(1) [OF m'] m(2) by simp
  ultimately show "b \<in> {b. \<exists>k l n. (k, l, b, n) \<in> set agg}" by blast
qed

text \<open>
  C32. The buckets of an end host. The tool succeeds exactly when every connection ID the dissector
  printed is hexadecimal; then it lists every distinct pair of connection ID and direction once, with the number
  of its packets and its bucket, and the printed buckets are the distinct ones in ascending order,
  all below \<open>2^17\<close>.
\<close>

theorem endpoint_report:
  "((\<exists>r. endpoint_buckets out = Inr r) \<longleftrightarrow> (\<forall>(s, t, d) \<in> set (tshark_rows out). \<exists>c. fromhex d = Inr c))
   \<and> (\<forall>agg csv bs. endpoint_buckets out = Inr (agg, csv, bs) \<longrightarrow>
        dict_ok agg \<and> set (dkeys agg) = (\<lambda>(s, t, d). (d, s, t)) ` set (tshark_rows out)
        \<and> (\<forall>(k, l, b, n) \<in> set agg. p4_bucket (fst k) = Inr b \<and> l = length (fst k) div 2
              \<and> n = count_list (map (\<lambda>(s, t, d). (d, s, t)) (tshark_rows out)) k)
        \<and> sorted bs \<and> distinct bs \<and> set bs \<subseteq> {..<131072}
        \<and> set bs = {b. \<exists>(s, t, d) \<in> set (tshark_rows out). p4_bucket d = Inr b})"
proof (intro conjI allI impI)
  show "(\<exists>r. endpoint_buckets out = Inr r) \<longleftrightarrow> (\<forall>(s, t, d) \<in> set (tshark_rows out). \<exists>c. fromhex d = Inr c)"
    using agg_defined [of "[]" "tshark_rows out"] by (auto simp: endpoint_buckets_def mapE_eq_Inr_iff)
next
  fix agg csv bs assume "endpoint_buckets out = Inr (agg, csv, bs)"
  then have f: "foldE agg_step [] (tshark_rows out) = Inr agg" and bs: "bs = sort (remdups (map (\<lambda>(_, b, _). b) (dvalues agg)))"
    by (auto simp: endpoint_buckets_def mapE_eq_Inr_iff)
  have F: "dict_ok agg" "\<And>d s t l b n. ((d, s, t), l, b, n) \<in> set agg \<Longrightarrow> p4_bucket d = Inr b \<and> l = length d div 2"
    "\<And>k. snd (snd (dget agg k (0, 0, 0))) = count_list (map (\<lambda>(s, t, d). (d, s, t)) (tshark_rows out)) k"
    "set (dkeys agg) = (\<lambda>(s, t, d). (d, s, t)) ` set (tshark_rows out)"
    using fold_agg [OF f] by (auto simp: dict_ok_def dget_def dkeys_def)
  show "dict_ok agg" by (rule F(1))
  show "set (dkeys agg) = (\<lambda>(s, t, d). (d, s, t)) ` set (tshark_rows out)" by (rule F(4))
  show "\<forall>(k, l, b, n) \<in> set agg. p4_bucket (fst k) = Inr b \<and> l = length (fst k) div 2
      \<and> n = count_list (map (\<lambda>(s, t, d). (d, s, t)) (tshark_rows out)) k"
  proof (rule ballI, clarify)
    fix d s t l b n assume m: "((d, s, t), l, b, n) \<in> set agg"
    then have "dget agg (d, s, t) (0, 0, 0) = (l, b, n)" using F(1) by (simp add: dget_def dict_ok_def)
    with F(2) [OF m] F(3) [of "(d, s, t)"] show "p4_bucket (fst (d, s, t)) = Inr b \<and> l = length (fst (d, s, t)) div 2
      \<and> n = count_list (map (\<lambda>(s, t, d). (d, s, t)) (tshark_rows out)) (d, s, t)" by simp
  qed
  show "sorted bs" "distinct bs" by (simp_all add: bs)
  have sb: "set bs = {b. \<exists>k l n. (k, l, b, n) \<in> set agg}"
    unfolding bs by (force simp: dvalues_def)
  then show "set bs \<subseteq> {..<131072}" using F(2) p4_bucket_range by fastforce
  show "set bs = {b. \<exists>(s, t, d) \<in> set (tshark_rows out). p4_bucket d = Inr b}"
    unfolding sb using F(2,4) by (intro agg_buckets) blast+
qed

theorem endpoint_report_witness:
  "\<exists>agg csv. endpoint_buckets ''10.0.0.1|10.0.0.2|ab:cd'' = Inr (agg, csv, [bucket [0xab, 0xcd]]) \<and> dict_ok agg"
proof -
  have t: "tshark_rows ''10.0.0.1|10.0.0.2|ab:cd'' = [(''10.0.0.1'', ''10.0.0.2'', ''abcd'')]"
    by (simp add: tshark_rows_def tshark_line_def delete_char_def strip_def is_space_def is_linebreak_def)
  have h: "hex [0xab, 0xcd] = ''abcd''" by (simp add: hex_def hex_byte_def hex_digit_def char_of_def bit_simps bit_0)
  have "p4_bucket ''abcd'' = Inr (bucket [0xab, 0xcd])"
    using fromhex_hex [of "[0xab, 0xcd]"] unfolding h
    by (simp add: p4_bucket_def Let_def bucket_eq pad20_def and_mask17 push_bit_eq_mult)
  then obtain agg csv where r: "endpoint_buckets ''10.0.0.1|10.0.0.2|ab:cd'' = Inr (agg, csv, [bucket [0xab, 0xcd]])"
    by (simp add: endpoint_buckets_def t agg_step_def dvalues_def)
  with endpoint_report [of "''10.0.0.1|10.0.0.2|ab:cd''"] show ?thesis by blast
qed

end
