(* ===== verification/Csv_Files.thy ===== *)
theory Csv_Files
  imports Ground_Truth Offline_Report
begin

text \<open>
  The files that the tools exchange through \<^verbatim>\<open>csv.DictWriter\<close>: the log of \<^verbatim>\<open>quic_monitor.py\<close>, which
  \<^verbatim>\<open>analyze_pcap.py --compare\<close> reads, and the ground truth of \<^verbatim>\<open>analyze_pcap.py --csv\<close>; then the
  \<^verbatim>\<open>main\<close> functions of \<^verbatim>\<open>analyze_pcap.py\<close> and \<^verbatim>\<open>endpoint_buckets.py\<close> with their choices and errors.
  The lemmas show that the writer of Python and its reader fit for arbitrary field texts, so the
  comparison sees exactly what the monitor logged.
\<close>

section \<open>Writing csv\<close>

text \<open>
  \<^verbatim>\<open>csv.writer\<close> in its default dialect: a field with a comma, a quote or a line break is quoted, a quote
  in it doubled, and a record of one empty field is written as a quoted empty field.
\<close>

definition must_quote :: "string \<Rightarrow> bool" where
  "must_quote f \<longleftrightarrow> (\<exists>c \<in> set f. c = CHR '','' \<or> c = CHR 0x22 \<or> csv_break c)"

definition double_quotes :: "string \<Rightarrow> string" where
  "double_quotes f = concat (map (\<lambda>c. if c = CHR 0x22 then [c, c] else [c]) f)"

definition csv_field :: "string \<Rightarrow> string" where
  "csv_field f = (if must_quote f then CHR 0x22 # double_quotes f @ [CHR 0x22] else f)"

definition csv_record :: "string \<Rightarrow> string list \<Rightarrow> string" where
  "csv_record e fs =
     (if fs = [[]] then [CHR 0x22, CHR 0x22] else join_with '','' (map csv_field fs)) @ e"

definition CRLF :: string where "CRLF = [CHR 0x0D, CHR 0x0A]"

text \<open>Reading a file in text mode without \<^verbatim>\<open>newline=""\<close>: every line end becomes a line feed.\<close>

fun text_mode :: "string \<Rightarrow> string" where
  "text_mode [] = []"
| "text_mode (c # cs) =
     (if c = CHR 0x0D \<and> cs \<noteq> [] \<and> hd cs = nl then text_mode cs
      else (if c = CHR 0x0D then nl else c) # text_mode cs)"

lemma double_quotes_simps [simp]:
  "double_quotes [] = []" "double_quotes (c # f) = (if c = CHR 0x22 then [c, c] else [c]) @ double_quotes f"
  by (simp_all add: double_quotes_def)

lemma csv_go_quoted:
  "csv_go InQuoted fld rec (double_quotes f @ CHR 0x22 # cs) = csv_go QuoteInQuoted (rev f @ fld) rec cs"
  by (induction f arbitrary: fld) (simp_all add: Let_def)

lemma csv_go_quote_ends:
  "csv_go QuoteInQuoted fld rec (CHR '','' # cs) = csv_go StartField [] (rev fld # rec) cs"
  "csv_go InQuoted fld rec (CHR 0x22 # cs) = csv_go QuoteInQuoted fld rec cs"
  "csv_go StartField fld rec (CHR 0x22 # cs) = csv_go InQuoted [] rec cs"
  "csv_go StartRecord fld rec (CHR 0x22 # cs) = csv_go InQuoted [] [] cs"
  "csv_go StartField [] rec (CHR '','' # cs) = csv_go StartField [] ([] # rec) cs"
  "csv_go StartRecord [] [] (CHR '','' # cs) = csv_go StartField [] [[]] cs"
  by (simp_all add: Let_def csv_break_def)

text \<open>Both line ends finish a record, in every state that can end one.\<close>

definition line_end :: "string \<Rightarrow> bool" where
  "line_end e \<longleftrightarrow> e = [nl] \<or> e = CRLF"

lemma csv_go_line_end:
  assumes "line_end e"
  shows "csv_go QuoteInQuoted fld rec (e @ cs) = rev (rev fld # rec) # csv_go StartRecord [] [] cs"
    and "csv_go InField fld rec (e @ cs) = rev (rev fld # rec) # csv_go StartRecord [] [] cs"
    and "csv_go StartField [] rec (e @ cs) = rev ([] # rec) # csv_go StartRecord [] [] cs"
    and "csv_go StartRecord [] [] (e @ cs) = [] # csv_go StartRecord [] [] cs"
  using assms by (auto simp: line_end_def CRLF_def Let_def csv_break_def)

lemma not_must_quote: "\<not> must_quote f \<Longrightarrow> f \<noteq> [] \<Longrightarrow> plain f"
  by (auto simp: must_quote_def plain_def)

lemmas csv_go_rules = csv_go_quoted csv_go_quote_ends csv_go_field csv_go_ends csv_go_line_end

lemma csv_go_csv_field:
  assumes "line_end e"
  shows "csv_go StartField [] rec (csv_field f @ CHR '','' # cs) = csv_go StartField [] (f # rec) cs"
    and "csv_go StartField [] rec (csv_field f @ e @ cs) = rev (f # rec) # csv_go StartRecord [] [] cs"
    and "csv_go StartRecord [] [] (csv_field f @ CHR '','' # cs) = csv_go StartField [] [f] cs"
    and "f \<noteq> [] \<Longrightarrow> csv_go StartRecord [] [] (csv_field f @ e @ cs) = [f] # csv_go StartRecord [] [] cs"
  using assms
  by (cases "f = []"; simp add: csv_field_def csv_go_rules not_must_quote must_quote_def [of "[]"] del: csv_go.simps)+

lemma csv_go_fields:
  assumes "line_end e"
  shows "fs \<noteq> [] \<Longrightarrow> csv_go StartField [] rec (join_with '','' (map csv_field fs) @ e @ cs) =
     (rev rec @ fs) # csv_go StartRecord [] [] cs"
proof (induction fs arbitrary: rec)
  case (Cons f fs)
  then show ?case by (cases fs) (simp_all add: csv_go_csv_field [OF assms] del: csv_go.simps)
qed simp

lemma csv_go_csv_record:
  assumes "line_end e"
  shows "csv_go StartRecord [] [] (csv_record e fs @ cs) = fs # csv_go StartRecord [] [] cs"
proof (cases fs)
  case (Cons f gs)
  then show ?thesis
    using csv_go_fields [OF assms, of gs "[f]" cs]
    by (cases gs) (auto simp: csv_record_def csv_go_csv_field [OF assms] csv_go_line_end [OF assms] csv_go_quote_ends simp del: csv_go.simps)
qed (simp add: csv_record_def csv_go_line_end [OF assms] del: csv_go.simps)

lemma csv_rows_records: "line_end e \<Longrightarrow> csv_rows (concat (map (csv_record e) recs)) = recs"
  unfolding csv_rows_def by (induction recs) (simp_all add: csv_go_csv_record del: csv_go.simps, simp)

text \<open>Text mode changes line ends inside fields, never the fields' boundaries.\<close>

lemma text_mode_append: "ys = [] \<or> hd ys \<noteq> nl \<Longrightarrow> text_mode (xs @ ys) = text_mode xs @ text_mode ys"
proof (induction xs)
  case (Cons c xs)
  then show ?case by (cases xs) auto
qed simp

lemma text_mode_id: "\<forall>c \<in> set s. \<not> csv_break c \<Longrightarrow> text_mode s = s"
  by (induction s) (auto simp: csv_break_def)

lemma must_quote_text_mode: "must_quote (text_mode f) = must_quote f"
proof (induction f)
  case (Cons c f)
  then show ?case by (cases f) (auto simp: must_quote_def csv_break_def)
qed simp

lemma text_mode_double_quotes: "text_mode (double_quotes f) = double_quotes (text_mode f)"
proof (induction f)
  case (Cons c f)
  then show ?case by (cases f) auto
qed simp

lemma text_mode_csv_field: "text_mode (csv_field f) = csv_field (text_mode f)"
proof (cases "must_quote f")
  case True
  then show ?thesis
    using text_mode_append [of "[CHR 0x22]" "double_quotes f"] by (simp add: csv_field_def must_quote_text_mode text_mode_double_quotes text_mode_append)
next
  case False
  then have "text_mode f = f" by (intro text_mode_id) (auto simp: must_quote_def)
  with False show ?thesis by (simp add: csv_field_def)
qed

lemma text_mode_fields: "text_mode (join_with '','' (map csv_field fs)) = join_with '','' (map csv_field (map text_mode fs))"
proof (induction fs)
  case (Cons f fs)
  then show ?case by (cases fs) (simp_all add: text_mode_append text_mode_csv_field)
qed simp

lemma text_mode_Nil_iff: "text_mode f = [] \<longleftrightarrow> f = []"
  by (induction f) (auto split: if_splits)

lemma text_mode_csv_record: "text_mode (csv_record CRLF fs) = csv_record [nl] (map text_mode fs)"
proof -
  have "map text_mode fs = [[]] \<longleftrightarrow> fs = [[]]" by (cases fs) (auto simp: text_mode_Nil_iff)
  then show ?thesis by (auto simp: csv_record_def CRLF_def text_mode_append text_mode_fields simp del: map_map)
qed

lemma hd_csv_field: "csv_field f \<noteq> [] \<Longrightarrow> hd (csv_field f) \<noteq> nl"
  by (cases f) (auto simp: csv_field_def must_quote_def csv_break_def)

lemma hd_csv_record: "hd (csv_record CRLF fs) \<noteq> nl"
proof (cases fs)
  case (Cons f gs)
  then show ?thesis
    using hd_csv_field [of f] by (cases gs; cases "csv_field f = []") (auto simp: csv_record_def CRLF_def hd_append)
qed (simp add: csv_record_def CRLF_def)

lemma text_mode_records:
  "text_mode (concat (map (csv_record CRLF) recs)) = concat (map (csv_record [nl]) (map (map text_mode) recs))"
proof (induction recs rule: rev_induct)
  case (snoc fs recs)
  have "text_mode (t @ csv_record CRLF fs) = text_mode t @ text_mode (csv_record CRLF fs)" for t
    by (rule text_mode_append) (simp add: hd_csv_record)
  with snoc show ?case by (simp add: text_mode_csv_record)
qed simp

lemma csv_written_then_read: "csv_rows (text_mode (concat (map (csv_record CRLF) recs))) = map (map text_mode) recs"
  unfolding text_mode_records by (rule csv_rows_records) (simp add: line_end_def)

section \<open>The log of the monitor\<close>

definition log_fields :: "string list" where
  "log_fields = [''ts'', ''bucket_10'', ''dcid'', ''direction'', ''client'', ''total_pkts'', ''pkt_rate'', ''mbps'']"

text \<open>One row at the time of day \<open>ts\<close>; \<open>shown\<close> gives the text of a float.\<close>

definition log_texts :: "(rat \<Rightarrow> string) \<Rightarrow> string \<Rightarrow> log_row \<Rightarrow> string list" where
  "log_texts shown ts r =
     [ts, log_bucket r, log_dcid r, log_direction r, log_client r, dec_int (log_pkts r), shown (log_rate r), shown (log_mbps r)]"

text \<open>The contents of the file and whether the writer exists: it is made, with the header, at the first row.\<close>

type_synonym log_out = "string \<times> bool"

definition log_write :: "(rat \<Rightarrow> string) \<Rightarrow> string \<Rightarrow> log_out \<Rightarrow> log_row \<Rightarrow> log_out" where
  "log_write shown ts st r =
     (case st of (out, started) \<Rightarrow>
        (out @ (if started then [] else csv_record CRLF log_fields) @ csv_record CRLF (log_texts shown ts r), True))"

definition log_poll :: "(rat \<Rightarrow> string) \<Rightarrow> log_out \<Rightarrow> string \<times> log_row list \<Rightarrow> log_out" where
  "log_poll shown st p = (case p of (ts, rws) \<Rightarrow> foldl (log_write shown ts) st rws)"

definition log_file :: "(rat \<Rightarrow> string) \<Rightarrow> (string \<times> log_row list) list \<Rightarrow> string" where
  "log_file shown ps = fst (foldl (log_poll shown) ([], False) ps)"

definition log_records :: "(rat \<Rightarrow> string) \<Rightarrow> (string \<times> log_row list) list \<Rightarrow> string list list" where
  "log_records shown ps = concat (map (\<lambda>(ts, rws). map (log_texts shown ts) rws) ps)"

definition log_contents :: "string list list \<Rightarrow> log_out" where
  "log_contents recs = (if recs = [] then ([], False) else (concat (map (csv_record CRLF) (log_fields # recs)), True))"

lemma log_write_contents: "log_write shown ts (log_contents recs) r = log_contents (recs @ [log_texts shown ts r])"
  by (simp add: log_write_def log_contents_def)

lemma log_poll_contents: "log_poll shown (log_contents recs) (ts, rws) = log_contents (recs @ map (log_texts shown ts) rws)"
  unfolding log_poll_def prod.case
  by (induction rws arbitrary: recs) (simp_all add: log_write_contents)

lemma log_file_contents: "log_file shown ps = fst (log_contents (log_records shown ps))"
proof -
  have "foldl (log_poll shown) (log_contents recs) ps = log_contents (recs @ log_records shown ps)" for recs
    by (induction ps arbitrary: recs) (auto simp: log_records_def log_poll_contents)
  from this [of "[]"] show ?thesis by (simp add: log_file_def log_contents_def [of "[]"])
qed

lemma log_fields_text_mode: "map text_mode log_fields = log_fields"
  by (simp add: log_fields_def)

lemma log_file_rows:
  "dict_rows (text_mode (log_file shown ps)) = map (dict_row log_fields \<circ> map text_mode) (log_records shown ps)"
proof (cases "log_records shown ps = []")
  case True
  then show ?thesis by (simp add: log_file_contents log_contents_def dict_rows_def csv_rows_def)
next
  case False
  have "r \<noteq> []" if "r \<in> set (log_records shown ps)" for r
    using that by (auto simp: log_records_def log_texts_def)
  then have "filter (\<lambda>r. r \<noteq> []) (map (map text_mode) (log_records shown ps)) = map (map text_mode) (log_records shown ps)"
    by (intro filter_True) auto
  with False show ?thesis
    using csv_written_then_read [of "log_fields # log_records shown ps"]
    by (simp add: log_file_contents log_contents_def dict_rows_def log_fields_text_mode)
qed

lemma log_dict_bucket: "map_of (dict_row log_fields (map text_mode (log_texts shown ts r))) ''bucket_10'' = Some (Some (text_mode (log_bucket r)))"
  by (simp add: dict_row_def log_fields_def log_texts_def)

lemma hex_nat_plain: "c \<in> set (hex_nat n) \<Longrightarrow> \<not> csv_break c"
proof (induction n rule: hex_nat.induct)
  case (1 n)
  have digit: "\<not> csv_break (hex_digit d)" if "d < 16" for d
  proof
    assume "csv_break (hex_digit d)"
    then have "hex_val (hex_digit d) = None" by (auto simp: csv_break_def hex_val_def)
    with that show False by simp
  qed
  show ?case using 1 digit by (subst (asm) hex_nat.simps) (auto split: if_splits)
qed

lemma log_bucket_text: "text_mode (log_bucket (log_row_of st stats i)) = ''0x'' @ hex_pad 3 (nat i)"
proof -
  have "text_mode (''0x'' @ hex_pad 3 (nat i)) = ''0x'' @ hex_pad 3 (nat i)"
    using hex_nat_plain [of _ "nat i"] by (intro text_mode_id) (auto simp: hex_pad_def csv_break_def)
  then show ?thesis by (simp add: log_row_of_def split: prod.split)
qed

text \<open>The counter cells that a poll logs: visible, and with a connection ID from a digest.\<close>

definition logged_cells :: "monitor \<Rightarrow> (int, stat) dict \<Rightarrow> int set" where
  "logged_cells st visible = fst ` set visible \<inter> set (dkeys (ctr_dcid st))"

lemma logged_buckets:
  "(text_mode \<circ> log_bucket) ` set (log_rows st stats visible) = (\<lambda>i. ''0x'' @ hex_pad 3 (nat i)) ` logged_cells st visible"
proof -
  have "set (log_rows st stats visible) = log_row_of st stats ` logged_cells st visible"
    by (force simp: log_rows_def logged_cells_def)
  then show ?thesis by (simp add: image_image log_bucket_text)
qed

lemma log_file_seen:
  "{b. \<exists>r \<in> set (dict_rows (text_mode (log_file shown (map (\<lambda>(ts, st, stats, vis). (ts, log_rows st stats vis)) ps)))).
      map_of r ''bucket_10'' = Some b} =
   Some ` (\<Union>(ts, st, stats, vis) \<in> set ps. (\<lambda>i. ''0x'' @ hex_pad 3 (nat i)) ` logged_cells st vis)"
proof -
  let ?recs = "log_records shown (map (\<lambda>(ts, st, stats, vis). (ts, log_rows st stats vis)) ps)"
  have recs: "set ?recs = (\<Union>(ts, st, stats, vis) \<in> set ps. log_texts shown ts ` set (log_rows st stats vis))"
    by (auto simp: log_records_def)
  have "{b. \<exists>r \<in> set (map (dict_row log_fields \<circ> map text_mode) ?recs). map_of r ''bucket_10'' = Some b} =
    (\<Union>(ts, st, stats, vis) \<in> set ps. (\<lambda>r. Some (text_mode (log_bucket r))) ` set (log_rows st stats vis))"
    unfolding set_map recs by (auto simp: log_dict_bucket) (force simp: log_dict_bucket)+
  also have "\<dots> = Some ` (\<Union>(ts, st, stats, vis) \<in> set ps. (text_mode \<circ> log_bucket) ` set (log_rows st stats vis))"
    by (auto simp: image_UN)
  finally show ?thesis unfolding log_file_rows logged_buckets .
qed

text \<open>
  C29. What the monitor logs is what the comparison finds. Take any polls, with the state of the monitor, the
  counters and the visible cells at each of them, and let \<^verbatim>\<open>analyze_pcap.py --compare\<close> read the log file of
  \<^verbatim>\<open>quic_monitor.py\<close>. Whatever the text of the other fields, the expected counter cells that it reports as found,
  the expected ones it reports as missed, and the ones it reports as wrong are exactly those that were logged, were not logged, and
  were logged without being in the ground truth.
\<close>

theorem comparison_reads_the_log:
  fixes ps shown gt_rows
  defines "logged \<equiv> (\<Union>(ts, st, stats, vis) \<in> set ps. (\<lambda>i. ''0x'' @ hex_pad 3 (nat i)) ` logged_cells st vis)"
    and "expected \<equiv> gt_bucket_10 ` {r \<in> set gt_rows. gt_p4_ok r}"
    and "contents \<equiv> text_mode (log_file shown (map (\<lambda>(ts, st, stats, vis). (ts, log_rows st stats vis)) ps))"
  shows "\<exists>c. compare_with_p4 gt_rows (Some contents) = Some c
    \<and> true_pos c = Some ` (expected \<inter> logged) \<and> false_neg c = Some ` (expected - logged)
    \<and> false_pos c = Some ` (logged - gt_bucket_10 ` set gt_rows)"
proof -
  have seen: "{b. \<exists>r \<in> set (dict_rows contents). map_of r ''bucket_10'' = Some b} = Some ` logged"
    unfolding contents_def logged_def by (rule log_file_seen)
  have "(Some \<circ> gt_bucket_10) ` {r \<in> set gt_rows. gt_p4_ok r} = Some ` expected"
    "(Some \<circ> gt_bucket_10) ` set gt_rows = Some ` gt_bucket_10 ` set gt_rows"
    by (simp_all add: expected_def image_image)
  then show ?thesis
    unfolding compare_with_p4_def Let_def option.map seen by (auto simp: image_Int image_set_diff)
qed

section \<open>The ground-truth tool as a whole\<close>

definition gt_columns :: "string list" where
  "gt_columns = [''src'', ''dst'', ''dcid'', ''cid_len'', ''dcid_pkts'', ''bucket_17'', ''bucket_10'', ''p4_ok'']"

definition gt_texts :: "gt_row \<Rightarrow> string list" where
  "gt_texts r =
     [gt_src r, gt_dst r, gt_row_dcid r, dec_nat (gt_cid_len r), dec_nat (gt_pkts r), gt_bucket_17 r, gt_bucket_10 r,
      if gt_p4_ok r then ''True'' else ''False'']"

definition gt_csv :: "gt_row list \<Rightarrow> string" where
  "gt_csv gt_rows = concat (map (csv_record CRLF) (gt_columns # map gt_texts gt_rows))"

text \<open>
  \<^verbatim>\<open>main\<close> on the output of the dissector: the rows, the file for \<^verbatim>\<open>--csv\<close>, and the comparison for \<^verbatim>\<open>--compare\<close>, whose argument is
  the contents of the log, if it can be read. Nothing is written for a capture without connection IDs.
\<close>

definition analyze_main ::
  "(gt_flow set \<Rightarrow> gt_flow list) \<Rightarrow> string \<Rightarrow> bool \<Rightarrow> string option option \<Rightarrow>
   (gt_row list \<times> string option \<times> comparison option) result" where
  "analyze_main it raw csv compare =
     bindE (parse_tshark it raw) (\<lambda>(flow_pkts, dcid_info).
       mapE (\<lambda>(gt_rows, ok, wrong).
           (gt_rows,
            if csv \<and> gt_rows \<noteq> [] then Some (gt_csv gt_rows) else None,
            case compare of None \<Rightarrow> None | Some p4_csv \<Rightarrow> compare_with_p4 gt_rows (map_option text_mode p4_csv)))
         (gt_report flow_pkts dcid_info))"

text \<open>The written ground truth holds the rows of the report, one record each, whatever the dissector printed.\<close>

lemma gt_csv_read_back:
  assumes "analyze_main it raw csv compare = Inr (gt_rows, Some file_text, c)"
  shows "csv_rows (text_mode file_text) = gt_columns # map (map text_mode \<circ> gt_texts) gt_rows"
proof -
  have "file_text = gt_csv gt_rows"
    using assms by (auto simp: analyze_main_def bindE_eq_Inr_iff mapE_eq_Inr_iff split: if_splits)
  moreover have "map text_mode gt_columns = gt_columns" by (simp add: gt_columns_def)
  ultimately show ?thesis
    using csv_written_then_read [of "gt_columns # map gt_texts gt_rows"] by (simp add: gt_csv_def)
qed

section \<open>The end-host tool as a whole\<close>

text \<open>An option that is not given and one with an empty value behave alike.\<close>

record endpoint_args =
  ep_pcap :: string
  ep_iface :: string
  ep_secs :: int
  ep_out :: string
  ep_selftest :: string

record endpoint_run =
  ep_commands :: "string list list"
  ep_printed :: "string list"
  ep_written :: "(string \<times> string) option"

definition endpoint_cmd :: "string \<Rightarrow> string list" where
  "endpoint_cmd pcap =
     [''tshark'', ''-2'', ''-r'', pcap, ''-Y'', ''quic'', ''-T'', ''fields'', ''-e'', ''ip.src'', ''-e'', ''ip.dst'',
      ''-e'', ''quic.dcid'', ''-E'', ''separator=|'']"

definition capture_cmd :: "string \<Rightarrow> string \<Rightarrow> int \<Rightarrow> string list" where
  "capture_cmd iface pcap secs =
     [''sudo'', ''tcpdump'', ''-i'', iface, ''-w'', pcap, ''udp'', ''port'', ''443'', ''-G'', dec_int secs, ''-W'', ''1'']"

text \<open>\<open>tshark\<close> gives the exit code, the output and the error output of the dissector's command line.\<close>

definition endpoint_main ::
  "endpoint_args \<Rightarrow> (string list \<Rightarrow> int \<times> string \<times> string) \<Rightarrow> endpoint_run result" where
  "endpoint_main args tshark =
     (if ep_selftest args \<noteq> [] then
        mapE (\<lambda>b. \<lparr>ep_commands = [], ep_printed = [ep_selftest args @ '' -> bucket '' @ dec_nat b], ep_written = None\<rparr>)
          (p4_bucket (ep_selftest args))
      else if ep_pcap args = [] \<and> ep_iface args = [] then Inl (SysExit ''provide --pcap or --iface'')
      else
        (let live = ep_pcap args = [];
             pcap = (if live then ''/tmp/endpoint_capture.pcap'' else ep_pcap args);
             (code, out, err) = tshark (endpoint_cmd pcap)
         in if code \<noteq> 0 then Inl (SysExit (''tshark failed: '' @ take 300 (strip err)))
            else mapE (\<lambda>(agg, csv, bs).
                \<lparr>ep_commands = (if live then [capture_cmd (ep_iface args) pcap (ep_secs args)] else []) @ [endpoint_cmd pcap],
                 ep_printed =
                   (if live then [''capturing '' @ dec_int (ep_secs args) @ ''s on '' @ ep_iface args @ '' ...''] else []) @
                   [''distinct DCIDs: '' @ dec_nat (length agg) @ ''   distinct buckets: '' @ dec_nat (length bs),
                    ''buckets: '' @ list_text (take 64 bs) @ '' '' @ (if length bs > 64 then ''...'' else []),
                    ''wrote '' @ ep_out args],
                 ep_written = Some (ep_out args, csv)\<rparr>)
              (endpoint_buckets out)))"

text \<open>
  A file is written exactly when a capture is analysed to the end: the dissector succeeds and all its connection IDs are
  hexadecimal. The number printed as distinct connection IDs is that of the pairs with a direction.
\<close>

lemma endpoint_main_writes:
  assumes "ep_selftest args = []" "ep_pcap args \<noteq> []" "tshark (endpoint_cmd (ep_pcap args)) = (code, out, err)"
  shows "(\<exists>r f. endpoint_main args tshark = Inr r \<and> ep_written r = Some f)
     \<longleftrightarrow> code = 0 \<and> (\<forall>(s, t, d) \<in> set (tshark_rows out). \<exists>c. fromhex d = Inr c)"
proof -
  have "(\<exists>x. endpoint_buckets out = Inr x) \<longleftrightarrow> (\<forall>(s, t, d) \<in> set (tshark_rows out). \<exists>c. fromhex d = Inr c)"
    using agg_defined [of "[]" "tshark_rows out"] by (auto simp: endpoint_buckets_def mapE_eq_Inr_iff)
  then show ?thesis
    using assms by (cases "endpoint_buckets out"; cases "code = 0") (auto simp: endpoint_main_def Let_def)
qed

lemma endpoint_main_counts_directions:
  assumes "ep_selftest args = []" "ep_pcap args \<noteq> []" "tshark (endpoint_cmd (ep_pcap args)) = (0, out, err)"
    and "endpoint_main args tshark = Inr r"
  shows "\<exists>bs. hd (ep_printed r) = ''distinct DCIDs: '' @ dec_nat (card (set (tshark_rows out))) @ ''   distinct buckets: '' @ dec_nat bs"
proof -
  obtain agg csv bs where b: "endpoint_buckets out = Inr (agg, csv, bs)"
    and r: "hd (ep_printed r) = ''distinct DCIDs: '' @ dec_nat (length agg) @ ''   distinct buckets: '' @ dec_nat (length bs)"
    using assms by (auto simp: endpoint_main_def mapE_eq_Inr_iff Let_def)
  from b have f: "foldE agg_step [] (tshark_rows out) = Inr agg" by (auto simp: endpoint_buckets_def mapE_eq_Inr_iff)
  have "dict_ok agg" "set (dkeys agg) = (\<lambda>(s, t, d). (d, s, t)) ` set (tshark_rows out)"
    using fold_agg [OF f] by (auto simp: dkeys_def)
  then have "length agg = card ((\<lambda>(s, t, d). (d, s, t)) ` set (tshark_rows out))"
    using length_dict [of agg] by (simp add: dkeys_def)
  also have "\<dots> = card (set (tshark_rows out))" by (rule card_image) (auto simp: inj_on_def)
  finally show ?thesis using r by auto
qed

end
