(* ===== verification/Perf_Session.thy ===== *)
theory Perf_Session
  imports Perf_Tools
begin

text \<open>
  One flow of the traffic generator as a state machine: the client (\<^verbatim>\<open>quic_perf_client.py\<close>), the server (\<^verbatim>\<open>quic_perf_server.py\<close>) and
  what is on the way between them. Steps may interleave in any order: the client queues a chunk, the
  network delivers a part of the data, the client opens the control stream, the server answers the
  request, and the reply arrives in pieces. The handlers are those of \<open>Perf_Tools\<close>. What is assumed of \<^verbatim>\<open>aioquic\<close> is that the
  events of a stream carry its bytes in order, that only the last one tells the end of the stream, and that the
  client gets different identifiers for its two streams; how the bytes are cut into events is open, for the request as well.
\<close>

section \<open>Steps\<close>

text \<open>
  \<open>request_queue\<close> holds what is undelivered of the request while its end is undelivered, and \<open>was_split\<close> records that an
  event has delivered a part of the request without the end of the stream.
\<close>

record session =
  cl :: client
  srv :: server
  total_sent :: nat
  in_flight :: nat
  request_queue :: "bytes option"
  was_split :: bool
  reply_queue :: "bytes option"

definition new_session :: session where
  "new_session =
     \<lparr>cl = new_client, srv = new_server, total_sent = 0, in_flight = 0, request_queue = None, was_split = False, reply_queue = None\<rparr>"

text \<open>What the server sends on the control stream after an event.\<close>

definition answered :: "server_out \<Rightarrow> bytes option \<Rightarrow> bytes option" where
  "answered out r = (case reply out of None \<Rightarrow> r | Some (sid, b) \<Rightarrow> Some b)"

inductive session_step :: "nat \<Rightarrow> nat \<Rightarrow> session \<Rightarrow> session \<Rightarrow> bool" for d s where
  send_chunk: "stats_stream_id (cl x) = None \<Longrightarrow> 0 < n \<Longrightarrow> int n \<le> CHUNK \<Longrightarrow>
    session_step d s x (x\<lparr>total_sent := total_sent x + n, in_flight := in_flight x + n\<rparr>)"
| deliver: "0 < n \<Longrightarrow> n \<le> in_flight x \<Longrightarrow>
    server_event stamp now (StreamDataReceived d (replicate n 0x78) False) (srv x) = Inr (sv, out) \<Longrightarrow>
    session_step d s x (x\<lparr>srv := sv, in_flight := in_flight x - n\<rparr>)"
| request: "stats_stream_id (cl x) = None \<Longrightarrow> s \<noteq> d \<Longrightarrow>
    session_step d s x (x\<lparr>cl := (cl x)\<lparr>stats_stream_id := Some s\<rparr>, request_queue := Some STATS_MAGIC\<rparr>)"
| request_part: "request_queue x = Some (p @ q) \<Longrightarrow> p \<noteq> [] \<Longrightarrow>
    server_event stamp now (StreamDataReceived s p False) (srv x) = Inr (sv, out) \<Longrightarrow>
    session_step d s x (x\<lparr>srv := sv, request_queue := Some q, was_split := True, reply_queue := answered out (reply_queue x)\<rparr>)"
| request_end: "request_queue x = Some p \<Longrightarrow>
    server_event stamp now (StreamDataReceived s p True) (srv x) = Inr (sv, out) \<Longrightarrow>
    session_step d s x (x\<lparr>srv := sv, request_queue := None, reply_queue := answered out (reply_queue x)\<rparr>)"
| piece: "reply_queue x = Some (p @ q) \<Longrightarrow> client_event (StreamDataReceived s p False) (cl x) = Inr c \<Longrightarrow>
    session_step d s x (x\<lparr>cl := c, reply_queue := Some q\<rparr>)"
| last_piece: "reply_queue x = Some p \<Longrightarrow> client_event (StreamDataReceived s p True) (cl x) = Inr c \<Longrightarrow>
    session_step d s x (x\<lparr>cl := c, reply_queue := None\<rparr>)"

section \<open>Invariant\<close>

text \<open>The volume delivered so far, and the stages of a session.\<close>

definition delivered :: "session \<Rightarrow> nat" where
  "delivered x = total_sent x - in_flight x"

definition transport_ok :: "nat \<Rightarrow> nat \<Rightarrow> session \<Rightarrow> bool" where
  "transport_ok d s x \<longleftrightarrow> in_flight x \<le> total_sent x \<and> server_ok (srv x) \<and> dget (stream_bytes (srv x)) d 0 = delivered x
     \<and> (\<forall>k. k \<noteq> d \<and> (k \<noteq> s \<or> \<not> was_split x) \<longrightarrow> dget (stream_bytes (srv x)) k 0 = 0)"

definition asking :: "session \<Rightarrow> bool" where
  "asking x \<longleftrightarrow> stats_stream_id (cl x) = None \<and> request_queue x = None \<and> \<not> was_split x \<and> reply_queue x = None
     \<and> \<not> received (cl x) \<and> server_buf (cl x) = []"

definition requested :: "nat \<Rightarrow> nat \<Rightarrow> session \<Rightarrow> bool" where
  "requested d s x \<longleftrightarrow> stats_stream_id (cl x) = Some s \<and> s \<noteq> d"

definition waiting :: "session \<Rightarrow> bool" where
  "waiting x \<longleftrightarrow> request_queue x = Some STATS_MAGIC \<and> \<not> was_split x \<and> reply_queue x = None \<and> \<not> received (cl x) \<and> server_buf (cl x) = []"

definition unanswered :: "session \<Rightarrow> bool" where
  "unanswered x \<longleftrightarrow> (\<forall>q. request_queue x = Some q \<longrightarrow> length q < length STATS_MAGIC) \<and> was_split x \<and> reply_queue x = None
     \<and> \<not> received (cl x)"

definition replying :: "session \<Rightarrow> bool" where
  "replying x \<longleftrightarrow> request_queue x = None \<and> \<not> was_split x \<and> \<not> received (cl x)
     \<and> (\<exists>q v. reply_queue x = Some q \<and> server_buf (cl x) @ q = encode (dec_nat v) \<and> v \<le> delivered x)"

definition finished :: "session \<Rightarrow> bool" where
  "finished x \<longleftrightarrow> request_queue x = None \<and> \<not> was_split x \<and> reply_queue x = None \<and> received (cl x)
     \<and> (\<exists>v. server_total (cl x) = int v \<and> v \<le> delivered x)"

definition session_ok :: "nat \<Rightarrow> nat \<Rightarrow> session \<Rightarrow> bool" where
  "session_ok d s x \<longleftrightarrow> transport_ok d s x \<and>
     (asking x \<or> requested d s x \<and> (waiting x \<or> unanswered x \<or> replying x \<or> finished x))"

lemmas stage_defs = asking_def requested_def waiting_def unanswered_def replying_def finished_def delivered_def

lemma session_ok_new: "session_ok d s new_session"
  using server_ok_new
  by (simp add: session_ok_def transport_ok_def asking_def new_session_def new_client_def delivered_def) (simp add: new_server_def)

lemma stats_reply:
  assumes "transport_ok d s x" "\<not> was_split x" "server_event stamp now (StreamDataReceived s STATS_MAGIC True) (srv x) = Inr (sv, out)"
  shows "sv = srv x" "reply out = Some (s, encode (dec_nat (delivered x)))"
proof -
  from assms(1,2) have ok: "server_ok (srv x)" and get: "\<And>k. dget (stream_bytes (srv x)) k 0 = (if k = d then delivered x else 0)"
    by (auto simp: transport_ok_def)
  from server_event_stats [OF ok, of stamp now s] obtain n where
    n: "sv = srv x" "reply out = Some (s, encode (dec_nat n))" "\<forall>k. dget (stream_bytes (srv x)) k 0 \<le> n"
      "n = 0 \<or> (\<exists>k. n = dget (stream_bytes (srv x)) k 0)"
    using assms(3) by auto
  have "delivered x \<le> n" using n(3) get [of d] by (metis (full_types))
  moreover have "n \<le> delivered x" using n(4) get by (auto split: if_splits)
  ultimately show "sv = srv x" "reply out = Some (s, encode (dec_nat (delivered x)))" using n(1,2) by auto
qed

text \<open>An event that is not the whole request counts as data and is not answered.\<close>

lemma data_event:
  assumes "server_ok st" "\<not> (p = STATS_MAGIC \<and> fin)" "server_event stamp now (StreamDataReceived k p fin) st = Inr (sv, out)"
  shows "server_ok sv" "stream_bytes sv = dadd k (length p) (stream_bytes st)" "reply out = None"
  using server_event_data [OF _ assms(1), of p fin stamp now k] assms(2,3) by auto

lemma transport_deliver:
  assumes "transport_ok d s x" "0 < n" "n \<le> in_flight x"
    and "server_event stamp now (StreamDataReceived d (replicate n 0x78) False) (srv x) = Inr (sv, out)"
  shows "transport_ok d s (x\<lparr>srv := sv, in_flight := in_flight x - n\<rparr>)"
proof -
  have "server_ok (srv x)" using assms(1) by (simp add: transport_ok_def)
  from data_event(1,2) [OF this _ assms(4)]
  have "server_ok sv" "stream_bytes sv = dadd d n (stream_bytes (srv x))" by auto
  then show ?thesis using assms(1,3) by (auto simp: transport_ok_def dget_dadd delivered_def)
qed

text \<open>A part of the request, or its end after a part.\<close>

lemma request_piece:
  assumes "transport_ok d s x" "s \<noteq> d" "\<not> (p = STATS_MAGIC \<and> fin)"
    and "server_event stamp now (StreamDataReceived s p fin) (srv x) = Inr (sv, out)"
  shows "transport_ok d s (x\<lparr>srv := sv, request_queue := r, was_split := True, reply_queue := answered out (reply_queue x)\<rparr>)"
    and "answered out q = q"
proof -
  have "server_ok (srv x)" using assms(1) by (simp add: transport_ok_def)
  note e = data_event [OF this assms(3,4)]
  show "answered out q = q" by (simp add: answered_def e(3))
  show "transport_ok d s (x\<lparr>srv := sv, request_queue := r, was_split := True, reply_queue := answered out (reply_queue x)\<rparr>)"
    using assms(1,2) e(1,2) by (auto simp: transport_ok_def dget_dadd delivered_def)
qed

lemma client_piece:
  assumes "stats_stream_id c = Some s" "client_event (StreamDataReceived s p fin) c = Inr c'"
  shows "c' = (if fin then c\<lparr>server_buf := server_buf c @ p, server_total := (case int_of_bytes (server_buf c @ p) of Inl _ \<Rightarrow> 0 | Inr n \<Rightarrow> n), received := True\<rparr>
               else c\<lparr>server_buf := server_buf c @ p\<rparr>)"
  using assms by (auto simp: client_event_def Let_def split: if_splits)

lemma session_step_ok:
  assumes "session_step d s x y" "session_ok d s x"
  shows "session_ok d s y"
  using assms
proof (induction rule: session_step.induct)
  case (send_chunk x n)
  then have "transport_ok d s x" "asking x" by (auto simp: session_ok_def stage_defs)
  then show ?case by (auto simp: session_ok_def transport_ok_def stage_defs)
next
  case (deliver n x stamp now sv out)
  let ?y = "x\<lparr>srv := sv, in_flight := in_flight x - n\<rparr>"
  have t: "transport_ok d s ?y" using deliver by (auto simp: session_ok_def intro: transport_deliver)
  have "delivered x \<le> delivered ?y" by (simp add: delivered_def)
  then have "asking x \<Longrightarrow> asking ?y" "requested d s x \<Longrightarrow> requested d s ?y" "waiting x \<Longrightarrow> waiting ?y" "unanswered x \<Longrightarrow> unanswered ?y"
    "replying x \<Longrightarrow> replying ?y" "finished x \<Longrightarrow> finished ?y"
    by (auto simp: asking_def requested_def waiting_def unanswered_def replying_def finished_def intro: order_trans)
  with deliver.prems t show ?case unfolding session_ok_def by blast
next
  case (request x)
  then have "transport_ok d s x" "asking x" by (auto simp: session_ok_def stage_defs)
  then show ?case using request(2) by (auto simp: session_ok_def transport_ok_def stage_defs)
next
  case (request_part x p q stamp now sv out)
  then have t: "transport_ok d s x" and r: "requested d s x" and w: "waiting x \<or> unanswered x"
    by (auto simp: session_ok_def stage_defs)
  have "p @ q = STATS_MAGIC \<or> length (p @ q) < length STATS_MAGIC" using w request_part(1) by (simp add: waiting_def unanswered_def) blast
  moreover have "length q < length (p @ q)" using request_part(2) by simp
  ultimately have "length q < length STATS_MAGIC" by (metis less_trans)
  then have "unanswered (x\<lparr>srv := sv, request_queue := Some q, was_split := True, reply_queue := reply_queue x\<rparr>)"
    using w by (auto simp: waiting_def unanswered_def)
  moreover note request_piece [OF t _ _ request_part(3)]
  ultimately show ?case using r by (simp add: session_ok_def requested_def)
next
  case (request_end x p stamp now sv out)
  then have t: "transport_ok d s x" and r: "requested d s x" and w: "waiting x \<or> unanswered x"
    by (auto simp: session_ok_def stage_defs)
  show ?case
  proof (cases "was_split x")
    case True
    then have u: "unanswered x" using w by (auto simp: waiting_def)
    then have "\<not> (p = STATS_MAGIC \<and> True)" using request_end(1) by (auto simp: unanswered_def)
    note e = request_piece [OF t _ this request_end(2)]
    have "x\<lparr>srv := sv, request_queue := None, was_split := True, reply_queue := answered out (reply_queue x)\<rparr> =
        x\<lparr>srv := sv, request_queue := None, reply_queue := answered out (reply_queue x)\<rparr>" using True by simp
    with e(1) [of None] r have "transport_ok d s (x\<lparr>srv := sv, request_queue := None, reply_queue := answered out (reply_queue x)\<rparr>)"
      by (simp add: requested_def)
    moreover have "answered out (reply_queue x) = reply_queue x" using e(2) r by (simp add: requested_def)
    then have "unanswered (x\<lparr>srv := sv, request_queue := None, reply_queue := answered out (reply_queue x)\<rparr>)"
      using u by (auto simp: unanswered_def)
    ultimately show ?thesis using r by (simp add: session_ok_def requested_def)
  next
    case False
    then have w: "waiting x" "p = STATS_MAGIC" using w request_end(1) by (auto simp: waiting_def unanswered_def)
    note e = stats_reply [OF t False request_end(2) [unfolded w(2)]]
    have "replying (x\<lparr>srv := sv, request_queue := None, reply_queue := answered out (reply_queue x)\<rparr>)"
      using w(1) e(2) by (auto simp: waiting_def replying_def delivered_def answered_def)
    moreover have "transport_ok d s (x\<lparr>srv := sv, request_queue := None, reply_queue := answered out (reply_queue x)\<rparr>)"
      using t e(1) by (simp add: transport_ok_def delivered_def)
    ultimately show ?thesis using r by (simp add: session_ok_def requested_def)
  qed
next
  case (piece x p q c)
  then have t: "transport_ok d s x" and r: "requested d s x" and w: "replying x" by (auto simp: session_ok_def stage_defs)
  from r client_piece [OF _ piece(2)] have "c = (cl x)\<lparr>server_buf := server_buf (cl x) @ p\<rparr>" by (simp add: requested_def)
  with t w r piece(1) show ?case by (auto simp: session_ok_def transport_ok_def requested_def replying_def delivered_def)
next
  case (last_piece x p c)
  then have t: "transport_ok d s x" and r: "requested d s x" and w: "replying x" by (auto simp: session_ok_def stage_defs)
  then obtain v where v: "server_buf (cl x) @ p = encode (dec_nat v)" "v \<le> delivered x" using last_piece(1) by (auto simp: replying_def)
  from r client_piece [OF _ last_piece(2)] v(1) have "stats_stream_id c = Some s" "received c" "server_total c = int v"
    by (auto simp: requested_def int_of_bytes_encode)
  with t w r v(2) show ?case by (auto simp: session_ok_def transport_ok_def finished_def replying_def requested_def delivered_def)
qed

lemma session_reach_ok: "(session_step d s)\<^sup>*\<^sup>* new_session x \<Longrightarrow> session_ok d s x"
  by (induction rule: rtranclp_induct) (auto intro: session_ok_new session_step_ok)

section \<open>Progress\<close>

lemma replying_finishes:
  assumes "replying x" "requested d s x"
  shows "\<exists>y. session_step d s x y \<and> received (cl y)"
proof -
  from assms obtain q v where q: "reply_queue x = Some q" "stats_stream_id (cl x) = Some s" by (auto simp: replying_def requested_def)
  obtain c where "client_event (StreamDataReceived s q True) (cl x) = Inr c" "received c"
    using q(2) by (simp add: client_event_def Let_def)
  then show ?thesis using session_step.last_piece [OF q(1), of s c d] by force
qed

lemma waiting_is_served:
  assumes "transport_ok d s x" "waiting x" "requested d s x"
  shows "\<exists>y. session_step d s x y \<and> replying y \<and> requested d s y"
proof -
  from assms(1) have "server_ok (srv x)" by (simp add: transport_ok_def)
  from server_event_stats [OF this, of "[]" 0 s] obtain out where
    ev: "server_event [] 0 (StreamDataReceived s STATS_MAGIC True) (srv x) = Inr (srv x, out)" by blast
  have r: "reply out = Some (s, encode (dec_nat (delivered x)))"
    using stats_reply(2) [OF assms(1) _ ev] assms(2) by (simp add: waiting_def)
  let ?y = "x\<lparr>srv := srv x, request_queue := None, reply_queue := answered out (reply_queue x)\<rparr>"
  have "session_step d s x ?y"
    using assms(2) ev by (intro session_step.request_end) (auto simp: waiting_def)
  moreover have "replying ?y"
    using assms(2) r by (auto simp: waiting_def replying_def delivered_def answered_def)
  moreover have "requested d s ?y" using assms(3) by (simp add: requested_def)
  ultimately show ?thesis by blast
qed

text \<open>Once an event has delivered a part of the request, nothing is ever sent back.\<close>

lemma split_stays:
  assumes "(session_step d s)\<^sup>*\<^sup>* x y" "was_split x" "session_ok d s x"
  shows "was_split y \<and> session_ok d s y"
  using assms
proof (induction rule: rtranclp_induct)
  case (step y z)
  then have "was_split y" "session_ok d s y" by blast+
  from step.hyps(2) this(1) have "was_split z" by (cases rule: session_step.cases) auto
  then show ?case using session_step_ok [OF step.hyps(2)] \<open>session_ok d s y\<close> by blast
qed simp

text \<open>
  C39. The reported volume is never too large. In every interleaving of queued chunks, partial deliveries, the request, the
  answer and the pieces of the reply, a client that has received its reply holds a volume that the
  server really received, and hence at most what the client sent.
\<close>

theorem reported_volume_is_delivered:
  assumes "(session_step d s)\<^sup>*\<^sup>* new_session x" "received (cl x)"
  shows "0 \<le> server_total (cl x) \<and> server_total (cl x) \<le> int (dget (stream_bytes (srv x)) d 0)
    \<and> dget (stream_bytes (srv x)) d 0 + in_flight x = total_sent x"
proof -
  have "transport_ok d s x" "finished x"
    using session_reach_ok [OF assms(1)] assms(2) by (auto simp: session_ok_def stage_defs)
  then show ?thesis by (auto simp: transport_ok_def finished_def delivered_def)
qed

text \<open>
  C40. When the client waits in vain. From every state that a session can reach with the control stream
  open, however the data, the request and the reply are cut into events, some continuation ends with the reply received if and only
  if no event has delivered a part of the request without the end of the stream. Such a part is counted as
  data and never answered, so the client then runs into its timeout in every continuation; without it, the reply is never lost.
\<close>

theorem request_can_finish:
  assumes "(session_step d s)\<^sup>*\<^sup>* new_session x" "stats_stream_id (cl x) \<noteq> None"
  shows "(\<exists>y. (session_step d s)\<^sup>*\<^sup>* x y \<and> received (cl y)) \<longleftrightarrow> \<not> was_split x"
proof -
  note ok = session_reach_ok [OF assms(1)]
  show ?thesis
  proof (cases "was_split x")
    case True
    have "\<not> received (cl y)" if "(session_step d s)\<^sup>*\<^sup>* x y" for y
      using split_stays [OF that True ok] by (auto simp: session_ok_def stage_defs)
    then show ?thesis using True by blast
  next
    case False
    with ok assms(2) have t: "transport_ok d s x" "requested d s x" and "waiting x \<or> replying x \<or> finished x"
      by (auto simp: session_ok_def asking_def unanswered_def)
    then consider "finished x" | "replying x" | "waiting x" by blast
    then have "\<exists>y. (session_step d s)\<^sup>*\<^sup>* x y \<and> received (cl y)"
    proof cases
      case 1
      then show ?thesis by (auto simp: finished_def)
    next
      case 2
      then show ?thesis using replying_finishes [OF _ t(2)] by (meson r_into_rtranclp)
    next
      case 3
      from waiting_is_served [OF t(1) 3 t(2)] obtain y where "session_step d s x y" "replying y" "requested d s y" by blast
      then show ?thesis using replying_finishes [of y d s] by (meson converse_rtranclp_into_rtranclp r_into_rtranclp)
    qed
    with False show ?thesis by blast
  qed
qed

text \<open>A session of one chunk: 7 bytes are queued, 5 arrive before the request is served.\<close>

definition sample_requested :: session where
  "sample_requested =
     \<lparr>cl = new_client\<lparr>stats_stream_id := Some 4\<rparr>, srv = new_server, total_sent = 7, in_flight = 7,
      request_queue = Some STATS_MAGIC, was_split = False, reply_queue = None\<rparr>"

lemma sample_requested_reachable: "(session_step 0 4)\<^sup>*\<^sup>* new_session sample_requested"
proof -
  let ?x = "new_session\<lparr>total_sent := 7, in_flight := 7\<rparr>"
  have "session_step 0 4 new_session ?x"
    using session_step.send_chunk [of new_session 7 0 4] by (simp add: new_session_def new_client_def CHUNK_def)
  moreover have "session_step 0 4 ?x sample_requested"
    using session_step.request [of ?x 4 0] by (simp add: sample_requested_def new_session_def new_client_def)
  ultimately show ?thesis by (meson converse_rtranclp_into_rtranclp r_into_rtranclp)
qed

text \<open>The same session after the first three bytes of the request have arrived on their own.\<close>

definition sample_split :: session where
  "sample_split = sample_requested\<lparr>srv := \<lparr>stream_bytes = [(4, 3)], stream_start = [(4, 1)]\<rparr>,
     request_queue := Some (drop 3 STATS_MAGIC), was_split := True\<rparr>"

lemma sample_split_reachable: "(session_step 0 4)\<^sup>*\<^sup>* new_session sample_split"
proof -
  have m: "take 3 STATS_MAGIC \<noteq> STATS_MAGIC" "take 3 STATS_MAGIC \<noteq> []" "length STATS_MAGIC = 5"
    by (simp_all add: STATS_MAGIC_def)
  have "server_event [] 1 (StreamDataReceived 4 (take 3 STATS_MAGIC) False) new_server =
      Inr (\<lparr>stream_bytes = [(4, 3)], stream_start = [(4, 1)]\<rparr>, \<lparr>printed = None, reply = None\<rparr>)"
    by (simp add: server_event_def new_server_def dkeys_def dadd_def dget_def m(3))
  then have "session_step 0 4 sample_requested sample_split"
    using session_step.request_part [of sample_requested "take 3 STATS_MAGIC" "drop 3 STATS_MAGIC" "[]" 1 4 _ _ 0] m(2)
    by (simp add: sample_split_def sample_requested_def answered_def)
  with sample_requested_reachable show ?thesis by simp
qed

theorem request_can_finish_witness:
  "(\<exists>y. (session_step 0 4)\<^sup>*\<^sup>* sample_requested y \<and> received (cl y))
   \<and> \<not> (\<exists>y. (session_step 0 4)\<^sup>*\<^sup>* sample_split y \<and> received (cl y))"
  using request_can_finish [OF sample_requested_reachable] request_can_finish [OF sample_split_reachable]
  by (simp add: sample_split_def) (simp add: sample_requested_def)

lemma sample_run:
  "\<exists>x. (session_step 0 4)\<^sup>*\<^sup>* new_session x \<and> received (cl x) \<and> total_sent x = 7 \<and> in_flight x = 2 \<and> server_total (cl x) = 5"
proof -
  let ?sv = "\<lparr>stream_bytes = [(0, 5)], stream_start = [(0, 1)]\<rparr>"
  let ?a = "sample_requested\<lparr>srv := ?sv, in_flight := 2\<rparr>"
  let ?b = "?a\<lparr>srv := ?sv, request_queue := None, reply_queue := Some (encode (dec_nat 5))\<rparr>"
  let ?c = "(cl ?b)\<lparr>server_buf := encode (dec_nat 5), server_total := 5, received := True\<rparr>"
  have "server_event [] 1 (StreamDataReceived 0 (replicate 5 0x78) False) new_server = Inr (?sv, \<lparr>printed = None, reply = None\<rparr>)"
    by (simp add: server_event_def new_server_def dkeys_def dadd_def dget_def)
  then have a: "session_step 0 4 sample_requested ?a"
    using session_step.deliver [of 5 sample_requested "[]" 1 0 ?sv] by (simp add: sample_requested_def)
  have "\<exists>out. server_event [] 1 (StreamDataReceived 4 STATS_MAGIC True) ?sv = Inr (?sv, out) \<and> reply out = Some (4, encode (dec_nat 5))"
    by (simp add: server_event_def dkeys_def dget_def dlookup_def round_double_def)
  then have b: "session_step 0 4 ?a ?b"
  proof (elim exE conjE)
    fix out assume "server_event [] 1 (StreamDataReceived 4 STATS_MAGIC True) ?sv = Inr (?sv, out)" "reply out = Some (4, encode (dec_nat 5))"
    then show ?thesis
      using session_step.request_end [of ?a STATS_MAGIC "[]" 1 4 ?sv out 0] by (simp add: sample_requested_def answered_def)
  qed
  have "client_event (StreamDataReceived 4 (encode (dec_nat 5)) True) (cl ?b) = Inr ?c"
    using int_of_bytes_encode [of 5] by (simp add: client_event_def sample_requested_def new_client_def Let_def)
  then have "session_step 0 4 ?b (?b\<lparr>cl := ?c, reply_queue := None\<rparr>)" by (intro session_step.last_piece) simp_all
  with a b sample_requested_reachable have "(session_step 0 4)\<^sup>*\<^sup>* new_session (?b\<lparr>cl := ?c, reply_queue := None\<rparr>)"
    by (meson rtranclp.rtrancl_into_rtrancl)
  then show ?thesis by (intro exI conjI, assumption) (simp_all add: sample_requested_def)
qed

theorem reported_volume_is_delivered_witness:
  "\<exists>x. (session_step 0 4)\<^sup>*\<^sup>* new_session x \<and> server_total (cl x) = 5 \<and> dget (stream_bytes (srv x)) 0 0 + 2 = 7"
proof -
  from sample_run obtain x where x: "(session_step 0 4)\<^sup>*\<^sup>* new_session x" "received (cl x)" "total_sent x = 7" "in_flight x = 2"
    "server_total (cl x) = 5" by blast
  from reported_volume_is_delivered [OF x(1,2)] x show ?thesis by auto
qed

end
