(* ===== verification/Plot_Data.thy ===== *)
theory Plot_Data
  imports Byte_Accounting
begin

text \<open>
  What the figure generators under \<^verbatim>\<open>plots/\<close> compute before they draw: the sweep tables of
  \<^verbatim>\<open>plot_accuracy.py\<close> and \<^verbatim>\<open>plot_overload.py\<close>, the byte comparison of \<^verbatim>\<open>plot_bytes.py\<close> with its split into signal
  and control buckets, and the points of \<^verbatim>\<open>plot_bytes_scatter.py\<close>. The loaders share the
  contract \<open>keyed_rows\<close>: a table is read row by row into a dictionary, a row either gives one
  item, is skipped, or raises. Drawing is not modelled.
\<close>

section \<open>Floating-point text\<close>

text \<open>
  \<^verbatim>\<open>float(s)\<close>: an optional sign, then \<open>inf\<close>, \<open>infinity\<close> or \<open>nan\<close> in any case, or a numeral with at most one
  point, single underscores between digits and an optional exponent. Finite values are
  rounded to a double of the normal range.
\<close>

datatype pyfloat = Fin rat | Inf bool | NaN

definition lower_char :: "char \<Rightarrow> char" where
  "lower_char c = (let n = of_char c :: nat in if 65 \<le> n \<and> n \<le> 90 then char_of (n + 32) else c)"

definition plain_digits :: "string \<Rightarrow> string option" where
  "plain_digits p =
     (if p = [] then Some []
      else let qs = split_on (CHR ''_'') p in if \<forall>q \<in> set qs. isdigit q then Some (concat qs) else None)"

definition exponent_of :: "string \<Rightarrow> int option" where
  "exponent_of e =
     (let (neg, ds) = (case e of [] \<Rightarrow> (False, []) | c # cs \<Rightarrow>
            if c = CHR ''-'' then (True, cs) else if c = CHR ''+'' then (False, cs) else (False, e))
      in case plain_digits ds of
           None \<Rightarrow> None
         | Some d \<Rightarrow> if d = [] then None else Some (if neg then - int (nat_of_digits d) else int (nat_of_digits d)))"

definition mantissa_of :: "string \<Rightarrow> rat option" where
  "mantissa_of m =
     (case map plain_digits (split_on (CHR ''.'') m) of
        [Some a] \<Rightarrow> if a = [] then None else Some (of_nat (nat_of_digits a))
      | [Some a, Some b] \<Rightarrow> if a @ b = [] then None else Some (of_nat (nat_of_digits (a @ b)) / 10 ^ length b)
      | _ \<Rightarrow> None)"

definition magnitude_of :: "string \<Rightarrow> rat option" where
  "magnitude_of t =
     (case split_on (CHR ''e'') t of
        [m] \<Rightarrow> mantissa_of m
      | [m, e] \<Rightarrow> (case (mantissa_of m, exponent_of e) of (Some x, Some k) \<Rightarrow> Some (x * 10 powi k) | _ \<Rightarrow> None)
      | _ \<Rightarrow> None)"

definition py_float :: "string \<Rightarrow> pyfloat result" where
  "py_float s =
     (let t = map lower_char (strip s);
          (neg, u) = (case t of [] \<Rightarrow> (False, []) | c # cs \<Rightarrow>
            if c = CHR ''-'' then (True, cs) else if c = CHR ''+'' then (False, cs) else (False, t))
      in if u = ''inf'' \<or> u = ''infinity'' then Inr (Inf neg)
         else if u = ''nan'' then Inr NaN
         else (case magnitude_of u of
                 None \<Rightarrow> Inl ValueError
               | Some x \<Rightarrow> Inr (Fin (if neg then - round_double x else round_double x))))"

section \<open>Rows\<close>

type_synonym csv_row = "(string, string option) dict"

text \<open>\<^verbatim>\<open>int(r[name])\<close>, \<^verbatim>\<open>float(r[name])\<close>, and the truth value of \<^verbatim>\<open>r[name]\<close>.\<close>

definition int_field :: "csv_row \<Rightarrow> string \<Rightarrow> int result" where
  "int_field r name = bindE (dlookup r name) (\<lambda>v. case v of None \<Rightarrow> Inl TypeError | Some s \<Rightarrow> py_int s)"

definition float_field :: "csv_row \<Rightarrow> string \<Rightarrow> pyfloat result" where
  "float_field r name = bindE (dlookup r name) (\<lambda>v. case v of None \<Rightarrow> Inl TypeError | Some s \<Rightarrow> py_float s)"

definition filled :: "string option \<Rightarrow> bool" where
  "filled v \<longleftrightarrow> v \<noteq> None \<and> v \<noteq> Some []"

section \<open>Sweep tables\<close>

record sweep_point =
  cids :: int
  pcap_bk :: int
  switch_bk :: int
  sweep_accuracy :: pyfloat

text \<open>One row of \<^verbatim>\<open>plot_accuracy.py\<close>: the values are converted before the key.\<close>

definition sweep_item :: "csv_row \<Rightarrow> (int \<times> sweep_point) option result" where
  "sweep_item r =
     bindE (dlookup r ''accuracy_pct'') (\<lambda>a.
       if \<not> filled a then Inr None
       else
         bindE (int_field r ''distinct_cids'') (\<lambda>n.
         bindE (int_field r ''pcap_buckets'') (\<lambda>p.
         bindE (int_field r ''switch_buckets'') (\<lambda>s.
         bindE (float_field r ''accuracy_pct'') (\<lambda>acc.
         bindE (int_field r ''L'') (\<lambda>l.
           Inr (Some (l, \<lparr>cids = n, pcap_bk = p, switch_bk = s, sweep_accuracy = acc\<rparr>))))))))"

definition sweep_step :: "(int, sweep_point) dict \<Rightarrow> csv_row \<Rightarrow> (int, sweep_point) dict result" where
  "sweep_step d r = mapE (\<lambda>x. case x of None \<Rightarrow> d | Some (k, v) \<Rightarrow> AList.update k v d) (sweep_item r)"

definition load_sweep :: "string \<Rightarrow> (int list \<times> int list \<times> int list \<times> int list \<times> pyfloat list) result" where
  "load_sweep text =
     mapE (\<lambda>rws.
         let ls = sort (dkeys rws); pts = map (\<lambda>l. the (map_of rws l)) ls
         in (ls, map cids pts, map pcap_bk pts, map switch_bk pts, map sweep_accuracy pts))
       (foldE sweep_step [] (dict_rows text))"

text \<open>\<^verbatim>\<open>plot_overload.py\<close> keeps the row itself and converts its values afterwards.\<close>

definition overload_item :: "csv_row \<Rightarrow> (int \<times> csv_row) option result" where
  "overload_item r =
     bindE (dlookup r ''accuracy_pct'') (\<lambda>a.
       if \<not> filled a then Inr None else bindE (int_field r ''L'') (\<lambda>l. Inr (Some (l, r))))"

definition overload_step :: "(int, csv_row) dict \<Rightarrow> csv_row \<Rightarrow> (int, csv_row) dict result" where
  "overload_step d r = mapE (\<lambda>x. case x of None \<Rightarrow> d | Some (k, v) \<Rightarrow> AList.update k v d) (overload_item r)"

definition load_overload :: "string \<Rightarrow> (int list \<times> int list \<times> int list \<times> pyfloat list) result" where
  "load_overload text =
     bindE (foldE overload_step [] (dict_rows text)) (\<lambda>rws.
       let ls = sort (dkeys rws); row = (\<lambda>l. the (map_of rws l))
       in bindE (sequenceE (map (\<lambda>l. int_field (row l) ''distinct_cids'') ls)) (\<lambda>ns.
          bindE (sequenceE (map (\<lambda>l. int_field (row l) ''switch_buckets'') ls)) (\<lambda>ss.
          bindE (sequenceE (map (\<lambda>l. float_field (row l) ''accuracy_pct'') ls)) (\<lambda>accs.
            Inr (ls, ns, ss, accs)))))"

section \<open>Byte comparison\<close>

record byte_point =
  bp_bucket :: int
  app_bytes :: int
  switch_bytes :: int
  rel_err :: pyfloat
  switch_pkts :: int

definition diff_item :: "csv_row \<Rightarrow> byte_point option result" where
  "diff_item r =
     (if \<not> filled (dget r ''app_bytes'' None) then Inr None
      else
        bindE (int_field r ''bucket'') (\<lambda>b.
        bindE (int_field r ''app_bytes'') (\<lambda>a.
        bindE (int_field r ''switch_bytes'') (\<lambda>s.
        bindE (float_field r ''rel_err'') (\<lambda>e.
        bindE (int_field r ''switch_pkts'') (\<lambda>p.
          Inr (Some \<lparr>bp_bucket = b, app_bytes = a, switch_bytes = s, rel_err = e, switch_pkts = p\<rparr>)))))))"

definition load_diff :: "string \<Rightarrow> byte_point list result" where
  "load_diff text =
     mapE (\<lambda>xs. sort_key (\<lambda>d. - app_bytes d) [p. Some p \<leftarrow> xs]) (sequenceE (map diff_item (dict_rows text)))"

text \<open>\<^verbatim>\<open>KeyError\<close> and \<^verbatim>\<open>ValueError\<close> skip a row; the value is converted before the key.\<close>

definition switch_item :: "csv_row \<Rightarrow> (int \<times> int) option result" where
  "switch_item r =
     (case bindE (int_or_zero r ''bytes'') (\<lambda>n. bindE (int_field r ''bucket'') (\<lambda>b. Inr (b, n))) of
        Inr x \<Rightarrow> Inr (Some x)
      | Inl e \<Rightarrow> if e = KeyError \<or> e = ValueError then Inr None else Inl e)"

definition load_switch_step :: "(int, int) dict \<Rightarrow> csv_row \<Rightarrow> (int, int) dict result" where
  "load_switch_step d r = mapE (\<lambda>x. case x of None \<Rightarrow> d | Some (k, v) \<Rightarrow> AList.update k v d) (switch_item r)"

definition load_switch :: "string \<Rightarrow> (int, int) dict result" where
  "load_switch text = foldE load_switch_step [] (dict_rows text)"

text \<open>Buckets on the switch that no row of the comparison names, heaviest first.\<close>

definition control_buckets :: "byte_point list \<Rightarrow> (int, int) dict \<Rightarrow> int list" where
  "control_buckets diff sw =
     sort_key (\<lambda>b. - dget sw b 0) [b \<leftarrow> dkeys sw. b \<notin> set (map bp_bucket diff)]"

text \<open>The points of the size sweep; no point at all ends the script.\<close>

definition scatter_item :: "csv_row \<Rightarrow> (int \<times> int \<times> pyfloat) option result" where
  "scatter_item r =
     (if \<not> filled (dget r ''app_bytes'' None) then Inr None
      else
        bindE (int_field r ''app_bytes'') (\<lambda>a.
        bindE (int_field r ''switch_bytes'') (\<lambda>s.
        bindE (float_field r ''rel_err'') (\<lambda>e. Inr (Some (a, s, e))))))"

definition scatter_points :: "string \<Rightarrow> string \<Rightarrow> (int \<times> int \<times> pyfloat) list result" where
  "scatter_points path text =
     bindE (sequenceE (map scatter_item (dict_rows text))) (\<lambda>xs.
       let ps = [p. Some p \<leftarrow> xs]
       in if ps = [] then Inl (SysExit (''no rows in '' @ path @ '' -- run run_bytes_sweep.sh first'')) else Inr ps)"

section \<open>Loading rows into a dictionary\<close>

text \<open>
  The contract of a loader: a row gives an item, gives nothing, or raises; an item overwrites an
  earlier one with the same key. \<open>items\<close> are the items of a list of rows.
\<close>

locale keyed_rows =
  fixes step :: "('k, 'v) dict \<Rightarrow> 'r \<Rightarrow> ('k, 'v) dict result"
    and row_item :: "'r \<Rightarrow> ('k \<times> 'v) option result"
  assumes step_item: "step d r = mapE (\<lambda>x. case x of None \<Rightarrow> d | Some (k, v) \<Rightarrow> AList.update k v d) (row_item r)"
begin

definition items :: "'r list \<Rightarrow> ('k \<times> 'v) list" where
  "items rs = List.map_filter (\<lambda>r. case row_item r of Inl e \<Rightarrow> None | Inr x \<Rightarrow> x) rs"

lemma items_simps:
  "items [] = []" "items (r # rs) = (case row_item r of Inr (Some kv) \<Rightarrow> kv # items rs | _ \<Rightarrow> items rs)"
  by (simp_all add: items_def map_filter_simps split: sum.split option.split)

lemma load_eq:
  "foldE step d rs =
     (case sequenceE (map row_item rs) of Inl e \<Rightarrow> Inl e | Inr _ \<Rightarrow> Inr (dupdate d (items rs)))"
proof (induction rs arbitrary: d)
  case (Cons r rs)
  show ?case
  proof (cases "row_item r")
    case (Inr x)
    then have "foldE step d (r # rs) = foldE step (case x of None \<Rightarrow> d | Some (k, v) \<Rightarrow> AList.update k v d) rs"
      by (simp add: step_item)
    also have "\<dots> = (case sequenceE (map row_item rs) of Inl e \<Rightarrow> Inl e
        | Inr _ \<Rightarrow> Inr (dupdate (case x of None \<Rightarrow> d | Some (k, v) \<Rightarrow> AList.update k v d) (items rs)))" by (rule Cons.IH)
    finally show ?thesis using Inr by (cases x) (auto simp: items_simps split: sum.split)
  qed (simp add: step_item)
qed (simp add: items_simps)

text \<open>The last item of a key wins, and nothing else is in the dictionary.\<close>

lemma map_of_dupdate_last: "map_of (dupdate d kvs) k = (case map_of (rev kvs) k of None \<Rightarrow> map_of d k | Some v \<Rightarrow> Some v)"
  by (induction kvs arbitrary: d) (auto simp: map_add_def split: option.split)

lemma load_last:
  assumes "foldE step [] rs = Inr d"
  shows "dict_ok d" "map_of d k = map_of (rev (items rs)) k" "set (dkeys d) = fst ` set (items rs)"
proof -
  have d: "d = dupdate [] (items rs)" using assms by (simp add: load_eq split: sum.splits)
  then show "dict_ok d" by simp
  show m: "map_of d k = map_of (rev (items rs)) k" for k by (simp add: d map_of_dupdate_last split: option.split)
  have "dom (map_of d) = dom (map_of (rev (items rs)))" using m by (simp add: dom_def)
  then show "set (dkeys d) = fst ` set (items rs)" by (simp add: dkeys_def dom_map_of_conv_image_fst)
qed

end

interpretation acc: keyed_rows sweep_step sweep_item
  by unfold_locales (simp add: sweep_step_def)

interpretation ovl: keyed_rows overload_step overload_item
  by unfold_locales (simp add: overload_step_def)

interpretation lsw: keyed_rows load_switch_step switch_item
  by unfold_locales (simp add: load_switch_step_def)

section \<open>The sweep figures\<close>

text \<open>The complete rows of a sweep table.\<close>

definition complete_rows :: "string \<Rightarrow> (int \<times> sweep_point) list" where
  "complete_rows text = List.map_filter (\<lambda>r. case sweep_item r of Inl e \<Rightarrow> None | Inr x \<Rightarrow> x) (dict_rows text)"

text \<open>The row that \<^verbatim>\<open>plot_overload.py\<close> keeps converts to the point that \<^verbatim>\<open>plot_accuracy.py\<close> keeps.\<close>

definition row_point :: "csv_row \<Rightarrow> sweep_point \<Rightarrow> bool" where
  "row_point r pt \<longleftrightarrow> int_field r ''distinct_cids'' = Inr (cids pt) \<and> int_field r ''switch_buckets'' = Inr (switch_bk pt)
     \<and> float_field r ''accuracy_pct'' = Inr (sweep_accuracy pt)"

definition same_items :: "(int, sweep_point) dict \<Rightarrow> (int, csv_row) dict \<Rightarrow> bool" where
  "same_items = list_all2 (\<lambda>(k, pt) (j, r). k = j \<and> row_point r pt)"

lemma sweep_item_overload:
  assumes "sweep_item r = Inr x"
  shows "overload_item r = Inr (map_option (\<lambda>(l, pt). (l, r)) x)" "x = Some (l, pt) \<Longrightarrow> row_point r pt"
  using assms by (auto simp: sweep_item_def overload_item_def row_point_def bindE_eq_Inr_iff split: if_splits)

lemma same_items_update:
  "same_items d e \<Longrightarrow> row_point r pt \<Longrightarrow> same_items (AList.update k pt d) (AList.update k r e)"
  unfolding same_items_def by (induction d e rule: list_all2_induct) auto

lemma overload_follows_sweep:
  "foldE sweep_step d rs = Inr d' \<Longrightarrow> same_items d e \<Longrightarrow> \<exists>e'. foldE overload_step e rs = Inr e' \<and> same_items d' e'"
proof (induction rs arbitrary: d e)
  case (Cons r rs)
  from Cons.prems(1) obtain x where x: "sweep_item r = Inr x"
    and rest: "foldE sweep_step (case x of None \<Rightarrow> d | Some (k, v) \<Rightarrow> AList.update k v d) rs = Inr d'"
    by (auto simp: sweep_step_def [of d r] bindE_eq_Inr_iff mapE_eq_Inr_iff)
  have "same_items (case x of None \<Rightarrow> d | Some (k, v) \<Rightarrow> AList.update k v d) (case x of None \<Rightarrow> e | Some (k, v) \<Rightarrow> AList.update k r e)"
    using Cons.prems(2) sweep_item_overload(2) [OF x] same_items_update by (auto split: option.split)
  from Cons.IH [OF rest this] show ?case
    using sweep_item_overload(1) [OF x] by (cases x) (auto simp: overload_step_def [of e r])
qed simp

lemma same_items_keys: "same_items d e \<Longrightarrow> dkeys e = dkeys d"
  unfolding same_items_def dkeys_def by (induction d e rule: list_all2_induct) auto

lemma same_items_point:
  "same_items d e \<Longrightarrow> l \<in> set (dkeys d) \<Longrightarrow> row_point (the (map_of e l)) (the (map_of d l))"
  unfolding same_items_def dkeys_def by (induction d e rule: list_all2_induct) auto

lemma sequenceE_Inr: "\<forall>x \<in> set xs. f x = Inr (g x) \<Longrightarrow> sequenceE (map f xs) = Inr (map g xs)"
  by (induction xs) auto

lemma overload_series:
  assumes "same_items d e"
  shows "sequenceE (map (\<lambda>l. int_field (the (map_of e l)) ''distinct_cids'') (sort (dkeys d))) =
      Inr (map (\<lambda>l. cids (the (map_of d l))) (sort (dkeys d)))"
    and "sequenceE (map (\<lambda>l. int_field (the (map_of e l)) ''switch_buckets'') (sort (dkeys d))) =
      Inr (map (\<lambda>l. switch_bk (the (map_of d l))) (sort (dkeys d)))"
    and "sequenceE (map (\<lambda>l. float_field (the (map_of e l)) ''accuracy_pct'') (sort (dkeys d))) =
      Inr (map (\<lambda>l. sweep_accuracy (the (map_of d l))) (sort (dkeys d)))"
  using same_items_point [OF assms] by (intro sequenceE_Inr; simp add: row_point_def)+

text \<open>
  C37. Both sweep figures show the same data. Whenever the table of \<^verbatim>\<open>plot_accuracy.py\<close> loads, its flow counts are
  sorted and without repetition, they are those of the complete rows, every point is the last
  complete row of its flow count, and \<^verbatim>\<open>plot_overload.py\<close> draws exactly the same series from the file.
\<close>

theorem sweep_series_keep_last:
  assumes "load_sweep text = Inr (ls, ns, ps, ss, accs)"
  shows "sorted ls \<and> distinct ls \<and> set ls = fst ` set (complete_rows text)
    \<and> (\<forall>i < length ls. map_of (rev (complete_rows text)) (ls ! i) =
         Some \<lparr>cids = ns ! i, pcap_bk = ps ! i, switch_bk = ss ! i, sweep_accuracy = accs ! i\<rparr>)
    \<and> load_overload text = Inr (ls, ns, ss, accs)"
proof -
  from assms obtain d where d: "foldE sweep_step [] (dict_rows text) = Inr d"
    and ls: "ls = sort (dkeys d)" and cols: "ns = map (\<lambda>l. cids (the (map_of d l))) ls" "ps = map (\<lambda>l. pcap_bk (the (map_of d l))) ls"
      "ss = map (\<lambda>l. switch_bk (the (map_of d l))) ls" "accs = map (\<lambda>l. sweep_accuracy (the (map_of d l))) ls"
    by (auto simp: load_sweep_def mapE_eq_Inr_iff Let_def comp_def)
  have items: "acc.items (dict_rows text) = complete_rows text" by (simp add: complete_rows_def acc.items_def)
  note last = acc.load_last [OF d, unfolded items]
  have "map_of (rev (complete_rows text)) (ls ! i) = Some (the (map_of d (ls ! i)))" if "i < length ls" for i
  proof -
    have "ls ! i \<in> set (dkeys d)" using nth_mem [OF that] unfolding ls by simp
    then have "map_of d (ls ! i) \<noteq> None" by (simp add: map_of_eq_None_iff dkeys_def)
    then show ?thesis using last(2) [of "ls ! i"] by auto
  qed
  then have "\<forall>i < length ls. map_of (rev (complete_rows text)) (ls ! i) =
         Some \<lparr>cids = ns ! i, pcap_bk = ps ! i, switch_bk = ss ! i, sweep_accuracy = accs ! i\<rparr>" by (simp add: cols)
  moreover have "sorted ls" "distinct ls" "set ls = fst ` set (complete_rows text)"
    using last(1,3) by (simp_all add: ls dict_ok_def dkeys_def)
  moreover have "load_overload text = Inr (ls, ns, ss, accs)"
  proof -
    have "same_items [] []" by (simp add: same_items_def)
    from overload_follows_sweep [OF d this] obtain e where e: "foldE overload_step [] (dict_rows text) = Inr e" "same_items d e" by blast
    then show ?thesis using overload_series [OF e(2)] by (simp add: load_overload_def same_items_keys cols ls Let_def)
  qed
  ultimately show ?thesis by blast
qed


text \<open>A table of plain fields, as the shell drivers of the sweeps write it.\<close>

fun csv_line :: "string list \<Rightarrow> string" where
  "csv_line [] = [CHR 0x0A]"
| "csv_line [f] = f @ [CHR 0x0A]"
| "csv_line (f # fs) = f @ CHR '','' # csv_line fs"

lemma csv_go_line:
  "fs \<noteq> [] \<Longrightarrow> \<forall>f \<in> set fs. plain f \<Longrightarrow>
     csv_go StartField [] rec (csv_line fs @ cs) = (rev rec @ fs) # csv_go StartRecord [] [] cs"
  by (induction fs arbitrary: rec rule: csv_line.induct) (simp_all add: csv_go_field csv_go_ends del: csv_go.simps)

lemma csv_go_record:
  assumes "fs \<noteq> []" "\<forall>f \<in> set fs. plain f"
  shows "csv_go StartRecord [] [] (csv_line fs @ cs) = fs # csv_go StartRecord [] [] cs"
proof (cases fs rule: csv_line.cases)
  case (3 f g gs)
  with assms csv_go_line [of "g # gs" "[f]" cs] show ?thesis by (simp add: csv_go_field csv_go_ends del: csv_go.simps)
qed (use assms in \<open>simp_all add: csv_go_field csv_go_ends del: csv_go.simps\<close>)

lemma csv_rows_lines: "\<forall>fs \<in> set fss. fs \<noteq> [] \<and> (\<forall>f \<in> set fs. plain f) \<Longrightarrow> csv_rows (concat (map csv_line fss)) = fss"
  unfolding csv_rows_def by (induction fss) (simp_all add: csv_go_record del: csv_go.simps, simp)

lemma dict_rows_lines:
  assumes "\<forall>fs \<in> set (names # fss). fs \<noteq> [] \<and> (\<forall>f \<in> set fs. plain f)"
  shows "dict_rows (concat (map csv_line (names # fss))) = map (dict_row names) fss"
proof -
  have "[r \<leftarrow> fss. r \<noteq> []] = fss" using assms by (intro filter_True) auto
  then show ?thesis unfolding dict_rows_def csv_rows_lines [OF assms] by simp
qed

definition sample_sweep :: "string list list" where
  "sample_sweep = [''L'', ''distinct_cids'', ''pcap_buckets'', ''switch_buckets'', ''accuracy_pct''] #
     [[''4'', ''9'', ''9'', ''9'', ''50''], [''2'', ''5'', ''5'', ''5'', ''50''], [''2'', ''6'', ''6'', ''6'', ''100'']]"

theorem sweep_series_keep_last_witness:
  "load_overload (concat (map csv_line sample_sweep)) = Inr ([2, 4], [6, 9], [6, 9], [Fin 100, Fin 50])"
proof -
  have plain: "\<forall>fs \<in> set sample_sweep. fs \<noteq> [] \<and> (\<forall>f \<in> set fs. plain f)"
    by (simp add: sample_sweep_def plain_def csv_break_def)
  have "foldE sweep_step [] (map (dict_row (hd sample_sweep)) (tl sample_sweep)) =
      Inr [(4, \<lparr>cids = 9, pcap_bk = 9, switch_bk = 9, sweep_accuracy = Fin 50\<rparr>),
           (2, \<lparr>cids = 6, pcap_bk = 6, switch_bk = 6, sweep_accuracy = Fin 100\<rparr>)]" by code_simp
  then have "load_sweep (concat (map csv_line sample_sweep)) = Inr ([2, 4], [6, 9], [6, 9], [6, 9], [Fin 100, Fin 50])"
    using dict_rows_lines [of "hd sample_sweep" "tl sample_sweep"] plain by (simp add: load_sweep_def sample_sweep_def dkeys_def)
  from sweep_series_keep_last [OF this] show ?thesis by blast
qed

section \<open>The byte figures\<close>

lemma map_update: "map (\<lambda>(k, v). (k, f v)) (AList.update k v d) = AList.update k (f v) (map (\<lambda>(k, v). (k, f v)) d)"
  by (induction d) auto

lemma py_int_error: "py_int s = Inl e \<Longrightarrow> e = ValueError"
  by (auto simp: py_int_def split: list.splits if_splits option.splits)

lemma int_or_zero_error: "int_or_zero r k = Inl e \<Longrightarrow> e = ValueError"
  using py_int_error by (auto simp: int_or_zero_def split: option.splits if_splits)

lemma switch_item_skip:
  assumes "int_field r ''bucket'' = Inl e" "e = KeyError \<or> e = ValueError"
  shows "switch_item r = Inr None"
  using assms int_or_zero_error [of r "''bytes''"] by (cases "int_or_zero r ''bytes''") (auto simp: switch_item_def)

definition bytes_of :: "(int, int \<times> int) dict \<Rightarrow> (int, int) dict" where
  "bytes_of d = map (\<lambda>(b, v). (b, snd v)) d"

lemma switch_row_bytes:
  assumes "switch_row d r = Inr d'"
  shows "\<exists>x. switch_item r = Inr x \<and> bytes_of d' = (case x of None \<Rightarrow> bytes_of d | Some (k, v) \<Rightarrow> AList.update k v (bytes_of d))"
proof -
  consider (missing) "map_of r ''bucket'' = None" | (bad) s e where "map_of r ''bucket'' = Some (Some s)" "py_int s = Inl e"
    | (good) s b where "map_of r ''bucket'' = Some (Some s)" "py_int s = Inr b"
    using assms by (cases "map_of r ''bucket''") (auto simp: switch_row_def split: option.splits sum.splits)
  then show ?thesis
  proof cases
    case missing
    then have "switch_item r = Inr None" by (intro switch_item_skip) (auto simp: int_field_def dlookup_def)
    with missing assms show ?thesis by (simp add: switch_row_def)
  next
    case bad
    then have "switch_item r = Inr None"
      using py_int_error [OF bad(2)] by (intro switch_item_skip) (auto simp: int_field_def dlookup_def)
    with bad assms show ?thesis by (simp add: switch_row_def)
  next
    case good
    with assms obtain p n where "int_or_zero r ''bytes'' = Inr n" "d' = AList.update b (p, n) d"
      by (auto simp: switch_row_def bindE_eq_Inr_iff)
    with good show ?thesis by (simp add: switch_item_def int_field_def dlookup_def bytes_of_def map_update)
  qed
qed

lemma load_switch_bytes:
  "foldE switch_row d rs = Inr d' \<Longrightarrow> foldE load_switch_step (bytes_of d) rs = Inr (bytes_of d')"
proof (induction rs arbitrary: d)
  case (Cons r rs)
  then obtain d1 where d1: "switch_row d r = Inr d1" "foldE switch_row d1 rs = Inr d'" by (auto simp: bindE_eq_Inr_iff)
  from switch_row_bytes [OF d1(1)] have "load_switch_step (bytes_of d) r = Inr (bytes_of d1)"
    by (auto simp: load_switch_step_def)
  with Cons.IH [OF d1(2)] show ?case by simp
qed simp

text \<open>
  Figure and report read one dump: whenever \<^verbatim>\<open>analyze_bytes.py\<close> loads a counter dump, \<^verbatim>\<open>plot_bytes.py\<close> loads the same buckets with
  the same byte counts; its control buckets are exactly the dumped buckets that no row of the comparison names,
  each once, heaviest first.
\<close>

theorem figure_reads_the_dump:
  assumes "load_switch_csv text = Inr d"
  shows "\<exists>sw. load_switch text = Inr sw \<and> dict_ok sw \<and> dkeys sw = dkeys d \<and> dvalues sw = map snd (dvalues d)
    \<and> set (control_buckets diff sw) = set (dkeys d) - bp_bucket ` set diff \<and> distinct (control_buckets diff sw)
    \<and> sorted_wrt (\<lambda>a b. dget sw a 0 \<ge> dget sw b 0) (control_buckets diff sw)"
proof -
  have load: "load_switch text = Inr (bytes_of d)"
    using load_switch_bytes [of "[]" "dict_rows text" d] assms by (simp add: load_switch_def load_switch_csv_def bytes_of_def)
  then have ok: "dict_ok (bytes_of d)" using lsw.load_last(1) by (simp add: load_switch_def)
  have vals: "dkeys (bytes_of d) = dkeys d" "dvalues (bytes_of d) = map snd (dvalues d)"
    by (simp_all add: bytes_of_def dkeys_def dvalues_def case_prod_beta comp_def)
  have "sorted (map (\<lambda>b. - dget (bytes_of d) b 0) (control_buckets diff (bytes_of d)))" by (simp add: control_buckets_def)
  then have "sorted_wrt (\<lambda>a b. dget (bytes_of d) a 0 \<ge> dget (bytes_of d) b 0) (control_buckets diff (bytes_of d))"
    by (simp add: sorted_map)
  moreover have "set (control_buckets diff (bytes_of d)) = set (dkeys d) - bp_bucket ` set diff"
    by (auto simp: control_buckets_def vals)
  moreover have "distinct (control_buckets diff (bytes_of d))" using ok by (simp add: control_buckets_def dict_ok_def dkeys_def)
  ultimately show ?thesis using load ok vals by blast
qed

theorem figure_reads_the_dump_witness:
  "\<exists>sw. load_switch (bytes_csv [(7, 3, 900), (9, 1, 60)]) = Inr sw \<and> set (control_buckets [] sw) = {7, 9}"
proof -
  have "load_switch_csv (bytes_csv [(7, 3, 900), (9, 1, 60)]) = Inr [(7, 3, 900), (9, 1, 60)]"
    by (rule load_bytes_csv) (simp add: dict_ok_def)
  from figure_reads_the_dump [OF this, of "[]"] show ?thesis by (auto simp: dkeys_def)
qed

section \<open>The CID-length study\<close>

text \<open>
  \<^verbatim>\<open>plot_cidlen.py\<close>: one overload sweep per length of the connection ID, each from the first of its
  candidate directories that has a table. \<open>files\<close> gives the text of \<^verbatim>\<open>overload_results.csv\<close> in a directory
  next to the plots. The points are sorted as tuples; since a \<^verbatim>\<open>nan\<close> makes their comparison partial,
  and the result of a sort by a partial comparison is not documented, the sort is the argument \<open>srt\<close>.
\<close>

type_synonym cid_point = "int \<times> int \<times> pyfloat"

definition SERIES :: "(nat \<times> string \<times> string list) list" where
  "SERIES =
     [(4, ''#95253B'', [''cid04_overload'']),
      (8, ''#FFA500'', [''cid08_overload'', ''2pow20_overload'']),
      (12, ''#E5B245'', [''cid12_overload'']),
      (16, ''#82AA45'', [''cid16_overload'']),
      (20, ''#2D72B7'', [''cid20_overload''])]"

definition cid_row_point :: "csv_row \<Rightarrow> cid_point result" where
  "cid_row_point r =
     bindE (int_field r ''distinct_cids'') (\<lambda>n.
     bindE (int_field r ''switch_buckets'') (\<lambda>s.
     bindE (float_field r ''accuracy_pct'') (\<lambda>acc. Inr (n, s, acc))))"

definition cidlen_load ::
  "(cid_point list \<Rightarrow> cid_point list) \<Rightarrow> (string \<Rightarrow> string option) \<Rightarrow> string list \<Rightarrow>
   (int list \<times> int list \<times> pyfloat list) option result" where
  "cidlen_load srt files dirs =
     (case List.find (\<lambda>d. files d \<noteq> None) dirs of
        None \<Rightarrow> Inr None
      | Some d \<Rightarrow>
          bindE (foldE overload_step [] (dict_rows (the (files d)))) (\<lambda>rws.
          bindE (sequenceE (map (\<lambda>l. cid_row_point (the (map_of rws l))) (dkeys rws))) (\<lambda>ps.
            let pts = srt ps
            in Inr (Some (map fst pts, map (fst \<circ> snd) pts, map (snd \<circ> snd) pts)))))"

definition only_existing :: "(nat \<times> string \<times> 'a option) list \<Rightarrow> (nat \<times> string \<times> 'a) list" where
  "only_existing loaded = List.map_filter (\<lambda>(n, c, x). map_option (\<lambda>y. (n, c, y)) x) loaded"

definition cidlen_data ::
  "(cid_point list \<Rightarrow> cid_point list) \<Rightarrow> (string \<Rightarrow> string option) \<Rightarrow>
   ((nat \<times> string \<times> int list \<times> int list \<times> pyfloat list) list \<times> int list) result" where
  "cidlen_data srt files =
     bindE (sequenceE (map (\<lambda>(n, c, dirs). mapE (\<lambda>x. (n, c, x)) (cidlen_load srt files dirs)) SERIES)) (\<lambda>loaded.
       let data = only_existing loaded
       in if data = [] then Inl (SysExit ''no CID-length data found -- run run_overload.sh per CIDLEN first'')
          else Inr (data, sorted_list_of_set (\<Union>(n, c, cs, bs, as) \<in> set data. set cs)))"

text \<open>Comparison of floats and of points as tuples: the first components that differ decide.\<close>

fun float_less :: "pyfloat \<Rightarrow> pyfloat \<Rightarrow> bool" where
  "float_less NaN y = False"
| "float_less x NaN = False"
| "float_less (Fin a) (Fin b) = (a < b)"
| "float_less (Fin a) (Inf neg) = (\<not> neg)"
| "float_less (Inf neg) (Fin b) = neg"
| "float_less (Inf neg) (Inf neg') = (neg \<and> \<not> neg')"

definition tuple_less :: "cid_point \<Rightarrow> cid_point \<Rightarrow> bool" where
  "tuple_less p q =
     (case (p, q) of ((n, s, a), (n', s', a')) \<Rightarrow>
        if n \<noteq> n' then n < n' else if s \<noteq> s' then s < s' else float_less a a')"

text \<open>What is documented of the sort: a permutation, in order when the comparison is total.\<close>

definition sorts_points :: "(cid_point list \<Rightarrow> cid_point list) \<Rightarrow> bool" where
  "sorts_points srt \<longleftrightarrow> (\<forall>ps. mset (srt ps) = mset ps
     \<and> (NaN \<notin> (snd \<circ> snd) ` set ps \<longrightarrow> sorted_wrt (\<lambda>p q. \<not> tuple_less q p) (srt ps)))"

lemma sequenceE_InrD: "sequenceE (map f xs) = Inr ys \<Longrightarrow> ys = map (\<lambda>x. projr (f x)) xs \<and> (\<forall>x \<in> set xs. f x = Inr (projr (f x)))"
  by (induction xs arbitrary: ys) (auto simp: bindE_eq_Inr_iff mapE_eq_Inr_iff)

lemma cid_row_pointD:
  "cid_row_point r = Inr p \<Longrightarrow> int_field r ''distinct_cids'' = Inr (fst p) \<and> int_field r ''switch_buckets'' = Inr (fst (snd p))
     \<and> float_field r ''accuracy_pct'' = Inr (snd (snd p))"
  by (auto simp: cid_row_point_def bindE_eq_Inr_iff)

lemma zip3_map: "zip (map f xs) (zip (map g xs) (map h xs)) = map (\<lambda>x. (f x, g x, h x)) xs"
  by (induction xs) auto

lemma sorted_points: "sorted_wrt (\<lambda>p q. \<not> tuple_less q p) ps \<Longrightarrow> sorted (map fst ps)"
  unfolding sorted_map by (rule sorted_wrt_mono_rel) (auto simp: tuple_less_def split: prod.splits if_splits)

lemma cidlen_load_sweep:
  assumes "sorts_points srt" "cidlen_load srt files dirs = Inr (Some (cs, bs, as))"
  shows "\<exists>d text ls ns ss accs. List.find (\<lambda>d. files d \<noteq> None) dirs = Some d \<and> files d = Some text
    \<and> load_overload text = Inr (ls, ns, ss, accs) \<and> mset (zip cs (zip bs as)) = mset (zip ns (zip ss accs))
    \<and> (NaN \<notin> set as \<longrightarrow> sorted cs)"
proof -
  from assms(2) obtain d where d: "List.find (\<lambda>d. files d \<noteq> None) dirs = Some d"
    by (auto simp: cidlen_load_def split: option.splits)
  then obtain t where fd: "files d = Some t" by (auto simp: find_Some_iff)
  obtain rws ps where rws: "foldE overload_step [] (dict_rows t) = Inr rws"
    and ps: "sequenceE (map (\<lambda>l. cid_row_point (the (map_of rws l))) (dkeys rws)) = Inr ps"
    and cols: "cs = map fst (srt ps)" "bs = map (fst \<circ> snd) (srt ps)" "as = map (snd \<circ> snd) (srt ps)"
    using assms(2) d fd by (auto simp: cidlen_load_def bindE_eq_Inr_iff Let_def)
  define pt where "pt l = projr (cid_row_point (the (map_of rws l)))" for l
  have p: "ps = map pt (dkeys rws)" "\<forall>l \<in> set (dkeys rws). cid_row_point (the (map_of rws l)) = Inr (pt l)"
    using sequenceE_InrD [OF ps] by (auto simp: pt_def [abs_def])
  let ?ks = "sort (dkeys rws)"
  have "load_overload t = Inr (?ks, map (fst \<circ> pt) ?ks, map (fst \<circ> snd \<circ> pt) ?ks, map (snd \<circ> snd \<circ> pt) ?ks)"
    using p(2) cid_row_pointD by (simp add: load_overload_def rws Let_def sequenceE_Inr [where g = "fst \<circ> pt"]
        sequenceE_Inr [where g = "fst \<circ> snd \<circ> pt"] sequenceE_Inr [where g = "snd \<circ> snd \<circ> pt"])
  moreover have "mset (zip cs (zip bs as)) = mset (zip (map (fst \<circ> pt) ?ks) (zip (map (fst \<circ> snd \<circ> pt) ?ks) (map (snd \<circ> snd \<circ> pt) ?ks)))"
    using assms(1) by (simp add: cols zip3_map sorts_points_def p(1))
  moreover have "NaN \<notin> set as \<longrightarrow> sorted cs"
  proof
    assume "NaN \<notin> set as"
    moreover have "set (srt ps) = set ps" using assms(1) by (metis sorts_points_def mset_eq_setD)
    ultimately have "NaN \<notin> (snd \<circ> snd) ` set ps" by (simp add: cols)
    then show "sorted cs" using assms(1) sorted_points by (simp add: cols sorts_points_def)
  qed
  ultimately show ?thesis using d fd by blast
qed

lemma cidlen_load_missing:
  assumes "cidlen_load srt files dirs = Inr x"
  shows "x = None \<longleftrightarrow> (\<forall>d \<in> set dirs. files d = None)"
proof (cases "List.find (\<lambda>d. files d \<noteq> None) dirs")
  case None
  then have "\<forall>d \<in> set dirs. files d = None" by (auto simp: find_None_iff)
  moreover have "x = None" using assms None by (simp add: cidlen_load_def)
  ultimately show ?thesis by blast
next
  case (Some d)
  then have "d \<in> set dirs" "files d \<noteq> None" by (auto simp: find_Some_iff)
  moreover have "x \<noteq> None" using assms Some by (auto simp: cidlen_load_def bindE_eq_Inr_iff Let_def)
  ultimately show ?thesis by auto
qed

lemma loaded_lengths:
  "sequenceE (map (\<lambda>(n, c, dirs). mapE (\<lambda>x. (n, c, x)) (cidlen_load srt files dirs)) series) = Inr loaded \<Longrightarrow>
    map fst (only_existing loaded) = map fst [(n, c, dirs) \<leftarrow> series. \<exists>d \<in> set dirs. files d \<noteq> None]"
proof (induction series arbitrary: loaded)
  case (Cons e series)
  obtain n c dirs where e: "e = (n, c, dirs)" by (cases e)
  with Cons.prems obtain x rest where x: "cidlen_load srt files dirs = Inr x" "loaded = (n, c, x) # rest"
    and rest: "sequenceE (map (\<lambda>(n, c, dirs). mapE (\<lambda>x. (n, c, x)) (cidlen_load srt files dirs)) series) = Inr rest"
    by (auto simp: bindE_eq_Inr_iff mapE_eq_Inr_iff)
  show ?case
    using Cons.IH [OF rest] cidlen_load_missing [OF x(1)] x(2) by (cases x) (simp_all add: e only_existing_def map_filter_simps)
qed (simp add: only_existing_def map_filter_simps)

lemma loaded_series:
  assumes "sequenceE (map (\<lambda>(n, c, dirs). mapE (\<lambda>x. (n, c, x)) (cidlen_load srt files dirs)) series) = Inr loaded"
    and "(n, c, x) \<in> set (only_existing loaded)"
  shows "\<exists>dirs. (n, c, dirs) \<in> set series \<and> cidlen_load srt files dirs = Inr (Some x)"
proof -
  have "(n, c, Some x) \<in> set loaded" using assms(2) by (auto simp: only_existing_def List.map_filter_def)
  then obtain e where e: "e \<in> set series" "(\<lambda>(n, c, dirs). mapE (\<lambda>x. (n, c, x)) (cidlen_load srt files dirs)) e = Inr (n, c, Some x)"
    using sequenceE_InrD [OF assms(1)] by auto
  obtain m k dirs where m: "e = (m, k, dirs)" by (cases e)
  then have "m = n" "k = c" "cidlen_load srt files dirs = Inr (Some x)" using e(2) by (auto simp: mapE_eq_Inr_iff)
  with e(1) m show ?thesis by blast
qed

text \<open>
  C38. The CID-length figures show the sweeps that were run. When the data load, there is one series for
  every length that has a table in one of its candidate directories, in the order of the study; it is
  read from the first such directory and holds exactly the points that the overload figure draws for
  that table, by increasing number of connection IDs unless an accuracy is \<^verbatim>\<open>nan\<close>. The numbers on the axis are those of
  all series, sorted and without repetition.
\<close>

theorem cidlen_series_are_the_sweeps:
  assumes "sorts_points srt" "cidlen_data srt files = Inr (data, allcids)"
  shows "data \<noteq> [] \<and> map fst data = map fst [(n, c, dirs) \<leftarrow> SERIES. \<exists>d \<in> set dirs. files d \<noteq> None]
    \<and> (\<forall>(n, c, cs, bs, as) \<in> set data. \<exists>dirs d text ls ns ss accs.
         (n, c, dirs) \<in> set SERIES \<and> List.find (\<lambda>d. files d \<noteq> None) dirs = Some d \<and> files d = Some text
       \<and> load_overload text = Inr (ls, ns, ss, accs) \<and> mset (zip cs (zip bs as)) = mset (zip ns (zip ss accs))
       \<and> (NaN \<notin> set as \<longrightarrow> sorted cs))
    \<and> sorted allcids \<and> distinct allcids \<and> set allcids = (\<Union>(n, c, cs, bs, as) \<in> set data. set cs)"
proof -
  obtain loaded where l: "sequenceE (map (\<lambda>(n, c, dirs). mapE (\<lambda>x. (n, c, x)) (cidlen_load srt files dirs)) SERIES) = Inr loaded"
    and data: "data = only_existing loaded" "data \<noteq> []"
    and all: "allcids = sorted_list_of_set (\<Union>(n, c, cs, bs, as) \<in> set data. set cs)"
    using assms(2) by (auto simp: cidlen_data_def bindE_eq_Inr_iff Let_def split: if_splits)
  have fin: "finite (\<Union>(n, c, cs, bs, as) \<in> set data. set cs)" by auto
  let ?Q = "\<lambda>n c cs bs as. \<exists>dirs d text ls ns ss accs.
         (n, c, dirs) \<in> set SERIES \<and> List.find (\<lambda>d. files d \<noteq> None) dirs = Some d \<and> files d = Some text
       \<and> load_overload text = Inr (ls, ns, ss, accs) \<and> mset (zip cs (zip bs as)) = mset (zip ns (zip ss accs))
       \<and> (NaN \<notin> set as \<longrightarrow> sorted cs)"
  have "\<forall>(n, c, cs, bs, as) \<in> set data. ?Q n c cs bs as"
  proof
    fix e assume el: "e \<in> set data"
    obtain n c cs bs as where e: "e = (n, c, cs, bs, as)" by (rule prod_cases5)
    obtain dirs where dirs: "(n, c, dirs) \<in> set SERIES" "cidlen_load srt files dirs = Inr (Some (cs, bs, as))"
      using loaded_series [OF l] el unfolding data e by blast
    have "?Q n c cs bs as" using cidlen_load_sweep [OF assms(1) dirs(2)] dirs(1) by blast
    then show "case e of (n, c, cs, bs, as) \<Rightarrow> ?Q n c cs bs as" by (simp only: e prod.case)
  qed
  moreover have "sorted allcids \<and> distinct allcids \<and> set allcids = (\<Union>(n, c, cs, bs, as) \<in> set data. set cs)"
    using fin by (simp add: all)
  moreover have "map fst data = map fst [(n, c, dirs) \<leftarrow> SERIES. \<exists>d \<in> set dirs. files d \<noteq> None]"
    using loaded_lengths [OF l] unfolding data .
  ultimately show ?thesis using data(2) by (intro conjI) simp_all
qed

text \<open>Insertion is such a sort.\<close>

fun insert_point :: "cid_point \<Rightarrow> cid_point list \<Rightarrow> cid_point list" where
  "insert_point p [] = [p]"
| "insert_point p (q # qs) = (if tuple_less p q then p # q # qs else q # insert_point p qs)"

definition sort_points :: "cid_point list \<Rightarrow> cid_point list" where
  "sort_points ps = foldr insert_point ps []"

lemma float_not_less_trans:
  "a \<noteq> NaN \<Longrightarrow> b \<noteq> NaN \<Longrightarrow> c \<noteq> NaN \<Longrightarrow> \<not> float_less b a \<Longrightarrow> \<not> float_less c b \<Longrightarrow> \<not> float_less c a"
  by (cases a; cases b; cases c) auto

lemma float_less_asym: "float_less a b \<Longrightarrow> \<not> float_less b a"
  by (cases a; cases b) auto

lemma tuple_not_less_trans:
  assumes "\<not> tuple_less q p" "\<not> tuple_less r q" "snd (snd p) \<noteq> NaN" "snd (snd q) \<noteq> NaN" "snd (snd r) \<noteq> NaN"
  shows "\<not> tuple_less r p"
  using assms float_not_less_trans [of "snd (snd p)" "snd (snd q)" "snd (snd r)"]
  by (cases p; cases q; cases r) (auto simp: tuple_less_def split: if_splits)

lemma tuple_less_asym: "tuple_less p q \<Longrightarrow> \<not> tuple_less q p"
  using float_less_asym by (auto simp: tuple_less_def split: prod.splits if_splits)

lemma mset_insert_point: "mset (insert_point p qs) = add_mset p (mset qs)"
  by (induction qs) auto

lemma set_insert_point: "set (insert_point p qs) = insert p (set qs)"
  by (induction qs) auto

lemma sorted_insert_point:
  "sorted_wrt (\<lambda>p q. \<not> tuple_less q p) qs \<Longrightarrow> \<forall>q \<in> insert p (set qs). snd (snd q) \<noteq> NaN \<Longrightarrow>
     sorted_wrt (\<lambda>p q. \<not> tuple_less q p) (insert_point p qs)"
proof (induction qs)
  case (Cons q qs)
  have "\<not> tuple_less r p" if "tuple_less p q" "r \<in> set qs" for r
    using tuple_not_less_trans [of q p r] tuple_less_asym [OF that(1)] that(2) Cons.prems by simp
  moreover have "sorted_wrt (\<lambda>p q. \<not> tuple_less q p) (insert_point p qs)" using Cons.IH Cons.prems by simp
  ultimately show ?case
    using Cons.prems(1) tuple_less_asym [of p q] by (cases "tuple_less p q") (simp_all add: set_insert_point)
qed simp

lemma sorts_points_sort_points: "sorts_points sort_points"
proof -
  have m: "mset (foldr insert_point ps []) = mset ps" for ps by (induction ps) (simp_all add: mset_insert_point)
  have "sorted_wrt (\<lambda>p q. \<not> tuple_less q p) (foldr insert_point ps [])" if "NaN \<notin> (snd \<circ> snd) ` set ps" for ps
    using that
  proof (induction ps)
    case (Cons p ps)
    have "set (foldr insert_point ps []) = set ps" using m by (metis mset_eq_setD)
    moreover have "\<forall>q \<in> insert p (set ps). snd (snd q) \<noteq> NaN" using Cons.prems by force
    moreover have "NaN \<notin> (snd \<circ> snd) ` set ps" using Cons.prems by simp
    ultimately show ?case using Cons.IH sorted_insert_point [of "foldr insert_point ps []" p] by simp
  qed simp
  with m show ?thesis by (simp add: sorts_points_def sort_points_def)
qed

definition sample_files :: "string \<Rightarrow> string option" where
  "sample_files d = (if d = ''2pow20_overload'' then Some (concat (map csv_line sample_sweep)) else None)"

lemma sample_data:
  "cidlen_data sort_points sample_files = Inr ([(8, ''#FFA500'', [6, 9], [6, 9], [Fin 100, Fin 50])], [6, 9])"
proof -
  have rows: "dict_rows (concat (map csv_line sample_sweep)) = map (dict_row (hd sample_sweep)) (tl sample_sweep)"
    using dict_rows_lines [of "hd sample_sweep" "tl sample_sweep"] by (simp add: sample_sweep_def plain_def csv_break_def)
  have "bindE (foldE overload_step [] (map (dict_row (hd sample_sweep)) (tl sample_sweep))) (\<lambda>rws.
      sequenceE (map (\<lambda>l. cid_row_point (the (map_of rws l))) (dkeys rws))) = Inr [(9, 9, Fin 50), (6, 6, Fin 100)]" by code_simp
  then have "cidlen_load sort_points sample_files [''cid08_overload'', ''2pow20_overload''] = Inr (Some ([6, 9], [6, 9], [Fin 100, Fin 50]))"
    by (auto simp: cidlen_load_def sample_files_def rows bindE_eq_Inr_iff sort_points_def tuple_less_def)
  moreover have "cidlen_load sort_points sample_files [''cid04_overload''] = Inr None" "cidlen_load sort_points sample_files [''cid12_overload''] = Inr None"
    "cidlen_load sort_points sample_files [''cid16_overload''] = Inr None" "cidlen_load sort_points sample_files [''cid20_overload''] = Inr None"
    by (simp_all add: cidlen_load_def sample_files_def)
  ultimately show ?thesis
    by (simp add: cidlen_data_def SERIES_def only_existing_def map_filter_simps)
qed

theorem cidlen_series_are_the_sweeps_witness:
  "\<exists>text ls ns ss accs. sample_files ''2pow20_overload'' = Some text \<and> load_overload text = Inr (ls, ns, ss, accs)
    \<and> mset (zip ns (zip ss accs)) = {#(6, 6, Fin 100), (9, 9, Fin 50)#}"
proof -
  obtain d text' ls ns ss accs where w: "sample_files d = Some text'" "load_overload text' = Inr (ls, ns, ss, accs)"
    "mset (zip [6, 9] (zip [6, 9] [Fin 100, Fin 50])) = mset (zip ns (zip ss accs))"
    using cidlen_series_are_the_sweeps [OF sorts_points_sort_points sample_data, THEN conjunct2, THEN conjunct2, THEN conjunct1]
    unfolding list.set ball_simps prod.case by blast
  then have "d = ''2pow20_overload''" by (simp add: sample_files_def split: if_splits)
  moreover have "mset (zip ns (zip ss accs)) = {#(6, 6, Fin 100), (9, 9, Fin 50)#}" using w(3) by simp
  ultimately show ?thesis using w(1,2) by blast
qed

end
