(* ===== verification/Byte_Figures.thy ===== *)
theory Byte_Figures
  imports Csv_Files Plot_Data
begin

text \<open>
  From the byte report to its figures: the file that \<^verbatim>\<open>analyze_bytes.py --csv\<close> writes, and what
  \<^verbatim>\<open>plot_bytes.py\<close> makes of it. The text of a float is the argument \<open>shown\<close>; that a float is read
  back from its text is a hypothesis on the texts of the file.
\<close>

section \<open>The csv of differences\<close>

definition diff_columns :: "string list" where
  "diff_columns = [''bucket'', ''app_bytes'', ''switch_bytes'', ''delta'', ''rel_err'', ''switch_pkts'']"

definition diff_texts :: "(relerr \<Rightarrow> string) \<Rightarrow> diff_row \<Rightarrow> string list" where
  "diff_texts shown r =
     [dec_int (row_bucket r), dec_int (row_app r), dec_int (row_switch r), dec_int (row_delta r), shown (row_rel r),
      dec_int (row_pkts r)]"

definition diff_csv :: "(relerr \<Rightarrow> string) \<Rightarrow> diff_row list \<Rightarrow> string" where
  "diff_csv shown rs = concat (map (csv_record CRLF) (diff_columns # map (diff_texts shown) rs))"

text \<open>\<^verbatim>\<open>main\<close> as a whole: the report, and the file when it is asked for and there is a matched bucket.\<close>

definition analyze_bytes_main ::
  "(relerr \<Rightarrow> string) \<Rightarrow> (int set \<Rightarrow> int list) \<Rightarrow> string \<Rightarrow> string \<Rightarrow> string option \<Rightarrow> nat \<Rightarrow> int \<Rightarrow> bool \<Rightarrow>
   ((flow list \<times> warning list \<times> report) \<times> string option) result" where
  "analyze_bytes_main shown it logged_text path csv_text counter_bits topk csv =
     mapE (\<lambda>(flows, ws, rep).
         ((flows, ws, rep), if csv \<and> diff_rows rep \<noteq> [] then Some (diff_csv shown (diff_rows rep)) else None))
       (analyze_bytes it logged_text path csv_text counter_bits topk)"

section \<open>The figure shows the report\<close>

text \<open>A relative error as a float of the plotting tools, and the point of a row.\<close>

definition double_of :: "relerr \<Rightarrow> pyfloat" where
  "double_of r = (case r of Finite x \<Rightarrow> Fin x | Infinite \<Rightarrow> Inf False)"

definition point_of :: "diff_row \<Rightarrow> byte_point" where
  "point_of r = \<lparr>bp_bucket = row_bucket r, app_bytes = row_app r, switch_bytes = row_switch r,
     rel_err = double_of (row_rel r), switch_pkts = row_pkts r\<rparr>"

lemma dec_int_not_Nil: "dec_int i \<noteq> []"
  using plain_dec_int [of i] by (simp add: plain_def)

lemma dict_rows_csv:
  assumes "\<forall>r \<in> set recs. r \<noteq> []"
  shows "dict_rows (concat (map (csv_record CRLF) (names # recs))) = map (dict_row names) recs"
proof -
  have "csv_rows (concat (map (csv_record CRLF) (names # recs))) = names # recs"
    by (rule csv_rows_records) (simp add: line_end_def)
  then show ?thesis unfolding dict_rows_def using assms by (simp add: filter_True)
qed

lemma diff_item_texts:
  assumes "py_float (shown (row_rel r)) = Inr (double_of (row_rel r))"
  shows "diff_item (dict_row diff_columns (diff_texts shown r)) = Inr (Some (point_of r))"
  using assms
  by (simp add: diff_item_def diff_columns_def diff_texts_def dict_row_def filled_def dget_def int_field_def float_field_def
      dlookup_def py_int_dec_int dec_int_not_Nil point_of_def)

lemma load_diff_csv:
  assumes "\<And>r. r \<in> set rs \<Longrightarrow> py_float (shown (row_rel r)) = Inr (double_of (row_rel r))"
    and "sorted (map (\<lambda>r. - row_app r) rs)"
  shows "load_diff (diff_csv shown rs) = Inr (map point_of rs)"
proof -
  have "dict_rows (diff_csv shown rs) = map (dict_row diff_columns \<circ> diff_texts shown) rs"
    using dict_rows_csv [of "map (diff_texts shown) rs" diff_columns] by (simp add: diff_csv_def diff_texts_def)
  moreover have "sequenceE (map (diff_item \<circ> (dict_row diff_columns \<circ> diff_texts shown)) rs) = Inr (map (Some \<circ> point_of) rs)"
    using assms(1) by (intro sequenceE_Inr) (simp add: diff_item_texts)
  moreover have "sort_key (\<lambda>d. - app_bytes d) (map point_of rs) = map point_of rs"
    using assms(2) by (intro sort_key_id_if_sorted) (simp add: point_of_def comp_def)
  ultimately show ?thesis by (simp add: load_diff_def concat_map_singleton comp_def)
qed

lemma diff_rows_sorted: "sorted (map (\<lambda>r. - row_app r) (diff_rows (print_report it app switch topk)))"
proof -
  have "row_app (diff_of app switch b) = dget app b 0" for b
    by (simp add: diff_of_def Let_def split: prod.split)
  then show ?thesis by (simp add: print_report_def Let_def heaviest_def comp_def)
qed

lemma report_buckets:
  assumes "enumerates it"
  shows "row_bucket ` set (diff_rows (print_report it app switch topk)) = set (dkeys app) \<inter> set (dkeys switch)"
    and "unexplained (print_report it app switch topk) =
      take 20 (heaviest (\<lambda>b. dget (map (\<lambda>(b, v). (b, snd v)) switch) b 0) (it (set (dkeys switch) - set (dkeys app))))"
proof -
  have "row_bucket (diff_of app switch b) = b" for b
    by (simp add: diff_of_def Let_def split: prod.split)
  moreover have "set (it (set (dkeys app) \<inter> set (dkeys switch))) = set (dkeys app) \<inter> set (dkeys switch)"
    using assms by (simp add: enumerates_def)
  ultimately show "row_bucket ` set (diff_rows (print_report it app switch topk)) = set (dkeys app) \<inter> set (dkeys switch)"
    by (simp add: print_report_def Let_def heaviest_def image_image)
  show "unexplained (print_report it app switch topk) =
      take 20 (heaviest (\<lambda>b. dget (map (\<lambda>(b, v). (b, snd v)) switch) b 0) (it (set (dkeys switch) - set (dkeys app))))"
    by (simp add: print_report_def Let_def)
qed

lemma unexplained_controls:
  assumes "enumerates it" "distinct ctl" "set ctl = set (dkeys switch) - set (dkeys app)"
  shows "set (unexplained (print_report it app switch topk)) \<subseteq> set ctl
    \<and> (length ctl \<le> 20 \<longrightarrow> set (unexplained (print_report it app switch topk)) = set ctl)"
proof -
  let ?h = "heaviest (\<lambda>b. dget (map (\<lambda>(b, v). (b, snd v)) switch) b 0) (it (set (dkeys switch) - set (dkeys app)))"
  have it: "set (it (set (dkeys switch) - set (dkeys app))) = set ctl" "distinct (it (set (dkeys switch) - set (dkeys app)))"
    using assms(1,3) by (auto simp: enumerates_def)
  then have h: "set ?h = set ctl" "length ?h = length ctl"
    using distinct_card [OF assms(2)] distinct_card [OF it(2)] by (simp_all add: heaviest_def)
  show ?thesis unfolding report_buckets(2) [OF assms(1)] using set_take_subset [of 20 ?h] h by auto
qed

text \<open>
  C27. The byte figures show the byte report. When \<^verbatim>\<open>analyze_bytes.py --csv\<close> writes its file, \<^verbatim>\<open>plot_bytes.py\<close> loads from it exactly the
  rows of the report, in the order of the report and with the same numbers, provided the relative errors are read back from their
  text; from the same dump it finds as control buckets the buckets that the report calls unexplained:
  those that are printed are among them, and they are all of them when there are at most twenty.
\<close>

theorem figure_shows_the_report:
  assumes "enumerates it"
    and "analyze_bytes_main shown it logged_text path (Some dump) counter_bits topk csv = Inr ((flows, ws, rep), Some contents)"
    and "\<forall>r \<in> set (diff_rows rep). py_float (shown (row_rel r)) = Inr (double_of (row_rel r))"
  shows "\<exists>sw. load_diff contents = Inr (map point_of (diff_rows rep)) \<and> load_switch dump = Inr sw
    \<and> (let ctl = control_buckets (map point_of (diff_rows rep)) sw in
       distinct ctl \<and> set ctl = set (dkeys sw) - row_bucket ` set (diff_rows rep)
       \<and> set (unexplained rep) \<subseteq> set ctl \<and> (length ctl \<le> 20 \<longrightarrow> set (unexplained rep) = set ctl))"
proof -
  obtain app switch where d: "load_switch_csv dump = Inr switch" and rep: "rep = print_report it app switch topk"
    and f: "contents = diff_csv shown (diff_rows rep)"
    using assms(2) by (auto simp: analyze_bytes_main_def analyze_bytes_def mapE_eq_Inr_iff bindE_eq_Inr_iff split: if_splits)
  have load: "load_diff contents = Inr (map point_of (diff_rows rep))"
    unfolding f using assms(3) diff_rows_sorted by (intro load_diff_csv) (auto simp: rep)
  let ?pts = "map point_of (diff_rows rep)"
  have bk: "bp_bucket ` set ?pts = set (dkeys app) \<inter> set (dkeys switch)" "row_bucket ` set (diff_rows rep) = set (dkeys app) \<inter> set (dkeys switch)"
    using report_buckets(1) [OF assms(1), of app switch topk] by (simp_all add: rep point_of_def image_image)
  obtain sw where sw: "load_switch dump = Inr sw" "dkeys sw = dkeys switch" "distinct (control_buckets ?pts sw)"
    "set (control_buckets ?pts sw) = set (dkeys switch) - bp_bucket ` set ?pts"
    using figure_reads_the_dump [OF d, of ?pts] by blast
  then have ctl: "set (control_buckets ?pts sw) = set (dkeys switch) - set (dkeys app)" unfolding bk by blast
  show ?thesis
    using load sw unexplained_controls [OF assms(1) sw(3) ctl, of topk] unfolding bk
    by (intro exI [of _ sw]) (simp add: Let_def rep [symmetric] bk)
qed

text \<open>A bucket for which the switch counted a third less than the application: the relative error is the double next to \<open>- 1 / 3\<close>.\<close>

definition sample_byte_log :: string where
  "sample_byte_log = log_text [Connected 0 [0xCD] 5, Delivered 0 60 []]"

definition sample_byte_dump :: string where
  "sample_byte_dump = bytes_csv [(5, 800, 400000), (9, 1, 60)]"

definition sample_shown :: "relerr \<Rightarrow> string" where
  "sample_shown r = ''-0.3333333333333333''"

definition sample_diff :: diff_row where
  "sample_diff = \<lparr>row_bucket = 5, row_app = 600000, row_switch = 400000, row_delta = -200000,
     row_rel = Finite (- round_double (1 / 3)), row_pkts = 800\<rparr>"

lemma sample_report:
  "\<exists>rep. analyze_bytes_main sample_shown sorted_list_of_set sample_byte_log ''switch_bytes.csv'' (Some sample_byte_dump) 15 10 True =
      Inr (([(0, 5, 5, 600000)], [], rep), Some (diff_csv sample_shown (diff_rows rep))) \<and> diff_rows rep = [sample_diff]"
proof -
  have "foldE log_line ([], []) (splitlines sample_byte_log) = Inr ([(0, 5)], [(0, 600000)])"
    unfolding sample_byte_log_def using log_events_fold [of "[Connected 0 [0xCD] 5, Delivered 0 60 []]"] by simp
  then have p: "parse_client_log sample_byte_log (counter_mask 15) = Inr ([(5, 600000)], [(0, 5, 5, 600000)], [])"
    by (simp add: parse_client_log_def log_flow_def fold_warnings_def dkeys_def dadd_def dunion_def dget_def counter_mask_def push_bit_eq_mult)
  have l: "load_switch_csv sample_byte_dump = Inr [(5, 800, 400000), (9, 1, 60)]"
    unfolding sample_byte_dump_def by (rule load_bytes_csv) (simp add: dict_ok_def)
  have "round_double (- (1 / 3)) = - round_double (1 / 3)" by (rule round_double_minus)
  then have r: "diff_rows (print_report sorted_list_of_set [(5, 600000)] [(5, 800, 400000), (9, 1, 60)] 10) = [sample_diff]"
    by (simp add: print_report_def Let_def dkeys_def heaviest_def diff_of_def dget_def sample_diff_def)
  then show ?thesis by (simp add: analyze_bytes_main_def analyze_bytes_def p l)
qed

text \<open>The sixteen printed digits denote the double next to a third.\<close>

lemma third_digits: "round_double (3333333333333333 / 10 ^ 16) = round_double (1 / 3)"
proof -
  have e: "binary_exponent (3333333333333333 / 10 ^ 16) = - 2" "binary_exponent (1 / 3) = - 2" by code_simp+
  have "round_even (3333333333333333 / 10 ^ 16 * 2 ^ 54) = 6004799503160661" "round_even (1 / 3 * 2 ^ 54) = 6004799503160661"
    by code_simp+
  moreover have "2 powi (- 2 - 52) = (1 / 2 ^ 54 :: rat)" by (simp add: power_int_def field_simps)
  ultimately show ?thesis unfolding round_double_def using e by (simp add: Let_def)
qed

lemma sample_shown_read: "py_float (sample_shown r) = Inr (Fin (- round_double (1 / 3)))"
proof -
  have "magnitude_of ''0.3333333333333333'' = Some (3333333333333333 / 10 ^ 16)"
    by (simp add: magnitude_of_def mantissa_of_def plain_digits_def nat_of_digits_def isdigit_def is_digit_def digit_val_def)
  then show ?thesis
    using third_digits by (simp add: py_float_def sample_shown_def lower_char_def strip_def is_space_def)
qed

theorem figure_shows_the_report_witness:
  "\<exists>contents sw pt. load_diff contents = Inr [pt] \<and> bp_bucket pt = 5 \<and> app_bytes pt = 600000
    \<and> rel_err pt = Fin (- round_double (1 / 3)) \<and> load_switch sample_byte_dump = Inr sw
    \<and> set (dkeys sw) - {5} = set (control_buckets [pt] sw)"
proof -
  obtain rep where r: "analyze_bytes_main sample_shown sorted_list_of_set sample_byte_log ''switch_bytes.csv'' (Some sample_byte_dump) 15 10 True =
      Inr (([(0, 5, 5, 600000)], [], rep), Some (diff_csv sample_shown (diff_rows rep)))"
    and d: "diff_rows rep = [sample_diff]"
    using sample_report by blast
  have "\<forall>r \<in> set (diff_rows rep). py_float (sample_shown (row_rel r)) = Inr (double_of (row_rel r))"
    by (simp add: d sample_shown_read double_of_def sample_diff_def)
  moreover have "enumerates (sorted_list_of_set :: int set \<Rightarrow> int list)" by (simp add: enumerates_def)
  ultimately obtain sw where sw: "load_diff (diff_csv sample_shown (diff_rows rep)) = Inr (map point_of (diff_rows rep))"
    "load_switch sample_byte_dump = Inr sw"
    "set (control_buckets (map point_of (diff_rows rep)) sw) = set (dkeys sw) - row_bucket ` set (diff_rows rep)"
    using figure_shows_the_report [OF _ r] unfolding Let_def by blast
  have "map point_of (diff_rows rep) = [point_of sample_diff]" "row_bucket ` set (diff_rows rep) = {5}"
    "bp_bucket (point_of sample_diff) = 5" "app_bytes (point_of sample_diff) = 600000"
    "rel_err (point_of sample_diff) = Fin (- round_double (1 / 3))"
    by (simp_all add: d point_of_def sample_diff_def double_of_def)
  with sw show ?thesis by metis
qed

end
