(* ===== verification/Notebook.thy ===== *)
theory Notebook
  imports Byte_Accounting "HOL-Library.Monad_Syntax" "HOL-Library.List_Lexorder" "HOL-Library.Char_ord"
begin

text \<open>
  The program parts of the experiment notebook \<^verbatim>\<open>create_topology_organized.ipynb\<close>: the reader
  of \<^verbatim>\<open>ping\<close> summaries, the socket monitor (patterns over the output of \<^verbatim>\<open>ss -tin\<close>, one flow per
  established socket, a summary per host, acknowledgement rates between polls) and the throughput
  and fairness series of the plots. Running commands on the hosts and drawing are not modelled.
  Floats are doubles: every addition, product, quotient and conversion of an int is rounded. The sums of
  \<^verbatim>\<open>sum\<close> are those of CPython before version 3.12, a chain of additions.
\<close>

section \<open>Patterns\<close>

text \<open>\<^verbatim>\<open>\b\<close> followed by a pattern that starts with a letter: \<open>w\<close> tells whether the previous character is a word character.\<close>

fun search_word :: "(string \<Rightarrow> 'a option) \<Rightarrow> bool \<Rightarrow> string \<Rightarrow> 'a option" where
  "search_word m w [] = None"
| "search_word m w (c # cs) =
     (case (if w then None else m (c # cs)) of Some x \<Rightarrow> Some x | None \<Rightarrow> search_word m (is_word c) cs)"

text \<open>\<^verbatim>\<open>\b\<close> after a word character.\<close>

definition boundary :: "string \<Rightarrow> bool" where
  "boundary s \<longleftrightarrow> s = [] \<or> \<not> is_word (hd s)"

definition guard :: "bool \<Rightarrow> unit option" where
  "guard b = (if b then Some () else None)"

text \<open>\<^verbatim>\<open>float(s)\<close> of a numeral that the pattern matched.\<close>

definition float_of :: "string \<Rightarrow> rat option" where
  "float_of s = map_option round_double (decimal_value s)"

text \<open>\<^verbatim>\<open>\d+(?:\.\d+)?\<close> followed by what \<open>k\<close> accepts: with the fraction if possible.\<close>

definition match_number :: "(string \<Rightarrow> 'a option) \<Rightarrow> string \<Rightarrow> (string \<times> 'a) option" where
  "match_number k s =
     do {
       (d, r) \<leftarrow> many1 is_digit s;
       case do { r1 \<leftarrow> strip_prefix ''.'' r; (f, r2) \<leftarrow> many1 is_digit r1; x \<leftarrow> k r2; Some (d @ ''.'' @ f, x) } of
         Some y \<Rightarrow> Some y
       | None \<Rightarrow> do { x \<leftarrow> k r; Some (d, x) }
     }"

definition match_boundary :: "string \<Rightarrow> unit option" where
  "match_boundary r = guard (boundary r)"

definition find_int :: "string \<Rightarrow> string \<Rightarrow> nat option" where
  "find_int text key =
     search_word (\<lambda>s. do {
       r \<leftarrow> strip_prefix (key @ '':'') s;
       (d, r1) \<leftarrow> many1 is_digit r;
       match_boundary r1;
       Some (nat_of_digits d)
     }) False text"

definition find_float :: "string \<Rightarrow> string \<Rightarrow> rat option" where
  "find_float text key =
     search_word (\<lambda>s. do {
       r \<leftarrow> strip_prefix (key @ '':'') s;
       (d, _) \<leftarrow> match_number match_boundary r;
       float_of d
     }) False text"

definition find_rtt :: "string \<Rightarrow> (rat \<times> rat) option" where
  "find_rtt text =
     search_word (\<lambda>s. do {
       r \<leftarrow> strip_prefix ''rtt:'' s;
       (a, b, _) \<leftarrow> match_number (\<lambda>r1. do { r2 \<leftarrow> strip_prefix ''/'' r1; match_number match_boundary r2 }) r;
       x \<leftarrow> float_of a;
       y \<leftarrow> float_of b;
       Some (x, y)
     }) False text"

text \<open>\<^verbatim>\<open>(\d+)([KMG]?)bps\<close> and its value in bit/s.\<close>

definition unit_scale :: "char \<Rightarrow> rat option" where
  "unit_scale c =
     (if c = CHR ''K'' then Some (10 ^ 3) else if c = CHR ''M'' then Some (10 ^ 6)
      else if c = CHR ''G'' then Some (10 ^ 9) else None)"

definition match_bps :: "string \<Rightarrow> (rat \<times> string) option" where
  "match_bps s =
     do {
       (d, r) \<leftarrow> many1 is_digit s;
       let (scale, r1) = (case r of [] \<Rightarrow> (1, []) | c # cs \<Rightarrow>
           (case unit_scale c of None \<Rightarrow> (1, r) | Some k \<Rightarrow> (k, cs)));
       r2 \<leftarrow> strip_prefix ''bps'' r1;
       Some (round_double (round_double (of_nat (nat_of_digits d)) * scale), r2)
     }"

definition find_rate_bps :: "string \<Rightarrow> string \<Rightarrow> rat option" where
  "find_rate_bps text key =
     search_word (\<lambda>s. do {
       r \<leftarrow> strip_prefix key s;
       (_, r1) \<leftarrow> many1 is_space r;
       (v, r2) \<leftarrow> match_bps r1;
       match_boundary r2;
       Some v
     }) False text"

text \<open>\<^verbatim>\<open>.*?\b\<close> and then \<^verbatim>\<open>bw:\<close> with a rate, within the line.\<close>

fun lazy_bw :: "bool \<Rightarrow> string \<Rightarrow> rat option" where
  "lazy_bw w [] = None"
| "lazy_bw w (c # cs) =
     (case (if w then None else do { r \<leftarrow> strip_prefix ''bw:'' (c # cs); (v, _) \<leftarrow> match_bps r; Some v }) of
        Some v \<Rightarrow> Some v
      | None \<Rightarrow> if c = CHR 0x0A then None else lazy_bw (is_word c) cs)"

definition find_bbr_bw_bps :: "string \<Rightarrow> rat option" where
  "find_bbr_bw_bps text = search (\<lambda>s. do { r \<leftarrow> strip_prefix ''bbr:('' s; lazy_bw False r }) text"

section \<open>Sockets\<close>

text \<open>\<^verbatim>\<open>s.split()\<close>.\<close>

function words :: "string \<Rightarrow> string list" where
  "words s =
     (let t = dropWhile is_space s
      in if t = [] then [] else takeWhile (\<lambda>c. \<not> is_space c) t # words (dropWhile (\<lambda>c. \<not> is_space c) t))"
  by auto

termination
proof (relation "measure length", goal_cases)
  case (2 s t)
  then obtain c cs where t: "t = c # cs" by (meson neq_Nil_conv)
  have "dropWhile is_space s = c # cs" using 2(1) t by simp
  then have "\<not> is_space c" using hd_dropWhile [of is_space s] by simp
  then have "length (dropWhile (\<lambda>c. \<not> is_space c) t) < length t"
    unfolding t by (simp add: le_imp_less_Suc length_dropWhile_le)
  also have "\<dots> \<le> length s" using 2(1) by (simp add: length_dropWhile_le)
  finally show ?case by simp
qed simp

declare words.simps [simp del]

definition extract_ipport_tokens :: "string \<Rightarrow> string list" where
  "extract_ipport_tokens header_line =
     [p \<leftarrow> words header_line. CHR '':'' \<in> set p \<and> isdigit (last (split_on (CHR '':'') p))]"

definition endswith :: "string \<Rightarrow> string \<Rightarrow> bool" where
  "endswith s p \<longleftrightarrow> length p \<le> length s \<and> drop (length s - length p) s = p"

definition keep_port :: "string option \<Rightarrow> string option \<Rightarrow> nat option \<Rightarrow> bool" where
  "keep_port src dst port =
     (case port of
        None \<Rightarrow> True
      | Some p \<Rightarrow>
          (let ends = (\<lambda>x. case x of None \<Rightarrow> False | Some s \<Rightarrow> s \<noteq> [] \<and> endswith s ('':'' @ dec_nat p))
           in ends src \<or> ends dst))"

record ss_flow =
  ss_src :: "string option"
  ss_dst :: "string option"
  cc :: "string option"
  rtt_ms :: "rat option"
  minrtt_ms :: "rat option"
  cwnd :: "nat option"
  mss :: "nat option"
  rto :: "nat option"
  bytes_acked :: "nat option"
  send_bps :: "rat option"
  pacing_bps :: "rat option"
  delivery_bps :: "rat option"
  bbr_bw_bps :: "rat option"

definition item :: "'a list \<Rightarrow> nat \<Rightarrow> 'a option" where
  "item xs i = (if i < length xs then Some (xs ! i) else None)"

definition flow_of :: "string \<Rightarrow> string \<Rightarrow> ss_flow" where
  "flow_of header info =
     (let ipports = extract_ipport_tokens header in
      \<lparr>ss_src = item ipports 0, ss_dst = item ipports 1, cc = item (words info) 0,
       rtt_ms = map_option fst (find_rtt info), minrtt_ms = find_float info ''minrtt'',
       cwnd = find_int info ''cwnd'', mss = find_int info ''mss'', rto = find_int info ''rto'',
       bytes_acked = find_int info ''bytes_acked'', send_bps = find_rate_bps info ''send'',
       pacing_bps = find_rate_bps info ''pacing_rate'', delivery_bps = find_rate_bps info ''delivery_rate'',
       bbr_bw_bps = find_bbr_bw_bps info\<rparr>)"

definition is_estab :: "string \<Rightarrow> bool" where
  "is_estab l \<longleftrightarrow> take 5 l = ''ESTAB''"

fun parse_lines :: "nat option \<Rightarrow> string list \<Rightarrow> ss_flow list" where
  "parse_lines port [] = []"
| "parse_lines port (l # ls) =
     (if \<not> is_estab l then parse_lines port ls
      else
        (let info = (case ls of [] \<Rightarrow> [] | i # _ \<Rightarrow> i); f = flow_of l info
         in if \<not> keep_port (ss_src f) (ss_dst f) port then parse_lines port (drop 1 ls)
            else f # parse_lines port (drop 1 ls)))"

definition parse_ss_tin_output :: "string \<Rightarrow> nat option \<Rightarrow> ss_flow list" where
  "parse_ss_tin_output ss_text port = parse_lines port [l \<leftarrow> map strip (splitlines ss_text). l \<noteq> []]"

section \<open>Summaries\<close>

text \<open>\<^verbatim>\<open>sum\<close> and \<^verbatim>\<open>mean\<close> of ints and of floats; the quotient of two ints is rounded once.\<close>

definition sum_or_none :: "('a \<Rightarrow> 'a \<Rightarrow> 'a) \<Rightarrow> 'a \<Rightarrow> 'a option list \<Rightarrow> 'a option" where
  "sum_or_none f z vals = (let vs = [v. Some v \<leftarrow> vals] in if vs = [] then None else Some (foldl f z vs))"

definition mean :: "rat option list \<Rightarrow> rat option" where
  "mean vals =
     (let vs = [v. Some v \<leftarrow> vals]
      in if vs = [] then None else Some (round_double (foldl float_add 0 vs / of_nat (length vs))))"

definition mean_int :: "nat option list \<Rightarrow> rat option" where
  "mean_int vals =
     (let vs = [v. Some v \<leftarrow> vals]
      in if vs = [] then None else Some (round_double (of_nat (foldl (+) 0 vs) / of_nat (length vs))))"

definition bps_to_mbps :: "rat option \<Rightarrow> rat option" where
  "bps_to_mbps x = map_option (\<lambda>v. round_double (v / 10 ^ 6)) x"

text \<open>\<^verbatim>\<open>max(set(ccs), key=ccs.count)\<close>: among equally frequent names the iteration order \<open>it\<close> of the set decides.\<close>

definition dominant_cc :: "(string set \<Rightarrow> string list) \<Rightarrow> string option list \<Rightarrow> string result" where
  "dominant_cc it ccs =
     (let cs = [c. Some c \<leftarrow> ccs, c \<noteq> []]
      in if cs = [] then Inr ''-'' else py_max (count_list cs) (it (set cs)))"

record summary =
  sum_flows :: nat
  sum_cc :: string
  avg_rtt :: "rat option"
  min_rtt :: "rat option"
  avg_cwnd :: "rat option"
  avg_mss :: "rat option"
  avg_rto :: "rat option"
  sum_send :: "rat option \<times> rat option"
  avg_pacing :: "rat option \<times> rat option"
  avg_delivery :: "rat option \<times> rat option"
  avg_bbr_bw :: "rat option \<times> rat option"
  ack_rate :: "rat option \<times> rat option"
  sum_host :: string

text \<open>Rates are kept in Mbit/s and in bit/s.\<close>

definition both :: "rat option \<Rightarrow> rat option \<times> rat option" where
  "both x = (bps_to_mbps x, x)"

definition summarize_host :: "(string set \<Rightarrow> string list) \<Rightarrow> string \<Rightarrow> ss_flow list \<Rightarrow> rat \<Rightarrow> summary result" where
  "summarize_host it h flows ack_bps =
     mapE (\<lambda>name.
         \<lparr>sum_flows = length flows, sum_cc = name,
          avg_rtt = mean (map rtt_ms flows), min_rtt = mean (map minrtt_ms flows),
          avg_cwnd = mean_int (map cwnd flows), avg_mss = mean_int (map mss flows),
          avg_rto = mean_int (map rto flows), sum_send = both (sum_or_none float_add 0 (map send_bps flows)),
          avg_pacing = both (mean (map pacing_bps flows)), avg_delivery = both (mean (map delivery_bps flows)),
          avg_bbr_bw = both (mean (map bbr_bw_bps flows)), ack_rate = both (Some ack_bps), sum_host = h\<rparr>)
       (dominant_cc it (map cc flows))"

section \<open>Polls\<close>

text \<open>
  Running a command quietly: \<open>ex\<close> is the node's \<^verbatim>\<open>execute\<close> with one keyword argument or none; a keyword that it does not
  know raises \<^verbatim>\<open>TypeError\<close> and the next one is tried.
\<close>

fun try_keywords :: "(string option \<Rightarrow> 'a result) \<Rightarrow> string list \<Rightarrow> 'a result" where
  "try_keywords ex [] = ex None"
| "try_keywords ex (k # ks) =
     (case ex (Some k) of Inr x \<Rightarrow> Inr x | Inl e \<Rightarrow> if e = TypeError then try_keywords ex ks else Inl e)"

definition exec_quiet :: "(string option \<Rightarrow> 'a result) \<Rightarrow> 'a result" where
  "exec_quiet ex = try_keywords ex [''quiet'', ''hide'', ''suppress_output'', ''output'']"

definition IPERF_PORT :: nat where "IPERF_PORT = 5201"

definition HOST_PREFIX :: string where "HOST_PREFIX = ''hs''"

definition NUM_HOSTS :: nat where "NUM_HOSTS = 16"

record ss_state =
  prev_acked :: "(string, nat) dict"
  prev_time :: "(string, rat) dict"

definition new_ss_state :: ss_state where
  "new_ss_state = \<lparr>prev_acked = [], prev_time = []\<rparr>"

definition acked_total :: "ss_flow list \<Rightarrow> nat" where
  "acked_total flows = (case sum_or_none (+) 0 (map bytes_acked flows) of None \<Rightarrow> 0 | Some n \<Rightarrow> n)"

text \<open>One host of a poll at time \<open>now\<close>; \<open>out\<close> is what the host's \<^verbatim>\<open>ss -tin\<close> printed.\<close>

definition poll_host ::
  "(string set \<Rightarrow> string list) \<Rightarrow> rat \<Rightarrow> (string \<Rightarrow> string) \<Rightarrow> ss_state \<times> summary list \<Rightarrow> nat \<Rightarrow> (ss_state \<times> summary list) result" where
  "poll_host it now out acc i =
     (case acc of (st, rows_so_far) \<Rightarrow>
        let h = HOST_PREFIX @ dec_nat i;
            flows = parse_ss_tin_output (out h) (Some IPERF_PORT);
            acked = acked_total flows;
            last_bytes = dget (prev_acked st) h acked;
            last_t = dget (prev_time st) h now;
            dt = max (round_double (1 / 10 ^ 6)) (round_double (now - last_t));
            delta = acked - last_bytes;
            rate = round_double (round_double (round_double (of_nat delta) * 8) / dt)
        in mapE (\<lambda>s. (\<lparr>prev_acked = AList.update h acked (prev_acked st), prev_time = AList.update h now (prev_time st)\<rparr>,
                       rows_so_far @ [s]))
             (summarize_host it h flows rate))"

definition poll_hosts ::
  "(string set \<Rightarrow> string list) \<Rightarrow> rat \<Rightarrow> (string \<Rightarrow> string) \<Rightarrow> ss_state \<Rightarrow> (ss_state \<times> summary list) result" where
  "poll_hosts it now out st = foldE (poll_host it now out) (st, []) [1..<NUM_HOSTS + 1]"

section \<open>Ping summaries\<close>

text \<open>\<^verbatim>\<open>.*\<close> followed by what \<open>m\<close> accepts: the longest stretch of the line first.\<close>

fun greedy :: "(string \<Rightarrow> 'a option) \<Rightarrow> string \<Rightarrow> 'a option" where
  "greedy m [] = m []"
| "greedy m (c # cs) =
     (if c = CHR 0x0A then m (c # cs) else (case greedy m cs of Some x \<Rightarrow> Some x | None \<Rightarrow> m (c # cs)))"

definition numeral_part :: "string \<Rightarrow> (string \<times> string) option" where
  "numeral_part = many1 (\<lambda>c. is_digit c \<or> c = CHR ''.'')"

text \<open>From the equals sign: four numerals, then \<^verbatim>\<open>ms\<close>; the result is the second numeral.\<close>

definition match_rtt_values :: "string \<Rightarrow> string option" where
  "match_rtt_values s =
     do {
       r0 \<leftarrow> strip_prefix ''='' s;
       (a, r1) \<leftarrow> numeral_part (dropWhile is_space r0);
       r2 \<leftarrow> strip_prefix ''/'' r1;
       (b, r3) \<leftarrow> numeral_part r2;
       r4 \<leftarrow> strip_prefix ''/'' r3;
       (c, r5) \<leftarrow> numeral_part r4;
       r6 \<leftarrow> strip_prefix ''/'' r5;
       (d, r7) \<leftarrow> numeral_part r6;
       _ \<leftarrow> strip_prefix ''ms'' (dropWhile is_space r7);
       Some b
     }"

definition match_rtt_line :: "string \<Rightarrow> string option" where
  "match_rtt_line s =
     do {
       r \<leftarrow> (case strip_prefix ''rtt'' s of Some r \<Rightarrow> Some r | None \<Rightarrow> strip_prefix ''round-trip'' s);
       greedy match_rtt_values r
     }"

definition extract_avg_rtt_ms :: "string \<Rightarrow> rat result" where
  "extract_avg_rtt_ms text =
     (case search match_rtt_line text of
        None \<Rightarrow> Inl ValueError
      | Some b \<Rightarrow> (case float_of b of None \<Rightarrow> Inl ValueError | Some x \<Rightarrow> Inr x))"

section \<open>Throughput and fairness\<close>

text \<open>
  The series of the flows, cut to the shortest, and their sum per interval. \<open>np_sum\<close> is
  \<^verbatim>\<open>numpy\<close>'s sum along the first axis.
\<close>

definition common_length :: "rat list list \<Rightarrow> nat result" where
  "common_length ths = (if ths = [] then Inl ValueError else Inr (Min (set (map length ths))))"

definition aggregate :: "rat list list \<Rightarrow> (rat list \<times> rat list list) result" where
  "aggregate ths =
     mapE (\<lambda>N.
         let cut = map (take N) ths
         in (map (\<lambda>t. foldl (\<lambda>total flow. float_add total (flow ! t)) 0 cut) [0..<N], cut))
       (common_length ths)"

definition calculate_fairness :: "(rat list list \<Rightarrow> rat list) \<Rightarrow> rat list list \<Rightarrow> rat list" where
  "calculate_fairness np_sum th =
     (let m = length th;
          sum_x = np_sum th;
          sum_x2 = np_sum (map (map (\<lambda>x. round_double (x ^ 2))) th);
          denom = map (\<lambda>y. round_double (of_nat m * y)) sum_x2
      in map2 (\<lambda>s d. if d = 0 then 100 else round_double (round_double (100 * round_double (s ^ 2)) / d)) sum_x denom)"

section \<open>Quiet execution\<close>

lemma try_keywords_plain:
  "\<forall>k \<in> set ks. ex (Some k) = Inl TypeError \<Longrightarrow> try_keywords ex ks = ex None"
  by (induction ks) auto

text \<open>Whatever keywords a node understands, a command that succeeds without one is run, and its result is that of some call.\<close>

lemma exec_quiet_runs:
  assumes "\<And>kw. ex kw = Inr x \<or> ex kw = Inl TypeError" "ex None = Inr x"
  shows "exec_quiet ex = Inr x"
proof -
  have "try_keywords ex ks = Inr x" for ks
  proof (induction ks)
    case (Cons k ks)
    then show ?case using assms(1) [of "Some k"] by auto
  qed (simp add: assms(2))
  then show ?thesis unfolding exec_quiet_def .
qed

section \<open>One flow per socket\<close>

lemma parse_lines_junk: "\<forall>l \<in> set js. \<not> is_estab l \<Longrightarrow> parse_lines port (js @ ls) = parse_lines port ls"
  by (induction js) auto

lemma parse_lines_sockets:
  "\<forall>(js, h, i) \<in> set socks. (\<forall>l \<in> set js. \<not> is_estab l) \<and> is_estab h \<Longrightarrow>
   parse_lines port (concat (map (\<lambda>(js, h, i). js @ [h, i]) socks)) =
     [f \<leftarrow> map (\<lambda>(js, h, i). flow_of h i) socks. keep_port (ss_src f) (ss_dst f) port]"
proof (induction socks)
  case (Cons s socks)
  obtain js h i where s: "s = (js, h, i)" by (cases s)
  with Cons show ?case by (simp add: parse_lines_junk Let_def)
qed simp

text \<open>The text of lines without line breaks.\<close>

definition unlines :: "string list \<Rightarrow> string" where
  "unlines ls = concat (map (\<lambda>l. l @ [CHR 0x0A]) ls)"

lemma splitlines_unlines: "\<forall>l \<in> set ls. \<forall>c \<in> set l. \<not> is_linebreak c \<Longrightarrow> splitlines (unlines ls) = ls"
  by (induction ls) (simp_all add: unlines_def splitlines_line)

text \<open>
  C33. The socket monitor sees every established connection of the filtered port exactly once, in the order
  of the output, and nothing else: for any output in which each header line that starts with
  \<^verbatim>\<open>ESTAB\<close> is followed by its information line, with titles, blank lines and lines of other sockets
  in between and any indentation, the flows are those of the headers whose port matches.
\<close>

theorem sockets_become_flows:
  assumes "\<forall>(js, h, i) \<in> set socks. (\<forall>l \<in> set js. \<not> is_estab (strip l)) \<and> is_estab (strip h) \<and> strip i \<noteq> []"
    and "\<forall>(js, h, i) \<in> set socks. \<forall>l \<in> set (h # i # js). \<forall>c \<in> set l. \<not> is_linebreak c"
  shows "parse_ss_tin_output (unlines (concat (map (\<lambda>(js, h, i). js @ [h, i]) socks))) port =
    [f \<leftarrow> map (\<lambda>(js, h, i). flow_of (strip h) (strip i)) socks. keep_port (ss_src f) (ss_dst f) port]"
proof -
  let ?g = "\<lambda>(js, h, i). ([l \<leftarrow> map strip js. l \<noteq> []], strip h, strip i)"
  have "[l \<leftarrow> map strip (concat (map (\<lambda>(js, h, i). js @ [h, i]) socks)). l \<noteq> []] =
      concat (map (\<lambda>(js, h, i). js @ [h, i]) (map ?g socks))"
    using assms(1) by (induction socks) (auto simp: is_estab_def)
  moreover have "splitlines (unlines (concat (map (\<lambda>(js, h, i). js @ [h, i]) socks))) = concat (map (\<lambda>(js, h, i). js @ [h, i]) socks)"
    using assms(2) by (intro splitlines_unlines) fastforce
  moreover have "\<forall>(js, h, i) \<in> set (map ?g socks). (\<forall>l \<in> set js. \<not> is_estab l) \<and> is_estab h" using assms(1) by fastforce
  ultimately show ?thesis
    using parse_lines_sockets [of "map ?g socks" port] by (simp add: parse_ss_tin_output_def comp_def case_prod_unfold)
qed

definition sample_header :: string where
  "sample_header = ''ESTAB 0 0 10.0.0.1:5201 10.0.0.2:44321''"

definition sample_info :: string where
  "sample_info = '' bbr rto:204 rtt:22.5/10.25 mss:1448 cwnd:10 bytes_acked:12345 send 8988Kbps minrtt:14.5 bbr:(bw:793952bps,mrtt:14)''"

theorem sockets_become_flows_witness:
  "parse_ss_tin_output (unlines [''State Recv-Q Send-Q'', sample_header, sample_info]) (Some 5201) =
     [f \<leftarrow> [flow_of (strip sample_header) (strip sample_info)]. keep_port (ss_src f) (ss_dst f) (Some 5201)]"
proof -
  let ?s = "[([''State Recv-Q Send-Q''], sample_header, sample_info)]"
  have "\<forall>(js, h, i) \<in> set ?s. (\<forall>l \<in> set js. \<not> is_estab (strip l)) \<and> is_estab (strip h) \<and> strip i \<noteq> []"
    by (simp add: sample_header_def sample_info_def strip_def is_space_def is_estab_def)
  moreover have "\<forall>(js, h, i) \<in> set ?s. \<forall>l \<in> set (h # i # js). \<forall>c \<in> set l. \<not> is_linebreak c"
    by (simp add: sample_header_def sample_info_def is_linebreak_def)
  ultimately show ?thesis using sockets_become_flows [of ?s "Some 5201"] by simp
qed

section \<open>Fairness\<close>

text \<open>
  What the code relies on of \<^verbatim>\<open>numpy\<close>: the sum along the first axis of a rectangular array of doubles adds up each
  column with rounded additions, in an order and bracketing that is not specified.
\<close>

definition sums_columns :: "(rat list list \<Rightarrow> rat list) \<Rightarrow> bool" where
  "sums_columns np_sum \<longleftrightarrow>
     (\<forall>th n. th \<noteq> [] \<and> (\<forall>r \<in> set th. length r = n) \<longrightarrow>
        length (np_sum th) = n \<and> (\<forall>t < n. float_sum (mset (map (\<lambda>r. r ! t) th)) (np_sum th ! t)))"

text \<open>
  Non-negative numbers within \<open>n\<close> roundings of each other: the quotient of the two lies between the powers
  \<open>- n\<close> and \<open>n\<close> of \<open>1 + 2^-52\<close>.
\<close>

definition slack :: rat where "slack = 1 + 1 / 2 ^ 52"

definition near :: "nat \<Rightarrow> rat \<Rightarrow> rat \<Rightarrow> bool" where
  "near n a b \<longleftrightarrow> 0 \<le> a \<and> 0 \<le> b \<and> a \<le> b * slack ^ n \<and> b \<le> a * slack ^ n"

lemma slack: "1 < slack" "1 \<le> slack ^ n" "0 < slack ^ n"
  by (simp_all add: slack_def one_le_power)

lemma near_refl: "0 \<le> a \<Longrightarrow> near n a a"
  using mult_left_mono [OF slack(2), of a n] by (simp add: near_def)

lemma near_mono:
  assumes "near n a b" "n \<le> m"
  shows "near m a b"
proof -
  have "slack ^ n \<le> slack ^ m" using assms(2) slack(1) by (intro power_increasing) simp_all
  then have "b * slack ^ n \<le> b * slack ^ m" "a * slack ^ n \<le> a * slack ^ m"
    using assms(1) by (auto simp: near_def intro: mult_left_mono)
  then show ?thesis using assms(1) unfolding near_def by linarith
qed

lemma near_trans:
  assumes "near n a b" "near m b c"
  shows "near (n + m) a c"
proof -
  have "a \<le> b * slack ^ n" "b \<le> c * slack ^ m" "c \<le> b * slack ^ m" "b \<le> a * slack ^ n" "0 \<le> a" "0 \<le> c"
    using assms by (auto simp: near_def)
  moreover have "b * slack ^ n \<le> c * slack ^ m * slack ^ n" "b * slack ^ m \<le> a * slack ^ n * slack ^ m"
    using calculation slack(3) by (auto intro: mult_right_mono less_imp_le)
  ultimately show ?thesis unfolding near_def power_add by (simp add: mult_ac)
qed

lemma near_mult: "near n a b \<Longrightarrow> near m c d \<Longrightarrow> near (n + m) (a * c) (b * d)"
  unfolding near_def power_add
  by (auto intro!: mult_mono [of a "b * slack ^ n" c "d * slack ^ m", THEN order_trans]
      mult_mono [of b "a * slack ^ n" d "c * slack ^ m", THEN order_trans] simp: mult_ac)

lemma near_divide:
  assumes "near n a b" "near m c d" "0 < c" "0 < d"
  shows "near (n + m) (a / c) (b / d)"
proof -
  have "near m (1 / c) (1 / d)" using assms(2-4) by (auto simp: near_def field_simps)
  from near_mult [OF assms(1) this] show ?thesis by simp
qed

lemma near_add: "near n a b \<Longrightarrow> near n c d \<Longrightarrow> near n (a + c) (b + d)"
  by (auto simp: near_def distrib_right)

lemma near_sum_list: "\<forall>x \<in> set xs. near n (f x) (g x) \<Longrightarrow> near n (sum_list (map f xs)) (sum_list (map g xs))"
  by (induction xs) (simp_all add: near_refl near_add)

lemma near_round:
  assumes "0 \<le> x"
  shows "near 1 (round_double x) x"
proof -
  have e: "\<bar>round_double x - x\<bar> \<le> x / 2 ^ 53" using round_double_error [of x] assms by simp
  have "x * slack = x + x / 2 ^ 52" by (simp add: slack_def distrib_left)
  moreover have "x / 2 ^ 53 \<le> x / 2 ^ 52" using assms by simp
  ultimately have "round_double x \<le> x * slack" using e by linarith
  moreover have "x \<le> round_double x * slack"
  proof -
    have "x * (1 - 1 / 2 ^ 53) = x - x / 2 ^ 53" by (simp add: right_diff_distrib)
    then have "x * (1 - 1 / 2 ^ 53) \<le> round_double x" using e by linarith
    then have "x * (1 - 1 / 2 ^ 53) * slack \<le> round_double x * slack"
      using slack(1) by (intro mult_right_mono) simp_all
    moreover have "x \<le> x * ((1 - 1 / 2 ^ 53) * slack)"
      using assms by (intro mult_le_cancel_left1 [THEN iffD2]) (simp add: slack_def)
    ultimately show ?thesis by (simp add: mult.assoc)
  qed
  ultimately show ?thesis using assms by (simp add: near_def round_double_nonneg)
qed

lemma near_rounded: "near n a b \<Longrightarrow> near (Suc n) (round_double a) b"
  using near_trans [OF near_round, of a n b] by (auto simp: near_def)

lemma near_float_sum:
  assumes "float_sum M s" "\<forall>x \<in># M. 0 \<le> x"
  shows "near (size M) s (sum_mset M)"
  using assms
proof (induction rule: float_sum.induct)
  case (add M x N y)
  have sz: "size M \<le> size M + size N - 1" "size N \<le> size M + size N - 1" "Suc (size M + size N - 1) = size M + size N"
    using add.hyps(3,4) by (auto simp: Suc_le_eq nonempty_has_size)
  have "near (size M) x (sum_mset M)" "near (size N) y (sum_mset N)" using add by auto
  then have "near (size M + size N - 1) (x + y) (sum_mset M + sum_mset N)"
    using sz by (intro near_add) (auto intro: near_mono)
  from near_rounded [OF this] show ?case unfolding sz(3) by (simp add: float_add_def)
qed (simp_all add: near_refl)

lemma near_error: "near n a b \<Longrightarrow> \<bar>a - b\<bar> \<le> b * (slack ^ n - 1)"
proof -
  assume n: "near n a b"
  define y where "y = slack ^ n"
  have y: "1 \<le> y" "0 \<le> b" "a \<le> b * y" "b \<le> a * y" using n slack(2) by (simp_all add: near_def y_def)
  have "b / y \<le> a" using y by (simp add: divide_le_eq)
  moreover have "b * (2 - y) \<le> b / y"
  proof -
    have "0 \<le> (y - 1) ^ 2" by simp
    then have "(2 - y) * y \<le> 1" by (simp add: power2_eq_square algebra_simps)
    then have "b * ((2 - y) * y) \<le> b * 1" using y(2) by (rule mult_left_mono)
    then show ?thesis using y(1) by (simp add: le_divide_eq mult.assoc)
  qed
  ultimately show ?thesis using y(3) unfolding y_def [symmetric] by (simp add: abs_le_iff algebra_simps)
qed

lemma sum_squares_deviation:
  "(\<Sum>x\<leftarrow>xs. (x - u) ^ 2) = (\<Sum>x\<leftarrow>xs. x ^ 2) - 2 * u * sum_list xs + of_nat (length xs) * u ^ (2 :: nat)" for u :: rat
  by (induction xs) (simp_all add: power2_eq_square algebra_simps)

lemma sum_list_squares_0: "(\<Sum>x\<leftarrow>xs. (f x) ^ 2) = 0 \<longleftrightarrow> (\<forall>x \<in> set xs. f x = (0 :: rat))"
proof (induction xs)
  case (Cons x xs)
  have "0 \<le> (\<Sum>x\<leftarrow>xs. (f x) ^ 2)" by (intro sum_list_nonneg) auto
  with Cons show ?case by (simp add: add_nonneg_eq_0_iff)
qed simp

lemma cauchy_sum_list:
  fixes xs :: "rat list"
  assumes "xs \<noteq> []"
  shows "sum_list xs ^ 2 \<le> of_nat (length xs) * (\<Sum>x\<leftarrow>xs. x ^ 2)"
    and "sum_list xs ^ 2 = of_nat (length xs) * (\<Sum>x\<leftarrow>xs. x ^ 2) \<longleftrightarrow> (\<forall>x \<in> set xs. x = sum_list xs / of_nat (length xs))"
proof -
  define m where "m = (of_nat (length xs) :: rat)"
  have m: "0 < m" using assms by (simp add: m_def)
  define q where "q = (\<Sum>x\<leftarrow>xs. x ^ 2)"
  define d where "d = (\<Sum>x\<leftarrow>xs. (x - sum_list xs / m) ^ 2)"
  have "d = q - 2 * (sum_list xs / m) * sum_list xs + m * (sum_list xs / m) ^ 2"
    unfolding d_def q_def m_def by (rule sum_squares_deviation)
  then have "m * d = m * q - sum_list xs ^ 2" using m by (simp add: power2_eq_square field_simps)
  then have md: "sum_list xs ^ 2 = m * q - m * d" by simp
  have "0 \<le> d" unfolding d_def by (intro sum_list_nonneg) auto
  then have "0 \<le> m * d" using m by simp
  then show "sum_list xs ^ 2 \<le> of_nat (length xs) * (\<Sum>x\<leftarrow>xs. x ^ 2)"
    using md unfolding m_def [symmetric] q_def [symmetric] by simp
  have "m * d = 0 \<longleftrightarrow> (\<forall>x \<in> set xs. x - sum_list xs / m = 0)"
    using m sum_list_squares_0 [of "\<lambda>x. x - sum_list xs / m" xs] by (simp add: d_def)
  then show "sum_list xs ^ 2 = of_nat (length xs) * (\<Sum>x\<leftarrow>xs. x ^ 2) \<longleftrightarrow> (\<forall>x \<in> set xs. x = sum_list xs / of_nat (length xs))"
    using md unfolding m_def [symmetric] q_def [symmetric] by simp
qed

lemma sum_squares_le_square: "\<forall>x \<in> set xs. 0 \<le> x \<Longrightarrow> (\<Sum>x\<leftarrow>xs. x ^ 2) \<le> sum_list xs ^ (2 :: nat)" for xs :: "rat list"
proof (induction xs)
  case (Cons x xs)
  moreover have "0 \<le> x * sum_list xs" using Cons.prems by (simp add: sum_list_nonneg)
  ultimately show ?case by (simp add: power2_sum)
qed simp

lemma all_mean_iff:
  fixes xs :: "rat list"
  assumes "xs \<noteq> []"
  shows "(\<forall>x \<in> set xs. x = sum_list xs / of_nat (length xs)) \<longleftrightarrow> (\<forall>x \<in> set xs. x = hd xs)"
proof
  assume "\<forall>x \<in> set xs. x = sum_list xs / of_nat (length xs)"
  then show "\<forall>x \<in> set xs. x = hd xs" using assms hd_in_set by metis
next
  assume "\<forall>x \<in> set xs. x = hd xs"
  then have "xs = replicate (length xs) (hd xs)" by (simp add: replicate_length_same)
  then have "sum_list xs = of_nat (length xs) * hd xs" by (metis sum_list_replicate)
  then show "\<forall>x \<in> set xs. x = sum_list xs / of_nat (length xs)" using \<open>\<forall>x \<in> set xs. x = hd xs\<close> assms by simp
qed

definition jain :: "rat list \<Rightarrow> rat" where
  "jain xs = (let d = of_nat (length xs) * (\<Sum>x\<leftarrow>xs. x ^ 2) in if d = 0 then 100 else 100 * sum_list xs ^ 2 / d)"

lemma jain_range:
  assumes "xs \<noteq> []" "\<forall>x \<in> set xs. 0 \<le> x"
  shows "100 / of_nat (length xs) \<le> jain xs" "jain xs \<le> 100" "jain xs = 100 \<longleftrightarrow> (\<forall>x \<in> set xs. x = hd xs)"
proof -
  define q where "q = (\<Sum>x\<leftarrow>xs. x ^ 2)"
  define m where "m = (of_nat (length xs) :: rat)"
  have m: "1 \<le> m" using assms(1) by (cases xs) (simp_all add: m_def)
  have q: "0 \<le> q" unfolding q_def by (intro sum_list_nonneg) auto
  have j: "jain xs = (if m * q = 0 then 100 else 100 * sum_list xs ^ 2 / (m * q))" by (simp add: jain_def q_def m_def)
  note c = cauchy_sum_list [OF assms(1), folded m_def q_def]
  show "100 / of_nat (length xs) \<le> jain xs"
  proof (cases "q = 0")
    case False
    then have "q \<le> sum_list xs ^ 2" "0 < q" using sum_squares_le_square [OF assms(2)] q by (simp_all add: q_def)
    then show ?thesis using m by (simp add: j m_def [symmetric] field_simps)
  qed (use m in \<open>simp add: j m_def [symmetric] field_simps\<close>)
  show "jain xs \<le> 100" using c(1) m q by (auto simp: j divide_le_eq)
  show "jain xs = 100 \<longleftrightarrow> (\<forall>x \<in> set xs. x = hd xs)"
  proof (cases "q = 0")
    case True
    then have "\<forall>x \<in> set xs. x = 0" using sum_list_squares_0 [of "\<lambda>x. x" xs] by (simp add: q_def)
    moreover from this have "hd xs = 0" using hd_in_set [OF assms(1)] by blast
    ultimately show ?thesis using True by (simp add: j)
  next
    case False
    then have "jain xs = 100 \<longleftrightarrow> sum_list xs ^ 2 = m * q" using m by (simp add: j field_simps)
    also have "\<dots> \<longleftrightarrow> (\<forall>x \<in> set xs. x = hd xs)" using c(2) all_mean_iff [OF assms(1)] by (simp add: m_def)
    finally show ?thesis .
  qed
qed

lemma jain_nonneg: "0 \<le> jain xs"
proof -
  have "0 \<le> (\<Sum>x\<leftarrow>xs. x ^ 2)" by (rule sum_list_nonneg) auto
  then show ?thesis by (simp add: jain_def Let_def)
qed

text \<open>The computation of one value in doubles, for any order of the additions.\<close>

lemma float_jain:
  assumes "xs \<noteq> []" "\<forall>x \<in> set xs. 0 \<le> x"
    and "float_sum (mset xs) s" "float_sum (mset (map (\<lambda>x. round_double (x ^ 2)) xs)) q"
  defines "d \<equiv> round_double (of_nat (length xs) * q)"
  shows "near (3 * length xs + 5) (if d = 0 then 100 else round_double (round_double (100 * round_double (s ^ 2)) / d)) (jain xs)"
proof -
  let ?m = "length xs" and ?S = "sum_list xs" and ?Q = "\<Sum>x\<leftarrow>xs. x ^ 2"
  have m: "(0 :: rat) < of_nat ?m" using assms(1) by simp
  have s: "near ?m s ?S" using near_float_sum [OF assms(3)] assms(2) by (simp add: sum_mset_sum_list)
  have q0: "near ?m q (\<Sum>x\<leftarrow>xs. round_double (x ^ 2))"
    using near_float_sum [OF assms(4)] by (simp add: sum_mset_sum_list round_double_nonneg flip: mset_map)
  have "near 1 (\<Sum>x\<leftarrow>xs. round_double (x ^ 2)) ?Q" by (intro near_sum_list ballI near_round) simp
  with q0 have "near (?m + 1) q ?Q" by (rule near_trans)
  then have "near (0 + (?m + 1)) (of_nat ?m * q) (of_nat ?m * ?Q)" by (intro near_mult near_refl) simp
  then have d: "near (?m + 2) d (of_nat ?m * ?Q)" using near_rounded [of "?m + 1"] by (simp add: d_def)
  have "near (?m + ?m) (s ^ 2) (?S ^ 2)" unfolding power2_eq_square by (rule near_mult [OF s s])
  then have "near (0 + Suc (?m + ?m)) (100 * round_double (s ^ 2)) (100 * ?S ^ 2)"
    by (intro near_mult near_refl near_rounded) simp
  then have n: "near (2 * ?m + 2) (round_double (100 * round_double (s ^ 2))) (100 * ?S ^ 2)"
    using near_rounded [of "2 * ?m + 1"] by (simp add: mult_2)
  have z: "d = 0 \<longleftrightarrow> of_nat ?m * ?Q = 0" using d slack(3) by (auto simp: near_def)
  show ?thesis
  proof (cases "d = 0")
    case True
    then show ?thesis using z by (simp add: jain_def near_refl)
  next
    case False
    then have "0 \<le> d" "0 \<le> of_nat ?m * ?Q" "of_nat ?m * ?Q \<noteq> 0" using d z unfolding near_def by blast+
    then have pos: "0 < d" "0 < of_nat ?m * ?Q" using False by (metis order_le_less)+
    have "near (2 * ?m + 2 + (?m + 2)) (round_double (100 * round_double (s ^ 2)) / d) (100 * ?S ^ 2 / (of_nat ?m * ?Q))"
      by (rule near_divide [OF n d pos])
    from near_rounded [OF this] have "near (3 * ?m + 5) (round_double (round_double (100 * round_double (s ^ 2)) / d)) (100 * ?S ^ 2 / (of_nat ?m * ?Q))"
      by (rule near_mono) simp
    moreover have "jain xs = 100 * ?S ^ 2 / (of_nat ?m * ?Q)" using False z by (simp add: jain_def Let_def)
    ultimately show ?thesis using False by simp
  qed
qed

text \<open>
  C35. The fairness series of the plots is Jain's index, computed in doubles. For \<open>m\<close> flows with non-negative rates
  and series of equal length, whatever the order in which \<^verbatim>\<open>numpy\<close> adds, every value of the series differs from Jain's index of the rates of the
  interval (100 when there is no traffic) by a factor between the powers \<open>- (3 m + 5)\<close> and \<open>3 m + 5\<close> of
  \<open>1 + 2^-52\<close>; the index itself lies between \<open>100 / m\<close> and 100 and is 100 exactly when all flows have the same rate.
  For the 16 hosts of the experiment the series is within a \<open>2^-46\<close> part of the index.
\<close>

theorem fairness_is_jain_index:
  assumes "sums_columns np_sum" "th \<noteq> []" "\<forall>r \<in> set th. length r = n \<and> (\<forall>x \<in> set r. 0 \<le> x)" "t < n"
  defines "F \<equiv> calculate_fairness np_sum th" and "J \<equiv> jain (map (\<lambda>r. r ! t) th)"
  shows "length F = n
    \<and> J / slack ^ (3 * length th + 5) \<le> F ! t \<and> F ! t \<le> J * slack ^ (3 * length th + 5)
    \<and> 100 / of_nat (length th) \<le> J \<and> J \<le> 100 \<and> (J = 100 \<longleftrightarrow> (\<forall>r \<in> set th. r ! t = hd th ! t))
    \<and> (length th \<le> NUM_HOSTS \<longrightarrow> \<bar>F ! t - J\<bar> \<le> J / 2 ^ 46)"
proof -
  define xs where "xs = map (\<lambda>r. r ! t) th"
  let ?sq = "\<lambda>x. round_double (x ^ 2)"
  have xs: "xs \<noteq> []" "\<forall>x \<in> set xs. 0 \<le> x" "length xs = length th" using assms(2-4) by (auto simp: xs_def)
  have lens: "\<forall>r \<in> set th. length r = n" "\<forall>r \<in> set (map (map ?sq) th). length r = n" "map (map ?sq) th \<noteq> []"
    using assms(2,3) by auto
  have sums: "length (np_sum th) = n" "float_sum (mset xs) (np_sum th ! t)"
    using assms(1,2,4) lens(1) unfolding sums_columns_def xs_def by blast+
  have sq: "length (np_sum (map (map ?sq) th)) = n" "float_sum (mset (map (\<lambda>r. r ! t) (map (map ?sq) th))) (np_sum (map (map ?sq) th) ! t)"
    using assms(1,4) lens(2,3) unfolding sums_columns_def by blast+
  have "map (\<lambda>r. r ! t) (map (map ?sq) th) = map ?sq xs"
    using lens(1) assms(4) by (auto simp: xs_def)
  with sq(2) have sq2: "float_sum (mset (map ?sq xs)) (np_sum (map (map ?sq) th) ! t)" by (simp del: mset_map)
  have len: "length F = n" by (simp add: F_def calculate_fairness_def Let_def sums(1) sq(1))
  have near: "near (3 * length th + 5) (F ! t) J"
    using float_jain [OF xs(1,2) sums(2) sq2] assms(4) unfolding xs(3)
    by (simp add: F_def calculate_fairness_def Let_def sums(1) sq(1) J_def flip: xs_def)
  then have J: "J / slack ^ (3 * length th + 5) \<le> F ! t" "F ! t \<le> J * slack ^ (3 * length th + 5)"
    using slack(3) by (auto simp: near_def divide_le_eq)
  have "\<bar>F ! t - J\<bar> \<le> J / 2 ^ 46" if "length th \<le> NUM_HOSTS"
  proof -
    have "near 53 (F ! t) J" using near that by (intro near_mono [OF near]) (simp add: NUM_HOSTS_def)
    moreover have "slack ^ 53 - 1 \<le> 1 / 2 ^ 46" by (simp add: slack_def power_divide)
    then have "J * (slack ^ 53 - 1) \<le> J * (1 / 2 ^ 46)"
      using jain_nonneg unfolding J_def by (intro mult_left_mono)
    ultimately show ?thesis using near_error by fastforce
  qed
  moreover have "(\<forall>r \<in> set th. r ! t = hd th ! t) \<longleftrightarrow> (\<forall>x \<in> set xs. x = hd xs)"
    using assms(2) by (simp add: xs_def hd_map)
  ultimately show ?thesis
    using jain_range [OF xs(1,2)] len J unfolding J_def xs(3) by (simp flip: xs_def)
qed

text \<open>Column sums, written out: the rows are added one after the other.\<close>

definition column_sums :: "rat list list \<Rightarrow> rat list" where
  "column_sums th = map (\<lambda>t. foldl (\<lambda>s r. float_add s (r ! t)) (hd th ! t) (tl th)) [0..<length (hd th)]"

lemma float_sum_chain: "float_sum M s \<Longrightarrow> M \<noteq> {#} \<Longrightarrow> float_sum (M + mset xs) (foldl float_add s xs)"
proof (induction xs arbitrary: M s)
  case (Cons x xs)
  have "float_sum (M + {#x#}) (float_add s x)" using Cons.prems by (intro float_sum.add float_sum.one) auto
  from Cons.IH [OF this] show ?case by simp
qed simp

lemma sums_columns_column_sums: "sums_columns column_sums"
  unfolding sums_columns_def
proof (intro allI impI conjI)
  fix th :: "rat list list" and n t
  assume th: "th \<noteq> [] \<and> (\<forall>r \<in> set th. length r = n)"
  then show "length (column_sums th) = n" by (simp add: column_sums_def)
  assume "t < n"
  obtain r rs where "th = r # rs" using th by (cases th) auto
  with th \<open>t < n\<close> float_sum_chain [OF float_sum.one [of "r ! t"], of "map (\<lambda>r. r ! t) rs"]
  show "float_sum (mset (map (\<lambda>r. r ! t) th)) (column_sums th ! t)"
    by (simp add: column_sums_def foldl_map)
qed

theorem fairness_is_jain_index_witness:
  "1 < length (calculate_fairness column_sums [[1, 2, 3], [1, 4, 3]])
   \<and> \<bar>calculate_fairness column_sums [[1, 2, 3], [1, 4, 3]] ! 1 - 90\<bar> \<le> 90 / 2 ^ 46"
proof -
  have "jain [2, 4] = 90" by (simp add: jain_def)
  then show ?thesis
    using fairness_is_jain_index [OF sums_columns_column_sums, of "[[1, 2, 3], [1, 4, 3]]" 3 1] by (simp add: NUM_HOSTS_def)
qed

section \<open>Acknowledgement rates\<close>

lemma dec_nat_inject: "dec_nat i = dec_nat j \<longleftrightarrow> i = j"
  by (metis nat_of_digits_dec_nat)

lemma enumerates_Nil:
  assumes "enumerates it" "cs \<noteq> []"
  shows "it (set cs) \<noteq> []"
proof
  assume n: "it (set cs) = []"
  have "set (it (set cs)) = set cs" using assms(1) finite_set [of cs] unfolding enumerates_def by blast
  then have "set cs = {}" unfolding n by simp
  with assms(2) show False by simp
qed

lemma dominant_cc_Inr:
  assumes "enumerates it"
  shows "\<exists>c. dominant_cc it ccs = Inr c"
proof -
  define cs where "cs = [c. Some c \<leftarrow> ccs, c \<noteq> []]"
  have "dominant_cc it ccs = (if cs = [] then Inr ''-'' else py_max (count_list cs) (it (set cs)))"
    by (simp only: dominant_cc_def cs_def Let_def)
  then show ?thesis using py_max_in [OF enumerates_Nil [OF assms], of cs "count_list cs"] by (cases "cs = []") auto
qed

definition host_acked :: "(string \<Rightarrow> string) \<Rightarrow> nat \<Rightarrow> nat" where
  "host_acked out i = acked_total (parse_ss_tin_output (out (HOST_PREFIX @ dec_nat i)) (Some IPERF_PORT))"

text \<open>The rate that a poll computes for host \<open>i\<close>, from the growth of the counter and the elapsed time.\<close>

definition float_rate :: "nat \<Rightarrow> rat \<Rightarrow> rat" where
  "float_rate delta t =
     round_double (round_double (round_double (of_nat delta) * 8) / max (round_double (1 / 10 ^ 6)) (round_double t))"

definition shown_rate :: "ss_state \<Rightarrow> rat \<Rightarrow> (string \<Rightarrow> string) \<Rightarrow> nat \<Rightarrow> rat" where
  "shown_rate st now out i =
     (let h = HOST_PREFIX @ dec_nat i; a = host_acked out i
      in float_rate (a - dget (prev_acked st) h a) (now - dget (prev_time st) h now))"

lemma float_rate_near:
  assumes "2 / 10 ^ 6 \<le> t"
  shows "\<bar>float_rate delta t * t - 8 * of_nat delta\<bar> \<le> of_nat delta / 2 ^ 46"
proof -
  have t: "0 < t" using assms by (rule order_less_le_trans [rotated]) simp
  have "near 1 (round_double (1 / 10 ^ 6)) (1 / 10 ^ 6)" by (rule near_round) simp
  then have "round_double (1 / 10 ^ 6) \<le> 1 / 10 ^ 6 * slack" by (simp add: near_def)
  moreover have rt: "near 1 (round_double t) t" using t by (intro near_round) simp
  then have "t \<le> round_double t * slack" by (simp add: near_def)
  then have "2 / 10 ^ 6 \<le> round_double t * slack" using assms by linarith
  moreover have "1 / 10 ^ 6 * slack * slack \<le> 2 / 10 ^ 6" by (simp add: slack_def)
  ultimately have "round_double (1 / 10 ^ 6) * slack \<le> round_double t * slack"
    using mult_right_mono [of "round_double (1 / 10 ^ 6)" "1 / 10 ^ 6 * slack" slack] slack(1) by linarith
  then have mx: "max (round_double (1 / 10 ^ 6)) (round_double t) = round_double t"
    using slack(1) by (simp add: max_def)
  have "near 1 (round_double (of_nat delta)) (of_nat delta)" by (rule near_round) simp
  then have "near (1 + 0) (round_double (of_nat delta) * 8) (of_nat delta * 8)" by (intro near_mult near_refl) simp_all
  then have "near 2 (round_double (round_double (of_nat delta) * 8)) (of_nat delta * 8)"
    using near_rounded [of 1] by (simp add: numeral_2_eq_2)
  then have "near (2 + 1) (round_double (round_double (of_nat delta) * 8) / round_double t) (of_nat delta * 8 / t)"
    using rt t round_double_pos [OF t] by (intro near_divide)
  from near_rounded [OF this] have "near 4 (float_rate delta t) (of_nat delta * 8 / t)"
    unfolding float_rate_def mx by (rule near_mono) simp
  then have "near (4 + 0) (float_rate delta t * t) (of_nat delta * 8 / t * t)" using t by (intro near_mult near_refl) simp_all
  then have "\<bar>float_rate delta t * t - of_nat delta * 8\<bar> \<le> of_nat delta * 8 * (slack ^ 4 - 1)"
    using near_error [of 4] t by simp
  also have "\<dots> \<le> of_nat delta * 8 * (1 / 2 ^ 49)"
    by (intro mult_left_mono) (simp_all add: slack_def power_divide)
  finally show ?thesis by (simp add: mult.commute)
qed

lemma poll_host_step:
  assumes "enumerates it"
  shows "\<exists>s. poll_host it now out (st, rs) i =
      Inr (\<lparr>prev_acked = AList.update (HOST_PREFIX @ dec_nat i) (host_acked out i) (prev_acked st),
            prev_time = AList.update (HOST_PREFIX @ dec_nat i) now (prev_time st)\<rparr>, rs @ [s])
    \<and> sum_host s = HOST_PREFIX @ dec_nat i \<and> ack_rate s = both (Some (shown_rate st now out i))"
proof -
  obtain c where "dominant_cc it (map cc (parse_ss_tin_output (out (HOST_PREFIX @ dec_nat i)) (Some IPERF_PORT))) = Inr c"
    using dominant_cc_Inr [OF assms] by blast
  then show ?thesis by (simp add: poll_host_def summarize_host_def Let_def host_acked_def shown_rate_def float_rate_def)
qed

lemma poll_hosts_fold:
  assumes "enumerates it" "distinct is"
  shows "\<exists>st' ss. foldE (poll_host it now out) (st, rs) is = Inr (st', rs @ ss) \<and> length ss = length is
    \<and> (\<forall>k < length is. sum_host (ss ! k) = HOST_PREFIX @ dec_nat (is ! k)
          \<and> ack_rate (ss ! k) = both (Some (shown_rate st now out (is ! k))))
    \<and> (\<forall>i \<in> set is. \<forall>x y. dget (prev_acked st') (HOST_PREFIX @ dec_nat i) x = host_acked out i
          \<and> dget (prev_time st') (HOST_PREFIX @ dec_nat i) y = now)
    \<and> (\<forall>j. j \<notin> set is \<longrightarrow> (\<forall>x y. dget (prev_acked st') (HOST_PREFIX @ dec_nat j) x = dget (prev_acked st) (HOST_PREFIX @ dec_nat j) x
          \<and> dget (prev_time st') (HOST_PREFIX @ dec_nat j) y = dget (prev_time st) (HOST_PREFIX @ dec_nat j) y))"
  using assms(2)
proof (induction "is" arbitrary: st rs)
  case (Cons i "is")
  from poll_host_step [OF assms(1), of now out st rs i] obtain s where
    s: "poll_host it now out (st, rs) i =
      Inr (\<lparr>prev_acked = AList.update (HOST_PREFIX @ dec_nat i) (host_acked out i) (prev_acked st),
            prev_time = AList.update (HOST_PREFIX @ dec_nat i) now (prev_time st)\<rparr>, rs @ [s])"
      "sum_host s = HOST_PREFIX @ dec_nat i" "ack_rate s = both (Some (shown_rate st now out i))" by blast
  define st1 where "st1 = \<lparr>prev_acked = AList.update (HOST_PREFIX @ dec_nat i) (host_acked out i) (prev_acked st),
            prev_time = AList.update (HOST_PREFIX @ dec_nat i) now (prev_time st)\<rparr>"
  have get: "dget (prev_acked st1) (HOST_PREFIX @ dec_nat j) x = (if j = i then host_acked out i else dget (prev_acked st) (HOST_PREFIX @ dec_nat j) x)"
    "dget (prev_time st1) (HOST_PREFIX @ dec_nat j) y = (if j = i then now else dget (prev_time st) (HOST_PREFIX @ dec_nat j) y)" for j x y
    by (simp_all add: st1_def dget_update dec_nat_inject)
  have rate: "shown_rate st1 now out j = shown_rate st now out j" if "j \<noteq> i" for j
    using that by (simp add: shown_rate_def get Let_def)
  from Cons.IH [of st1 "rs @ [s]"] Cons.prems obtain st' ss where
    IH: "foldE (poll_host it now out) (st1, rs @ [s]) is = Inr (st', rs @ s # ss)" "length ss = length is"
      "\<And>k. k < length is \<Longrightarrow> sum_host (ss ! k) = HOST_PREFIX @ dec_nat (is ! k)"
      "\<And>k. k < length is \<Longrightarrow> ack_rate (ss ! k) = both (Some (shown_rate st1 now out (is ! k)))"
      "\<And>i x. i \<in> set is \<Longrightarrow> dget (prev_acked st') (HOST_PREFIX @ dec_nat i) x = host_acked out i"
      "\<And>i x. i \<in> set is \<Longrightarrow> dget (prev_time st') (HOST_PREFIX @ dec_nat i) x = now"
      "\<And>j x. j \<notin> set is \<Longrightarrow> dget (prev_acked st') (HOST_PREFIX @ dec_nat j) x = dget (prev_acked st1) (HOST_PREFIX @ dec_nat j) x"
      "\<And>j x. j \<notin> set is \<Longrightarrow> dget (prev_time st') (HOST_PREFIX @ dec_nat j) x = dget (prev_time st1) (HOST_PREFIX @ dec_nat j) x"
    by auto
  have ni: "is ! k \<noteq> i" if "k < length is" for k using Cons.prems that by auto
  show ?case
  proof (intro exI [of _ st'] exI [of _ "s # ss"] conjI allI ballI impI)
    show "foldE (poll_host it now out) (st, rs) (i # is) = Inr (st', rs @ s # ss)" using s(1) IH(1) by (simp add: st1_def)
  qed (use IH s(2,3) ni rate Cons.prems in \<open>auto simp: get nth_Cons split: nat.split\<close>)
qed simp

fun poll_run ::
  "(string set \<Rightarrow> string list) \<Rightarrow> (rat \<times> (string \<Rightarrow> string)) list \<Rightarrow> ss_state \<Rightarrow> summary list list result" where
  "poll_run it [] st = Inr []"
| "poll_run it ((now, out) # ps) st =
     bindE (poll_hosts it now out st) (\<lambda>(st', rs). mapE (\<lambda>rss. rs # rss) (poll_run it ps st'))"

text \<open>The acknowledgement rate in bit/s of host \<open>i\<close> in a table.\<close>

definition table_rate :: "summary list \<Rightarrow> nat \<Rightarrow> rat" where
  "table_rate rs i = the (snd (ack_rate (rs ! (i - 1))))"

lemma poll_hosts_row:
  assumes "enumerates it" "1 \<le> i" "i \<le> NUM_HOSTS"
  shows "\<exists>st' rs. poll_hosts it now out st = Inr (st', rs) \<and> table_rate rs i = shown_rate st now out i
    \<and> (\<forall>x. dget (prev_acked st') (HOST_PREFIX @ dec_nat i) x = host_acked out i)
    \<and> (\<forall>x. dget (prev_time st') (HOST_PREFIX @ dec_nat i) x = now)"
proof -
  have i: "i - 1 < length [1..<NUM_HOSTS + 1]" "[1..<NUM_HOSTS + 1] ! (i - 1) = i" "i \<in> set [1..<NUM_HOSTS + 1]"
    using assms(2,3) by (auto simp del: upt_Suc)
  from poll_hosts_fold [OF assms(1), of "[1..<NUM_HOSTS + 1]" now out st "[]"] i show ?thesis
    by (auto simp: poll_hosts_def table_rate_def both_def)
qed

lemma poll_run_rates:
  assumes "enumerates it" "1 \<le> i" "i \<le> NUM_HOSTS"
    and "\<And>x. dget (prev_acked st) (HOST_PREFIX @ dec_nat i) x = host_acked (snd p) i"
    and "\<And>x. dget (prev_time st) (HOST_PREFIX @ dec_nat i) x = fst p"
  shows "\<exists>rss. poll_run it ps st = Inr rss \<and> length rss = length ps
    \<and> (\<forall>k < length ps. table_rate (rss ! k) i =
         float_rate (host_acked (snd ((p # ps) ! Suc k)) i - host_acked (snd ((p # ps) ! k)) i)
           (fst ((p # ps) ! Suc k) - fst ((p # ps) ! k)))"
  using assms(4,5)
proof (induction ps arbitrary: p st)
  case (Cons q ps)
  obtain now out where q: "q = (now, out)" by (cases q)
  from poll_hosts_row [OF assms(1,2,3), of now out st] obtain st' rs where
    row: "poll_hosts it now out st = Inr (st', rs)" "table_rate rs i = shown_rate st now out i"
      "\<And>x. dget (prev_acked st') (HOST_PREFIX @ dec_nat i) x = host_acked (snd q) i"
      "\<And>x. dget (prev_time st') (HOST_PREFIX @ dec_nat i) x = fst q" unfolding q by auto
  from Cons.IH [OF row(3,4)] obtain rss where
    IH: "poll_run it ps st' = Inr rss" "length rss = length ps"
      "\<And>k. k < length ps \<Longrightarrow> table_rate (rss ! k) i =
         float_rate (host_acked (snd ((q # ps) ! Suc k)) i - host_acked (snd ((q # ps) ! k)) i)
           (fst ((q # ps) ! Suc k) - fst ((q # ps) ! k))" by blast
  have 0: "table_rate rs i = float_rate (host_acked out i - host_acked (snd p) i) (now - fst p)"
    using row(2) Cons.prems by (simp add: shown_rate_def Let_def)
  have "poll_run it (q # ps) st = Inr (rs # rss)" using row(1) IH(1) by (simp add: q)
  moreover have "table_rate ((rs # rss) ! k) i =
         float_rate (host_acked (snd ((p # q # ps) ! Suc k)) i - host_acked (snd ((p # q # ps) ! k)) i)
           (fst ((p # q # ps) ! Suc k) - fst ((p # q # ps) ! k))" if "k < length (q # ps)" for k
    using that 0 IH(3) [of "k - 1"] by (cases k) (simp_all add: q)
  ultimately show ?case using IH(2) by (intro exI [of _ "rs # rss"]) simp
qed simp

text \<open>
  C34. The acknowledgement rates account for the acknowledged bytes: polling a host whose counter does not
  shrink, at times at least two microseconds apart, the rates that the monitor computes in doubles, times the elapsed times, add up to
  eight times the growth of the counter, within a \<open>2^-46\<close> part of the growth, over any number of polls and whatever the other
  hosts print. The monitor fails on no output.
\<close>

theorem acked_bytes_telescope:
  fixes it p ps i
  defines "polls \<equiv> p # ps"
  assumes "enumerates it" "1 \<le> i" "i \<le> NUM_HOSTS"
    and "\<forall>k < length ps. fst (polls ! k) + 2 / 10 ^ 6 \<le> fst (polls ! Suc k)
           \<and> host_acked (snd (polls ! k)) i \<le> host_acked (snd (polls ! Suc k)) i"
  shows "\<exists>rs rss. poll_run it polls new_ss_state = Inr (rs # rss) \<and> length rss = length ps
    \<and> (let growth = of_nat (host_acked (snd (polls ! length ps)) i) - of_nat (host_acked (snd p) i)
       in \<bar>(\<Sum>k < length ps. table_rate (rss ! k) i * (fst (polls ! Suc k) - fst (polls ! k))) - 8 * growth\<bar> \<le> growth / 2 ^ 46)"
proof -
  obtain now out where p: "p = (now, out)" by (cases p)
  from poll_hosts_row [OF assms(2-4), of now out new_ss_state] obtain st rs where
    row: "poll_hosts it now out new_ss_state = Inr (st, rs)"
      "\<And>x. dget (prev_acked st) (HOST_PREFIX @ dec_nat i) x = host_acked (snd p) i"
      "\<And>x. dget (prev_time st) (HOST_PREFIX @ dec_nat i) x = fst p" unfolding p by auto
  define a where "a k = (of_nat (host_acked (snd (polls ! k)) i) :: rat)" for k
  from poll_run_rates [OF assms(2-4) row(2,3), of ps] obtain rss where
    rss: "poll_run it ps st = Inr rss" "length rss = length ps"
      "\<And>k. k < length ps \<Longrightarrow> table_rate (rss ! k) i =
         float_rate (host_acked (snd (polls ! Suc k)) i - host_acked (snd (polls ! k)) i)
           (fst (polls ! Suc k) - fst (polls ! k))" unfolding polls_def by blast
  define w where "w k = table_rate (rss ! k) i * (fst (polls ! Suc k) - fst (polls ! k))" for k
  have "\<bar>w k - 8 * (a (Suc k) - a k)\<bar> \<le> (a (Suc k) - a k) / 2 ^ 46" if "k < length ps" for k
  proof -
    have le: "2 / 10 ^ 6 \<le> fst (polls ! Suc k) - fst (polls ! k)" "host_acked (snd (polls ! k)) i \<le> host_acked (snd (polls ! Suc k)) i"
      using assms(5) that by (auto simp: algebra_simps)
    from float_rate_near [OF le(1), of "host_acked (snd (polls ! Suc k)) i - host_acked (snd (polls ! k)) i"] show ?thesis
      unfolding w_def rss(3) [OF that] a_def of_nat_diff [OF le(2)] .
  qed
  then have "\<bar>\<Sum>k < length ps. w k - 8 * (a (Suc k) - a k)\<bar> \<le> (\<Sum>k < length ps. (a (Suc k) - a k) / 2 ^ 46)"
    by (intro order_trans [OF sum_abs sum_mono]) simp
  also have "(\<Sum>k < length ps. w k - 8 * (a (Suc k) - a k)) = (\<Sum>k < length ps. w k) - 8 * (a (length ps) - a 0)"
    by (subst sum_subtractf) (simp only: sum_distrib_left [symmetric] sum_lessThan_telescope)
  also have "(\<Sum>k < length ps. (a (Suc k) - a k) / 2 ^ 46) = (a (length ps) - a 0) / 2 ^ 46"
    by (simp only: sum_divide_distrib [symmetric] sum_lessThan_telescope)
  finally show ?thesis using row(1) rss(1,2) by (simp add: polls_def p a_def w_def Let_def)
qed

text \<open>The output of a host with one socket that has so many acknowledged bytes.\<close>

definition sample_ss :: "string \<Rightarrow> string" where
  "sample_ss n = unlines [''State Recv-Q Send-Q'', sample_header, '' bytes_acked:'' @ n]"

lemma sample_flows:
  assumes "n \<in> {''1000'', ''6000''}"
  shows "parse_ss_tin_output (sample_ss n) (Some 5201) = [flow_of sample_header (''bytes_acked:'' @ n)]"
proof -
  have "digit_char 0 = CHR ''0''" "digit_char 1 = CHR ''1''" "digit_char 2 = CHR ''2''" "digit_char 5 = CHR ''5''" by code_simp+
  then have "dec_nat 5201 = ''5201''" by (simp add: dec_nat.simps)
  moreover have "extract_ipport_tokens sample_header = [''10.0.0.1:5201'', ''10.0.0.2:44321'']" by code_simp
  ultimately have k: "keep_port (ss_src (flow_of sample_header i)) (ss_dst (flow_of sample_header i)) (Some 5201)" for i
    by (simp add: keep_port_def flow_of_def Let_def item_def endswith_def)
  have "splitlines (sample_ss n) = [''State Recv-Q Send-Q'', sample_header, '' bytes_acked:'' @ n]"
    unfolding sample_ss_def using assms by (intro splitlines_unlines) (auto simp: sample_header_def is_linebreak_def)
  moreover have "map strip [''State Recv-Q Send-Q'', sample_header, '' bytes_acked:'' @ n] =
      [''State Recv-Q Send-Q'', sample_header, ''bytes_acked:'' @ n]"
    using assms by (auto simp: sample_header_def strip_def is_space_def)
  moreover have "is_estab sample_header" "\<not> is_estab ''State Recv-Q Send-Q''" "sample_header \<noteq> []"
    by (simp_all add: is_estab_def sample_header_def)
  ultimately show ?thesis by (simp add: parse_ss_tin_output_def k)
qed

lemma sample_acked: "host_acked (\<lambda>_. sample_ss ''1000'') i = 1000" "host_acked (\<lambda>_. sample_ss ''6000'') i = 6000"
proof -
  have "find_int (''bytes_acked:'' @ n) ''bytes_acked'' = Some (nat_of_digits n)" if "n \<in> {''1000'', ''6000''}" for n
    using that by (auto simp: find_int_def strip_prefix_def many1_def is_digit_def match_boundary_def boundary_def guard_def)
  then have "bytes_acked (flow_of sample_header (''bytes_acked:'' @ n)) = Some (nat_of_digits n)" if "n \<in> {''1000'', ''6000''}" for n
    using that by (simp add: flow_of_def Let_def)
  moreover have "nat_of_digits ''1000'' = 1000" "nat_of_digits ''6000'' = 6000" by (simp_all add: nat_of_digits_def digit_val_def)
  ultimately show "host_acked (\<lambda>_. sample_ss ''1000'') i = 1000" "host_acked (\<lambda>_. sample_ss ''6000'') i = 6000"
    by (simp_all add: host_acked_def IPERF_PORT_def sample_flows acked_total_def sum_or_none_def)
qed

theorem acked_bytes_telescope_witness:
  "\<exists>rs rss. poll_run (\<lambda>S. sorted_list_of_set S) [(1, \<lambda>_. sample_ss ''1000''), (3, \<lambda>_. sample_ss ''6000'')] new_ss_state = Inr (rs # rss)
    \<and> \<bar>table_rate (rss ! 0) 3 * 2 - 40000\<bar> \<le> 5000 / 2 ^ 46"
proof -
  let ?ps = "[(3, \<lambda>_. sample_ss ''6000'')] :: (rat \<times> (string \<Rightarrow> string)) list" and ?p = "(1, \<lambda>_. sample_ss ''1000'') :: rat \<times> (string \<Rightarrow> string)"
  have en: "enumerates (\<lambda>S :: string set. sorted_list_of_set S)" by (simp add: enumerates_def)
  have i: "(1 :: nat) \<le> 3" "3 \<le> NUM_HOSTS" by (simp_all add: NUM_HOSTS_def)
  have hyp: "\<forall>k < length ?ps. fst ((?p # ?ps) ! k) + 2 / 10 ^ 6 \<le> fst ((?p # ?ps) ! Suc k)
      \<and> host_acked (snd ((?p # ?ps) ! k)) 3 \<le> host_acked (snd ((?p # ?ps) ! Suc k)) 3"
    by (simp add: sample_acked)
  from acked_bytes_telescope [OF en i hyp] obtain rs rss where
    run: "poll_run (\<lambda>S. sorted_list_of_set S) (?p # ?ps) new_ss_state = Inr (rs # rss)"
    and "let growth = of_nat (host_acked (snd ((?p # ?ps) ! length ?ps)) 3) - of_nat (host_acked (snd ?p) 3)
       in \<bar>(\<Sum>k < length ?ps. table_rate (rss ! k) 3 * (fst ((?p # ?ps) ! Suc k) - fst ((?p # ?ps) ! k))) - 8 * growth\<bar> \<le> growth / 2 ^ 46"
    by blast
  then have "\<bar>table_rate (rss ! 0) 3 * 2 - 40000\<bar> \<le> 5000 / 2 ^ 46" by (simp add: sample_acked Let_def)
  with run show ?thesis by blast
qed

section \<open>The average of a ping summary\<close>

definition is_numeral :: "string \<Rightarrow> bool" where
  "is_numeral s \<longleftrightarrow> s \<noteq> [] \<and> (\<forall>c \<in> set s. is_digit c \<or> c = CHR ''.'')"

lemma numeral_part_append:
  "is_numeral s \<Longrightarrow> c \<in> {CHR ''/'', CHR '' ''} \<Longrightarrow> numeral_part (s @ c # r) = Some (s, c # r)"
  unfolding numeral_part_def is_numeral_def by (intro many1_append) (auto simp: is_digit_def)

lemma numeral_chars: "is_numeral s \<Longrightarrow> c \<in> set s \<Longrightarrow> c \<noteq> CHR ''='' \<and> c \<noteq> CHR 0x0A \<and> \<not> is_space c"
proof -
  assume "is_numeral s" "c \<in> set s"
  then consider "is_digit c" | "c = CHR ''.''" by (auto simp: is_numeral_def)
  then show ?thesis
  proof cases
    case 1
    then show ?thesis using digit_not_space [OF 1] by (auto simp: is_digit_def)
  qed (simp add: is_space_def)
qed

lemma match_rtt_values_line:
  assumes "is_numeral a" "is_numeral b" "is_numeral c" "is_numeral d"
  shows "match_rtt_values (''= '' @ a @ ''/'' @ b @ ''/'' @ c @ ''/'' @ d @ '' ms'' @ post) = Some b"
proof -
  have d: "dropWhile is_space (a @ w) = a @ w" for w
    using numeral_chars [OF assms(1)] assms(1) by (cases a) (auto simp: is_numeral_def)
  have s: "strip_prefix [x] (x # w) = Some w" "strip_prefix ''ms'' (CHR ''m'' # CHR ''s'' # w) = Some w" for x w
    by (simp_all add: strip_prefix_def)
  have m: "\<not> is_space (CHR ''m'')" by (simp add: is_space_def)
  show ?thesis
    using numeral_part_append [OF assms(1), of "CHR ''/''"] numeral_part_append [OF assms(2), of "CHR ''/''"]
      numeral_part_append [OF assms(3), of "CHR ''/''"] numeral_part_append [OF assms(4), of "CHR '' ''"]
    by (simp add: match_rtt_values_def s d m space_class(1))
qed

lemma match_rtt_values_eq: "c \<noteq> CHR ''='' \<Longrightarrow> match_rtt_values (c # cs) = None" "match_rtt_values [] = None"
  by (simp_all add: match_rtt_values_def strip_prefix_def)

lemma greedy_none:
  "\<forall>c \<in> set v. c \<noteq> CHR ''='' \<and> c \<noteq> CHR 0x0A \<Longrightarrow> post = [] \<or> hd post = CHR 0x0A \<Longrightarrow> greedy match_rtt_values (v @ post) = None"
proof (induction v)
  case Nil
  then show ?case by (cases post) (auto simp: match_rtt_values_eq)
next
  case (Cons c v)
  then show ?case by (simp add: match_rtt_values_eq)
qed

lemma greedy_skip: "\<forall>c \<in> set u. c \<noteq> CHR 0x0A \<Longrightarrow> greedy m w = Some x \<Longrightarrow> greedy m (u @ w) = Some x"
  by (induction u) auto

lemma search_skip: "\<forall>k < length pre. m (drop k (pre @ s)) = None \<Longrightarrow> search m (pre @ s) = search m s"
proof (induction pre)
  case (Cons c pre)
  from Cons.prems have "m (c # pre @ s) = None" by force
  moreover have "\<forall>k < length pre. m (drop k (pre @ s)) = None" using Cons.prems by force
  ultimately show ?case using Cons.IH by simp
qed simp

text \<open>Whether a summary line may begin here.\<close>

definition summary_starts :: "string \<Rightarrow> bool" where
  "summary_starts s \<longleftrightarrow> take 3 s = ''rtt'' \<or> take 10 s = ''round-trip''"

lemma no_summary_no_match: "\<not> summary_starts s \<Longrightarrow> match_rtt_line s = None"
  by (simp add: summary_starts_def match_rtt_line_def strip_prefix_def numeral_eq_Suc)

text \<open>
  The average round-trip time is read correctly: in any output whose first \<^verbatim>\<open>rtt\<close> or \<^verbatim>\<open>round-trip\<close> begins the summary line with
  four numerals, the result is the second one, whatever precedes the line and follows on later
  lines; it fails with \<^verbatim>\<open>ValueError\<close> only if that numeral is not a number.
\<close>

theorem ping_average_is_read:
  assumes "is_numeral a" "is_numeral b" "is_numeral c" "is_numeral d"
    and "post = [] \<or> hd post = CHR 0x0A"
  defines "line \<equiv> ''rtt min/avg/max/mdev = '' @ a @ ''/'' @ b @ ''/'' @ c @ ''/'' @ d @ '' ms'' @ post"
  assumes "\<forall>k < length pre. \<not> summary_starts (drop k (pre @ line))"
  shows "extract_avg_rtt_ms (pre @ line) = (case float_of b of None \<Rightarrow> Inl ValueError | Some x \<Rightarrow> Inr x)"
proof -
  let ?v = "'' '' @ a @ ''/'' @ b @ ''/'' @ c @ ''/'' @ d @ '' ms''"
  have "\<forall>x \<in> set ?v. x \<noteq> CHR ''='' \<and> x \<noteq> CHR 0x0A" using numeral_chars assms(1-4) by auto
  from greedy_none [OF this assms(5)] match_rtt_values_line [OF assms(1-4), of post]
  have "greedy match_rtt_values (''='' @ ?v @ post) = Some b" by simp
  then have "greedy match_rtt_values ('' min/avg/max/mdev '' @ ''='' @ ?v @ post) = Some b" by (rule greedy_skip [rotated]) simp
  then have "match_rtt_line line = Some b" by (simp add: match_rtt_line_def line_def strip_prefix_def)
  then have here: "search match_rtt_line line = Some b" by (rule search_here)
  have "match_rtt_line (drop k (pre @ line)) = None" if "k < length pre" for k
    using assms(7) that no_summary_no_match by blast
  then have "search match_rtt_line (pre @ line) = Some b" using search_skip [of pre match_rtt_line line] here by simp
  then show ?thesis by (simp add: extract_avg_rtt_ms_def)
qed

theorem ping_average_is_read_witness:
  "extract_avg_rtt_ms (''10 received'' @ [CHR 0x0A] @ ''rtt min/avg/max/mdev = 0.5/1.25/2/0.125 ms'') = Inr (5 / 4)"
proof -
  have v: "float_of ''1.25'' = Some (5 / 4)" by code_simp
  have "\<forall>k < 12. \<not> summary_starts (drop k (''10 received'' @ [CHR 0x0A] @ ''rtt min/avg/max/mdev = 0.5/1.25/2/0.125 ms''))"
    by code_simp
  then show ?thesis
    using ping_average_is_read [of "''0.5''" "''1.25''" "''2''" "''0.125''" "[]" "''10 received'' @ [CHR 0x0A]"] v
    by (simp add: is_numeral_def is_digit_def summary_starts_def All_less_Suc)
qed

end
