(* ===== verification/Topology.thy ===== *)
theory Topology
  imports Prelude
begin

text \<open>
  The sender topology of \<^verbatim>\<open>topo_pc1.py\<close>: the commands that build and tear down a bridge with
  one network namespace per sender, and how their results are shown. The shell and the
  tools it runs are outside the repository: executing a command is a parameter.
\<close>

section \<open>The script\<close>

definition NIC :: string where "NIC = ''enp6s16np0''"

definition BRIDGE :: string where "BRIDGE = ''br-quic''"

definition BR_IP :: string where "BR_IP = ''192.168.0.1/24''"

definition HOST_OFF :: int where "HOST_OFF = 10"

definition PORTRANGE :: string where "PORTRANGE = ''1024 65535''"

definition SOCKBUF :: int where "SOCKBUF = 16777216"

text \<open>What the script does, in order: print a line, or run a command with its \<^verbatim>\<open>check\<close> and \<^verbatim>\<open>quiet\<close>.\<close>

datatype action = Say string | Run (cmd: string) (checked: bool) (quiet: bool)

text \<open>
  Running a command: \<open>sh\<close> gives the return code and the output. A failure is only reported; the
  script goes on.
\<close>

definition run_cmd :: "(string \<Rightarrow> int \<times> string) \<Rightarrow> string \<Rightarrow> bool \<Rightarrow> bool \<Rightarrow> string list" where
  "run_cmd sh c check q =
     (case sh c of (rc, out) \<Rightarrow>
        if rc \<noteq> 0 \<and> check \<and> \<not> q
        then [''  ! cmd failed ('' @ dec_int rc @ ''): '' @ c @ [CHR 0x0A] @ ''    '' @ strip out] else [])"

fun perform :: "(string \<Rightarrow> int \<times> string) \<Rightarrow> action \<Rightarrow> string list" where
  "perform sh (Say s) = [s]"
| "perform sh (Run c check q) = run_cmd sh c check q"

text \<open>A command inside the namespace \<open>h\<close>.\<close>

definition ns :: "string \<Rightarrow> string \<Rightarrow> bool \<Rightarrow> bool \<Rightarrow> action" where
  "ns h c check q = Run (''ip netns exec '' @ h @ '' '' @ c) check q"

definition host :: "int \<Rightarrow> string" where "host i = ''hs'' @ dec_int i"

definition host_ip :: "int \<Rightarrow> string" where "host_ip i = ''192.168.0.'' @ dec_int (HOST_OFF + i) @ ''/24''"

definition veth_of :: "string \<Rightarrow> string" where "veth_of h = h @ ''-eth0''"

definition peer_of :: "string \<Rightarrow> string" where "peer_of h = h @ ''-br''"

definition setup_host :: "int \<Rightarrow> action list" where
  "setup_host i =
     (let h = host i; veth = veth_of h; peer = peer_of h; ip = host_ip i in
      [Run (''ip netns add '' @ h) False False,
       Run (''ip link add '' @ veth @ '' type veth peer name '' @ peer) False False,
       Run (''ip link set '' @ veth @ '' netns '' @ h) True False,
       Run (''ip link set '' @ peer @ '' master '' @ BRIDGE) True False,
       Run (''ip link set '' @ peer @ '' up'') True False,
       ns h ''ip link set lo up'' True False,
       ns h (''ip addr add '' @ ip @ '' dev '' @ veth) True False,
       ns h (''ip link set '' @ veth @ '' up'') True False,
       ns h (''sysctl -w net.ipv4.ip_local_port_range='' @ [CHR 0x27] @ PORTRANGE @ [CHR 0x27]) True True,
       ns h (''sysctl -w net.core.rmem_max='' @ dec_int SOCKBUF @ '' net.core.wmem_max='' @ dec_int SOCKBUF) True True,
       ns h (''ethtool -K '' @ veth @ '' tso off gso off gro off'') False True])"

definition setup_topology :: "int \<Rightarrow> string \<Rightarrow> action list" where
  "setup_topology nhosts nic =
     [Say (''[*] Building bridge '' @ BRIDGE @ '' on '' @ nic @ '' ...''),
      Run (''ip link add name '' @ BRIDGE @ '' type bridge'') False False,
      Run (''ip link set '' @ BRIDGE @ '' type bridge stp_state 0 forward_delay 0'') False False,
      Run (''ip addr flush dev '' @ nic) False False,
      Run (''ip link set '' @ nic @ '' master '' @ BRIDGE) True False,
      Run (''ip addr add '' @ BR_IP @ '' dev '' @ BRIDGE) False False,
      Run (''ip link set '' @ nic @ '' up'') True False,
      Run (''ip link set '' @ BRIDGE @ '' up'') True False,
      Run (''ethtool -K '' @ nic @ '' tx-udp-segmentation off gso off tso off gro off'') False True,
      Say (''[*] Creating '' @ dec_int nhosts @ '' sender namespaces ...'')] @
     concat (map setup_host [1..nhosts]) @
     [Say (''[*] Done. '' @ dec_int nhosts @ '' senders 192.168.0.'' @ dec_int (HOST_OFF + 1) @ '' .. 192.168.0.'' @
           dec_int (HOST_OFF + nhosts) @ '' on '' @ BRIDGE @ '' -> '' @ nic @ ''.''),
      Say ''    Smoke test:  sudo ip netns exec hs1 ping -c1 192.168.0.2'']"

definition clean_topology :: "int \<Rightarrow> string \<Rightarrow> action list" where
  "clean_topology nhosts nic =
     [Say ''[*] Tearing down namespaces ...''] @
     concat (map (\<lambda>i. [Run ''ip netns list'' False False, Run (''ip netns del '' @ host i) False True]) [1..max nhosts 64]) @
     [Say (''[*] Restoring '' @ nic @ '' ...''),
      Run (''ip link set '' @ nic @ '' nomaster'') False False,
      Run (''ip addr flush dev '' @ BRIDGE) False False,
      Run (''ip link del '' @ BRIDGE) False False,
      Run (''ip addr add '' @ BR_IP @ '' dev '' @ nic) False False,
      Run (''ip link set '' @ nic @ '' up'') True False,
      Say (''[*] Clean. '' @ nic @ '' back to '' @ BR_IP @ ''.'')]"

definition script_output :: "(string \<Rightarrow> int \<times> string) \<Rightarrow> action list \<Rightarrow> string list" where
  "script_output sh acts = concat (map (perform sh) acts)"

section \<open>Names and addresses\<close>

lemma dec_int_inject: "dec_int i = dec_int j \<longleftrightarrow> i = j"
  by (metis py_int_dec_int sum.inject(2))

lemma host_inject [simp]: "host i = host j \<longleftrightarrow> i = j"
  by (simp add: host_def dec_int_inject)

lemma host_ip_inject: "host_ip i = host_ip j \<longleftrightarrow> i = j"
  by (simp add: host_ip_def dec_int_inject)

text \<open>Namespaces that a list of actions adds and deletes.\<close>

definition adds :: "action list \<Rightarrow> string set" where
  "adds acts = {h. \<exists>c q. Run (''ip netns add '' @ h) c q \<in> set acts}"

definition deletes :: "action list \<Rightarrow> string set" where
  "deletes acts = {h. \<exists>c q. Run (''ip netns del '' @ h) c q \<in> set acts}"

lemma adds_append: "adds (xs @ ys) = adds xs \<union> adds ys"
  by (auto simp: adds_def)

lemma adds_concat: "adds (concat (map f xs)) = (\<Union>x \<in> set xs. adds (f x))"
  by (auto simp: adds_def)

lemma deletes_append: "deletes (xs @ ys) = deletes xs \<union> deletes ys"
  by (auto simp: deletes_def)

lemma deletes_concat: "deletes (concat (map f xs)) = (\<Union>x \<in> set xs. deletes (f x))"
  by (auto simp: deletes_def)

lemma adds_setup_host: "adds (setup_host i) = {host i}"
  by (auto simp: adds_def setup_host_def ns_def Let_def)

lemma adds_setup: "adds (setup_topology n nic) = host ` {1..n}"
proof -
  have "adds (setup_topology n nic) = adds (concat (map setup_host [1..n]))"
    by (auto simp: setup_topology_def adds_append) (auto simp: adds_def)
  then show ?thesis by (auto simp: adds_concat adds_setup_host)
qed

lemma deletes_clean: "deletes (clean_topology n nic) = host ` {1..max n 64}"
proof -
  let ?f = "\<lambda>i. [Run ''ip netns list'' False False, Run (''ip netns del '' @ host i) False True]"
  have "deletes (clean_topology n nic) = deletes (concat (map ?f [1..max n 64]))"
    by (auto simp: clean_topology_def deletes_append) (auto simp: deletes_def)
  moreover have "deletes (?f i) = {host i}" for i by (auto simp: deletes_def)
  ultimately show ?thesis by (auto simp: deletes_concat)
qed

text \<open>
  C36. Tearing down after a set-up with a different number of senders: every namespace that
  \<^verbatim>\<open>setup -n n\<close> added is deleted by \<^verbatim>\<open>clean -n m\<close> exactly when \<open>n\<close> is at most \<open>m\<close> or at most
  64. The default \<^verbatim>\<open>clean\<close> leaves namespaces of a larger topology behind.
\<close>

theorem clean_covers_setup:
  "adds (setup_topology n nic) \<subseteq> deletes (clean_topology m nic') \<longleftrightarrow> n \<le> max m 64"
proof -
  have "adds (setup_topology n nic) \<subseteq> deletes (clean_topology m nic') \<longleftrightarrow> {1..n} \<subseteq> {1..max m 64}"
    unfolding adds_setup deletes_clean by (rule inj_image_subset_iff) (simp add: inj_def)
  then show ?thesis by auto
qed

lemma length_dec_nat: "n < 10 ^ Suc k \<Longrightarrow> length (dec_nat n) \<le> Suc k"
proof (induction k arbitrary: n)
  case 0
  then show ?case by (subst dec_nat.simps) simp
next
  case (Suc k)
  then have "n div 10 < 10 ^ Suc k" by (simp add: less_mult_imp_div_less)
  from Suc.IH [OF this] show ?case by (subst dec_nat.simps) simp
qed

text \<open>
  For up to 244 senders the topology is well formed: namespaces, addresses and devices are pairwise
  distinct, no sender takes the address of the bridge or of the receiver, every host number
  is one of the /24 network, and the device names fit the 15 characters of the kernel. The bound on
  the host numbers is sharp.
\<close>

theorem senders_are_distinct:
  assumes "n \<le> 244"
  shows "distinct (map host [1..n]) \<and> distinct (map host_ip [1..n])
    \<and> distinct (map (veth_of \<circ> host) [1..n] @ map (peer_of \<circ> host) [1..n])
    \<and> BR_IP \<notin> set (map host_ip [1..n]) \<and> ''192.168.0.2/24'' \<notin> set (map host_ip [1..n])
    \<and> (\<forall>i \<in> {1..n}. length (veth_of (host i)) \<le> 15 \<and> length (peer_of (host i)) \<le> 15)
    \<and> (\<forall>i \<in> {1..n}. HOST_OFF + i \<in> {11..254}) \<and> \<not> HOST_OFF + 245 \<le> 254"
proof -
  have ip: "''192.168.0.1/24'' = host_ip (- 9)" "''192.168.0.2/24'' = host_ip (- 8)"
    by (simp_all add: host_ip_def HOST_OFF_def dec_int_def dec_nat.simps digit_char_def char_of_def bit_0)
  have veth: "veth_of h = veth_of h' \<longleftrightarrow> h = h'" "peer_of h = peer_of h' \<longleftrightarrow> h = h'" "veth_of h \<noteq> peer_of h'" for h h'
    using arg_cong [of "h @ ''-eth0''" "h' @ ''-br''" last] by (auto simp: veth_of_def peer_of_def)
  have len: "length (dec_int i) \<le> 3" if "i \<in> {1..n}" for i
  proof -
    have "nat i < 10 ^ Suc 2" using that assms by (simp add: nat_less_iff)
    from length_dec_nat [OF this] show ?thesis using that by (simp add: dec_int_def)
  qed
  have dev: "length (veth_of (host i)) \<le> 15" "length (peer_of (host i)) \<le> 15" if "1 \<le> i" "i \<le> n" for i
    using len [of i] that by (auto simp: veth_of_def peer_of_def host_def)
  show ?thesis
    using assms dev unfolding BR_IP_def ip
    by (auto simp: distinct_map inj_on_def host_ip_inject veth HOST_OFF_def)
qed

theorem senders_are_distinct_witness: "distinct (map host [1..32]) \<and> BR_IP \<notin> set (map host_ip [1..32])"
  using senders_are_distinct [of 32] by simp

end
