(* ===== verification/Spec2Isabelle.thy ===== *)
theory Spec2Isabelle
  imports Switch_Parity Control_Plane Offline_Report Byte_Accounting Monitor Ground_Truth Csv_Files Perf_Session Plot_Data Byte_Figures Notebook Topology
begin

text \<open>
  A verification library for P4-QUIC, a classifier of QUIC connections on a programmable switch with the
  tools around it. The switch reads the destination connection ID of a UDP/443 packet, masks it to its real
  length (which Short headers do not carry: it is learned from Handshake packets per 4-tuple), hashes it
  to a 17-bit bucket and counts packets and bytes per bucket. Everything else in the repository loads the switch, reads it out, generates
  traffic, or recomputes from captures and logs what the switch should have counted.

  \<^bold>\<open>Parts, theories and correspondence.\<close>

  \<^item> \<^verbatim>\<open>p4src/\<close>, the data plane. Theory \<open>Data_Plane\<close>: a record per header (\<open>ethernet_h\<close> to \<open>quic_short_h\<close>), a function
    per parser state, \<open>effective_len\<close>, \<open>mask_tbl\<close> and \<open>count_packet\<close> for the steps of the ingress control,
    \<open>IngressDeparser\<close>, and \<open>pipe\<close> for the whole. The state \<open>switch\<close> holds tables, registers and the counter. Theory
    \<open>Switch_Runs\<close> abstracts a packet to what matters of it and shows that runs of the pipe refine a fold over these views.
  \<^item> \<^verbatim>\<open>pcap_buckets.py\<close>. Theory \<open>Capture\<close>: the readers of pcap and pcapng and the frame parser; the locale
    \<open>record_walk\<close> is the contract under which a file may be cut into byte ranges, interpreted on both walks. Theory \<open>Offline_Buckets\<close>: the learning and the bucket phase, the
    workers and their merge (\<open>Dict_Merge\<close>, locale \<open>dict_acc\<close>), the precision figures and the cross-check. Theory \<open>Offline_Report\<close>: the report line by line, its archive, and \<^verbatim>\<open>main\<close> as a whole. Theory \<open>Bucket_Hash\<close>: CRC-32 and the
    bucket functions of all tools, with the contract \<open>bucket_fn\<close>.
  \<^item> \<^verbatim>\<open>bfrt_python/\<close>, the control plane. Theory \<open>Control_Plane\<close>: \<^verbatim>\<open>setup.py\<close>, the arm scripts, \<^verbatim>\<open>reset_counts.py\<close> and the dumps over
    the locales \<open>bfrt_device\<close> (tables, clears, configuration) and \<open>bfrt_reads\<close> (a software copy shows the hardware only after its sync), interpreted on
    the state of the data plane paired with software copies. Theory \<open>Monitor\<close>: \<^verbatim>\<open>quic_monitor.py\<close>, \<^verbatim>\<open>poll_quic.py\<close> and \<^verbatim>\<open>display_quic.py\<close>.
  \<^item> \<^verbatim>\<open>analyze_bytes.py\<close>. Theory \<open>Byte_Accounting\<close>: the log parser with its two patterns, the fold into the index of the counter,
    the loader of the dump and the report.
  \<^item> \<^verbatim>\<open>analyze_pcap.py\<close> and \<^verbatim>\<open>endpoint_buckets.py\<close>. Theory \<open>Ground_Truth\<close>; theory \<open>Csv_Files\<close>: the csv writer, the log of the monitor and the
    ground-truth file, and both \<^verbatim>\<open>main\<close> functions.
  \<^item> \<^verbatim>\<open>quic_perf_client.py\<close> and \<^verbatim>\<open>quic_perf_server.py\<close>. Theory \<open>Perf_Tools\<close>: event handlers, send loops, the statistics request and
    the printed lines. Theory \<open>Perf_Session\<close>: client, server and what is on the way between them as a step relation.
  \<^item> \<^verbatim>\<open>plots/\<close>. Theory \<open>Plot_Data\<close>: the loaders, over the locale \<open>keyed_rows\<close>, and the series of the CID-length study; theory
    \<open>Byte_Figures\<close>: the csv of differences between the byte report and its figures.
  \<^item> \<^verbatim>\<open>create_topology_organized.ipynb\<close>. Theory \<open>Notebook\<close>: ping summaries, the socket monitor, throughput and fairness series.
  \<^item> \<^verbatim>\<open>topo_pc1.py\<close>. Theory \<open>Topology\<close>: the command sequences that build and remove the sender namespaces.

  \<open>Prelude\<close> and \<open>Py_Text\<close> hold what these use of Python: bytes, dictionaries in insertion order, exceptions as the left summand of
  \<open>result\<close>, numerals, lines, pattern pieces, \<^verbatim>\<open>csv\<close>, and doubles: rounding, addition and printing. This theory joins the switch, the
  analyser and the dump.

  \<^bold>\<open>What the lemmas show.\<close>

  \<^item> The switch: the mask table keeps exactly the leading bytes; the pipe returns the frame unchanged; registers, counter, learned
    lengths and digests after a run are those of its QUIC packets, and exact after a reset; Short-header packets of a connection reach the bucket of its Handshake.
  \<^item> The analyser: neither the number of workers nor the cuts change the result; every datagram is counted or skipped; the
    figures mean what they say; on the traffic both sides can read its counts are the registers of the switch, and the
    cross-check with a dump of the switch is clean, down to the lines of the report; the archived verdict says what the traffic did,
    and the listed mismatches are the heaviest ones.
  \<^item> The control plane: dumps are read back as written; a reset isolates runs, whatever the registers held before; the loaded switch is a wire.
  \<^item> The monitors: the printed rates are the traffic up to a stated rounding, rates add up over polls, the screen is complete, a bucket is shown exactly while it grew recently, and
    digests and polls may interleave write by write without disturbing each other.
  \<^item> Logs, ground truth, generator and figures: what one tool prints the next one understands, with the rounding of doubles bounded;
    both send loops end; in every interleaving the client reports a volume that the server received, and its request can be answered if and only if the network did not split it; the rates and the fairness
    series of the notebook are right up to a stated rounding; figures and reports read the same data; the comparison finds exactly what the monitor logged, through the csv file.

  \<^bold>\<open>Modelling decisions and bounds.\<close> Registers, counter and header fields are words of the width in the P4 source, so they wrap; where a theorem speaks of exact counts it
  assumes fewer than \<open>2 ^ 32\<close> packets; byte counts are sums of words. No definition uses fuel: all loops of the tools are structural
  or have a measure; the time-based send loop reads its clock from a list and returns \<open>None\<close> until the
  deadline is reached, with a theorem that says when it is. Volumes up to \<open>2 ^ 49\<close> bytes keep all roundings below half a byte. Text is ASCII, apart from the two arrows on
  the monitor's screen, which are in UTF-8. Floats are rationals in the range of \<open>round_double\<close>, the nearest double with ties to even, symmetric in the sign, in the normal range: every conversion of an int, addition,
  product and quotient of the monitors, the reports and the notebook is rounded (\<open>float_add\<close>, \<open>float_sum\<close> for sums in any order), and the theorems bound the accumulated error. Two places
  keep exact rationals, where no statement depends on the rounding: the accuracy figure in \<open>analyse\<close> (the report prints its double) and the split thresholds of the pcap ranges.
  Registers have no initial value in the P4 source; \<open>empty_switch\<close> is the state that \<^verbatim>\<open>reset_counts.py\<close> leaves, not a freshly loaded program.

  \<^bold>\<open>Parameters.\<close> Code outside the repository is an argument: the hash units of the switch (hypothesis \<open>crc_parity\<close>: the bucket hash is CRC-32, and the
  flow hash separates the 4-tuples of a run), the vendor runtime (\<open>bfrt_device\<close>, \<open>bfrt_reads\<close>), the output of \<^verbatim>\<open>tshark\<close>,
  \<^verbatim>\<open>ss\<close> and \<^verbatim>\<open>ping\<close>, the events of \<^verbatim>\<open>aioquic\<close> (cut in any way), the clock, the shell, the sum of \<^verbatim>\<open>numpy\<close> (\<open>sums_columns\<close>: double additions in some order), and the iteration
  order of Python sets (\<open>enumerates\<close>), the text of a float in csv files, and the sort of tuples that may hold \<^verbatim>\<open>nan\<close> (\<open>sorts_points\<close>). Each hypothesis is met by a concrete instance in a witness.

  \<^bold>\<open>Not modelled.\<close> Printing of tables beyond the report of the analyser, the screens of the two polling tools and the lines that another tool reads, argument parsing, file and socket access, drawing, the registration of
  callbacks and the polling loop around one poll, the reservation and configuration of testbed nodes in the notebook, the Go traffic
  generator, the shell drivers, the empty egress stages of the switch, \<^verbatim>\<open>plot_buckets.py\<close> (constants), and \<^verbatim>\<open>dump_mask.py\<close>, which only asks the runtime to print a table. Two committed files, \<^verbatim>\<open>quic_monitor.py\<close> and
  \<^verbatim>\<open>analyze_pcap.py\<close>, contain a statement or line that Python rejects; the model is of the files without it.
\<close>

section \<open>The switch and the offline analyser on the same traffic\<close>

text \<open>
  C1. Offline and hardware counts agree. Take a switch with zeroed registers (as \<^verbatim>\<open>reset_counts.py\<close> leaves them) in the length-aware arm
  and any run of fewer than \<open>2^32\<close> packets, each either QUIC that both sides can read (plain
  IPv4/UDP, port 443, a connection ID of at most 20 bytes, room for the headers that the switch
  extracts) or not QUIC at all, and let the same frames be recorded in a classic pcap file.
  Provided the hash units of the target behave as documented (the bucket hash is the low 17
  bits of the zlib CRC32, the flow hash separates the 4-tuples of the run) and no Handshake
  packet after a Short-header packet changes the length announced on its 4-tuple, the analyser,
  with any number of workers, skips nothing and its packet count of every bucket is the packet
  register of that bucket; the buckets it lists are the non-zero registers.
\<close>

theorem offline_counts_equal_switch_registers:
  assumes "crc_parity hs"
    and "\<forall>p \<in> set ps. known_frame (frame p)" "length ps < 2 ^ 32"
    and "inj_on (flow_hash hs) (tuple_word ` {g \<in> set (map frame ps). quic_frame g})"
    and "settled (map frame ps)" "map snd recs = map frame ps"
  shows "\<exists>a. run_phases (pcap_file recs) (choose_jobs jobs cpus) = Inr (a, 0) \<and>
    (\<forall>b. unat (quic_pkt_count (snd (run_pipe hs ps empty_switch)) b) = dget (bucket_pkts a) (unat b) 0) \<and>
    fst ` set (bucket_pkts a) = unat ` {b. quic_pkt_count (snd (run_pipe hs ps empty_switch)) b \<noteq> 0}"
  by (rule offline_switch_agree [OF assms])

text \<open>The sample packets of \<open>Switch_Runs\<close>.\<close>

definition sample_trace :: "packet list" where
  "sample_trace = [sample_hs, sample_short 85, sample_short 170]"

lemma sample_known:
  "quic_frame (frame sample_hs)" "is_long (frame sample_hs)" "length (frame sample_hs) < 4294967296"
  "quic_frame (frame (sample_short 85))" "\<not> is_long (frame (sample_short 85))" "length (frame (sample_short 85)) < 4294967296"
  "quic_frame (frame (sample_short 170))" "\<not> is_long (frame (sample_short 170))" "length (frame (sample_short 170)) < 4294967296"
  by (simp_all add: sample_hs_def sample_short_def sample_frame_def quic_frame_def udp_frame_def port443_def is_long_def
      replicate_eval)

lemma sample_tuple:
  "tuple_word (frame sample_hs) = 0x0a0000010a000002c00001bb"
  "tuple_word (frame (sample_short 85)) = 0x0a0000010a000002c00001bb"
  "tuple_word (frame (sample_short 170)) = 0x0a0000010a000002c00001bb"
  by (simp_all add: sample_hs_def sample_short_def sample_frame_def tuple_word_def be_word_def push_bit_eq_mult)

lemma settled_shorts:
  assumes "is_long h" "\<not> is_long a" "\<not> is_long b"
  shows "settled [h, a, b]"
proof -
  have "\<not> is_hs a" "\<not> is_hs b" using assms by (auto simp: is_hs_def is_long_def)
  then have e: "announced k [h, a] = announced k [h]" "announced k [h, a, b] = announced k [h]" for k
    by (simp_all add: announced_def)
  show ?thesis
    unfolding settled_def
  proof (intro allI impI)
    fix i assume i: "i < length [h, a, b]" and q: "quic_frame ([h, a, b] ! i) \<and> \<not> is_long ([h, a, b] ! i)"
    then consider "i = 0" | "i = 1" | "i = 2" by fastforce
    then show "announced (tuple_key ([h, a, b] ! i)) (take i [h, a, b]) = announced (tuple_key ([h, a, b] ! i)) [h, a, b]"
      using q assms(1) by cases (simp_all add: e numeral_2_eq_2)
  qed
qed

lemma sample_conditions:
  "crc_parity crc_hashes" "\<forall>p \<in> set sample_trace. known_frame (frame p)" "length sample_trace < 2 ^ 32"
  "inj_on (flow_hash crc_hashes) (tuple_word ` {g \<in> set (map frame sample_trace). quic_frame g})"
  "settled (map frame sample_trace)"
proof -
  show "crc_parity crc_hashes" by (rule crc_parity_crc_hashes)
  show "\<forall>p \<in> set sample_trace. known_frame (frame p)" by (simp add: sample_trace_def known_frame_def sample_known)
  show "length sample_trace < 2 ^ 32" by (simp add: sample_trace_def)
  have "tuple_word ` {g \<in> set (map frame sample_trace). quic_frame g} \<subseteq> {0x0a0000010a000002c00001bb}"
    by (auto simp: sample_trace_def sample_tuple)
  then show "inj_on (flow_hash crc_hashes) (tuple_word ` {g \<in> set (map frame sample_trace). quic_frame g})"
    by (rule inj_on_subset [rotated]) simp
  show "settled (map frame sample_trace)" by (simp add: sample_trace_def settled_shorts sample_known)
qed

theorem offline_counts_equal_switch_registers_witness:
  "\<exists>a. run_phases (pcap_file (map (\<lambda>p. (0, frame p)) sample_trace)) (choose_jobs 2 None) = Inr (a, 0) \<and>
    (\<forall>b. unat (quic_pkt_count (snd (run_pipe crc_hashes sample_trace empty_switch)) b) = dget (bucket_pkts a) (unat b) 0) \<and>
    fst ` set (bucket_pkts a) = unat ` {b. quic_pkt_count (snd (run_pipe crc_hashes sample_trace empty_switch)) b \<noteq> 0}"
  by (rule offline_counts_equal_switch_registers [OF sample_conditions]) simp

text \<open>
  C5. The cross-check of the experiment comes out clean. A device in any state is cleared by
  \<^verbatim>\<open>reset_counts.py\<close> and put in the length-aware arm by \<^verbatim>\<open>set_aware.py\<close>, then the packets of the capture pass
  through it, under the conditions of the previous property on hash units and traffic. Its dump returns a software
  copy that is stale until a sync, and the sync copies the hardware registers. Then the chain \<^verbatim>\<open>dump_buckets.py\<close>,
  \<^verbatim>\<open>switch_buckets.csv\<close>, \<^verbatim>\<open>pcap_buckets.py --switch\<close> reports no bucket on one side only
  (the section of the report ends with two zeros and lists no mismatch), and the dump carries for every bucket the count that the analyser computed from the capture.
\<close>

theorem cross_check_is_clean:
  assumes "bfrt_reads b view soft" "view d = snd (run_pipe hs ps (view (set_aware b (reset_counts b d0))))"
    and "crc_parity hs"
    and "\<forall>p \<in> set ps. known_frame (frame p)" "length ps < 2 ^ 32"
    and "inj_on (flow_hash hs) (tuple_word ` {g \<in> set (map frame ps). quic_frame g})"
    and "settled (map frame ps)" "map snd recs = map frame ps"
  shows "\<exists>a counts. run_phases (pcap_file recs) (choose_jobs jobs cpus) = Inr (a, 0)
    \<and> bindE (dump_buckets b d) (\<lambda>(pairs, csv). load_switch_buckets path (Some csv)) = Inr counts
    \<and> sw_only (cross_check counts a) = {} \<and> pc_only (cross_check counts a) = {}
    \<and> (\<forall>(bk, n) \<in> set counts. n = int (dget (bucket_pkts a) (nat bk) 0))
    \<and> drop 6 (cross_lines order path counts a) =
        [''    switch only    : 0   <- buckets the offline model did NOT reproduce'', ''    pcap only      : 0'']"
proof -
  let ?sw = "snd (run_pipe hs ps empty_switch)" and ?counts = "cells 131072 (pkt_cell (view d))"
  have dev: "bfrt_device b view" by (rule bfrt_reads.axioms(1) [OF assms(1)])
  have "view d = ?sw\<lparr>forwarding := forwarding (view d0)\<rparr>"
    using bfrt_device.reset_run [OF dev, of set_aware 0 hs ps d0] by (simp add: assms(2) empty_switch_def)
  then have cells: "pkt_cell (view d) = pkt_cell ?sw" by (simp add: fun_eq_iff pkt_cell_def)
  obtain a where a: "run_phases (pcap_file recs) (choose_jobs jobs cpus) = Inr (a, 0)"
    and cnt: "\<And>x. unat (quic_pkt_count ?sw x) = dget (bucket_pkts a) (unat x) 0"
    and keys: "fst ` set (bucket_pkts a) = unat ` {x. quic_pkt_count ?sw x \<noteq> 0}"
    using offline_switch_agree [OF assms(3-8)] by blast
  have load: "bindE (dump_buckets b d) (\<lambda>(pairs, csv). load_switch_buckets path (Some csv)) = Inr ?counts"
    using load_buckets_csv [OF cells_ok, of path 131072 "pkt_cell (view d)"]
    by (simp only: bfrt_reads.dump_buckets_cells [OF assms(1)] bindE_Inr prod.case)
  have val: "n = int (dget (bucket_pkts a) (nat bk) 0)" if "(bk, n) \<in> set ?counts" for bk n
  proof -
    from that obtain i where i: "i < 131072" "bk = int i" "n = int (pkt_cell ?sw i)"
      by (auto simp: cells_def cells)
    then have "pkt_cell ?sw i = dget (bucket_pkts a) i 0"
      using cnt [of "word_of_nat i"] by (simp add: pkt_cell_def unat_of_nat)
    with i show ?thesis by simp
  qed
  have "int ` fst ` set (bucket_pkts a) = int ` {i. i < 131072 \<and> 0 < pkt_cell ?sw i}"
    by (simp only: keys occupied_cells)
  also have "\<dots> = fst ` set ?counts" by (force simp: cells_def cells)
  finally have "sw_only (cross_check ?counts a) = {}" "pc_only (cross_check ?counts a) = {}"
    by (simp_all add: cross_check_def Let_def)
  moreover from this have "drop 6 (cross_lines order path ?counts a) =
      [''    switch only    : 0   <- buckets the offline model did NOT reproduce'', ''    pcap only      : 0'']"
    by (simp add: cross_lines_def Let_def dec_nat_0)
  ultimately show ?thesis using a load val by blast
qed

theorem cross_check_is_clean_witness:
  "\<exists>a counts. run_phases (pcap_file (map (\<lambda>p. (0, frame p)) sample_trace)) (choose_jobs 4 None) = Inr (a, 0)
    \<and> bindE (dump_buckets switch_bfrt (unsynced (snd (run_pipe crc_hashes sample_trace
          (fst (set_aware switch_bfrt (reset_counts switch_bfrt (unsynced (empty_switch\<lparr>quic_pkt_count := (\<lambda>_. 1)\<rparr>)))))))))
        (\<lambda>(pairs, csv). load_switch_buckets ''switch_buckets.csv'' (Some csv)) = Inr counts
    \<and> sw_only (cross_check counts a) = {} \<and> pc_only (cross_check counts a) = {}
    \<and> (\<forall>(bk, n) \<in> set counts. n = int (dget (bucket_pkts a) (nat bk) 0))
    \<and> drop 6 (cross_lines sorted_list_of_set ''switch_buckets.csv'' counts a) =
        [''    switch only    : 0   <- buckets the offline model did NOT reproduce'', ''    pcap only      : 0'']"
  by (rule cross_check_is_clean [OF sw.bfrt_reads_axioms unsynced_hw sample_conditions(1-5)]) simp

end
